(* ===== verification/Wg_Prelude.thy ===== *)
theory Wg_Prelude
  imports Main "HOL-Library.Word"
begin

text \<open>
  What the components of the development share: the machine types, the error
  numbers the module returns, the byte orders of the wire formats, the
  comparison of jiffies, and the generic facts on lists that the component
  proofs use.

  A \<open>__be16\<close>, \<open>__be32\<close> or \<open>__le32\<close> member of a struct is held as the number it
  denotes, so \<open>htonl\<close> and \<open>ntohl\<close> disappear; the byte order shows where a struct
  is laid out as bytes (\<open>put_be32\<close> and \<open>get_be32\<close> below).
\<close>

unbundle bit_operations_syntax

type_synonym u8 = "8 word"
type_synonym u16 = "16 word"
type_synonym u32 = "32 word"
type_synonym u64 = "64 word"
type_synonym bytes = "u8 list"

named_theorems wire_simps \<open>layout of wire formats and their lengths\<close>
named_theorems inv_intros \<open>preservation of component invariants\<close>

text \<open>The error numbers the sources return, as one enumeration.\<close>

datatype errno =
    EINVAL | EMSGSIZE | ENOMEM | EAGAIN | ENOTCONN | EAFNOSUPPORT | EPIPE
  | ECONNREFUSED | ECONNABORTED | ENOBUFS | ESTALE | EBUSY | EALREADY
  | EINPROGRESS | ESHUTDOWN | EADDRINUSE | EADDRNOTAVAIL | ENOKEY
  | EDESTADDRREQ | EPROTONOSUPPORT | ENONET | ENOSPC | ENOENT | ENODEV
  | EBADF | ELOOP | EOPNOTSUPP | EUCLEAN | EPERM | EOTHER

text \<open>Results of fallible code: the error number or the value.\<close>

type_synonym 'a result = "errno + 'a"

definition NSEC_PER_SEC :: u64 where "NSEC_PER_SEC = 1000000000"

section \<open>Byte orders\<close>

definition put_be16 :: "u16 \<Rightarrow> bytes" where
  "put_be16 w = [ucast (drop_bit 8 w), ucast w]"

definition get_be16 :: "u8 \<Rightarrow> u8 \<Rightarrow> u16" where
  "get_be16 a b = push_bit 8 (ucast a) OR ucast b"

definition put_be32 :: "u32 \<Rightarrow> bytes" where
  "put_be32 w = [ucast (drop_bit 24 w), ucast (drop_bit 16 w), ucast (drop_bit 8 w), ucast w]"

definition get_be32 :: "u8 \<Rightarrow> u8 \<Rightarrow> u8 \<Rightarrow> u8 \<Rightarrow> u32" where
  "get_be32 a b c d =
     push_bit 24 (ucast a) OR push_bit 16 (ucast b) OR push_bit 8 (ucast c) OR ucast d"

text \<open>\<open>time_before\<close> and friends of \<open>linux/jiffies.h\<close>: the sign of the wrapped difference.\<close>

definition time_before :: "u64 \<Rightarrow> u64 \<Rightarrow> bool" where
  "time_before a b = (sint (a - b) < 0)"

definition time_after_eq :: "u64 \<Rightarrow> u64 \<Rightarrow> bool" where
  "time_after_eq a b = (sint (a - b) \<ge> 0)"

section \<open>Generic lemmas\<close>

lemma length_put_be [simp, wire_simps]:
  "length (put_be16 w) = 2" "length (put_be32 v) = 4"
  by (simp_all add: put_be16_def put_be32_def)

lemma get_put_be16 [simp]:
  "get_be16 (ucast (drop_bit 8 w)) (ucast w) = w"
  unfolding get_be16_def
  by (rule bit_word_eqI) (auto simp: bit_simps)

lemma get_put_be32 [simp]:
  "get_be32 (ucast (drop_bit 24 w)) (ucast (drop_bit 16 w)) (ucast (drop_bit 8 w)) (ucast w) = w"
  unfolding get_be32_def
  by (rule bit_word_eqI, subgoal_tac "n < 8 \<or> 8 \<le> n \<and> n < 16 \<or> 16 \<le> n \<and> n < 24 \<or> 24 \<le> n")
    (auto simp: bit_simps)

lemma bit_u8_ge [simp]: "8 \<le> n \<Longrightarrow> \<not> bit (a :: u8) n"
  using bit_imp_le_length [of a n] by auto

lemma put_get_be16 [simp]: "put_be16 (get_be16 a b) = [a, b]"
  unfolding put_be16_def get_be16_def
  by (auto intro!: bit_word_eqI simp: bit_simps)

lemma put_get_be32 [simp]: "put_be32 (get_be32 a b c d) = [a, b, c, d]"
  unfolding put_be32_def get_be32_def
  by (auto intro!: bit_word_eqI simp: bit_simps)

lemma unat_of_nat_u32: "n < 2 ^ 32 \<Longrightarrow> unat (of_nat n :: u32) = n"
  by (simp add: unat_of_nat take_bit_nat_eq_self)

lemma time_after_eq_iff: "time_after_eq a b = (\<not> time_before a b)"
  by (auto simp: time_after_eq_def time_before_def)

end
