(* ===== verification/Skb.thy ===== *)
theory Skb
  imports Wg_Prelude
begin

text \<open>
  The socket buffer, as far as the module looks at it. An \<open>sk_buff\<close> is a linear
  buffer: \<open>skb_headroom\<close> free bytes, the bytes between \<open>data\<close> and \<open>tail\<close>, and
  \<open>skb_tailroom\<close> free bytes. The synthetic IP and UDP headers that the TCP reader
  pushes are kept as the structs they are, beside the payload, together with the
  parts of \<open>struct packet_cb\<close> (kernel/queueing.h) that cross components.

  The buffer allocator is outside the module. A run is given the outcomes of its
  allocations as a list: \<open>None\<close> for a failure and \<open>Some k\<close> for a buffer with \<open>k\<close>
  bytes more than asked for (the slab rounds sizes up); when the list is used up
  allocations succeed with nothing extra.
\<close>

record iphdr =
  ip_version :: u8
  ip_ihl :: u8
  ip_tos :: u8
  ip_tot_len :: u16
  ip_id :: u16
  ip_frag_off :: u16
  ip_ttl :: u8
  ip_protocol :: u8
  ip_check :: u16
  ip_saddr :: u32
  ip_daddr :: u32

record ipv6hdr =
  ip6_version :: u8
  ip6_priority :: u8
  ip6_flow_lbl :: u32
  ip6_payload_len :: u16
  ip6_nexthdr :: u8
  ip6_hop_limit :: u8
  ip6_saddr :: "128 word"
  ip6_daddr :: "128 word"

record udphdr =
  udp_source :: u16
  udp_dest :: u16
  udp_len :: u16
  udp_check :: u16

datatype net_hdr = No_hdr | V4_hdr iphdr | V6_hdr ipv6hdr

record sk_buff =
  skb_headroom :: nat
  skb_data :: bytes
  skb_tailroom :: nat
  skb_net :: net_hdr
  skb_udp :: "udphdr option"
  skb_protocol :: u16
  skb_iif :: u32
  cb_frag_id :: u16
  cb_frag_off :: u16
  cb_tcp_connection_id :: u64

abbreviation skb_len :: "sk_buff \<Rightarrow> nat" where
  "skb_len skb \<equiv> length (skb_data skb)"

text \<open>Allocation outcomes, and a fresh buffer of \<open>size\<close> bytes with \<open>reserve\<close> of them as headroom.\<close>

type_synonym alloc_script = "nat option list"

fun next_alloc :: "alloc_script \<Rightarrow> nat option \<times> alloc_script" where
  "next_alloc [] = (Some 0, [])"
| "next_alloc (a # as) = (a, as)"

definition fresh_skb :: "nat \<Rightarrow> nat \<Rightarrow> nat \<Rightarrow> sk_buff" where
  "fresh_skb sz reserve slack =
     \<lparr>skb_headroom = reserve, skb_data = [], skb_tailroom = sz - reserve + slack,
      skb_net = No_hdr, skb_udp = None, skb_protocol = 0, skb_iif = 0,
      cb_frag_id = 0, cb_frag_off = 0, cb_tcp_connection_id = 0\<rparr>"

text \<open>\<open>skb_pull\<close>, \<open>skb_trim\<close> and \<open>skb_put\<close> on a linear buffer.\<close>

definition skb_pull :: "nat \<Rightarrow> sk_buff \<Rightarrow> sk_buff" where
  "skb_pull n skb = skb\<lparr>skb_data := drop n (skb_data skb), skb_headroom := skb_headroom skb + n\<rparr>"

definition skb_trim :: "nat \<Rightarrow> sk_buff \<Rightarrow> sk_buff" where
  "skb_trim n skb =
     skb\<lparr>skb_data := take n (skb_data skb),
         skb_tailroom := skb_tailroom skb + (skb_len skb - n)\<rparr>"

definition skb_put :: "bytes \<Rightarrow> sk_buff \<Rightarrow> sk_buff" where
  "skb_put bs skb =
     skb\<lparr>skb_data := skb_data skb @ bs, skb_tailroom := skb_tailroom skb - length bs\<rparr>"

text \<open>\<open>skb_copy_expand\<close>: the same bytes and control block, with the requested tailroom.\<close>

definition skb_copy_expand :: "nat \<Rightarrow> nat \<Rightarrow> nat \<Rightarrow> sk_buff \<Rightarrow> sk_buff" where
  "skb_copy_expand headroom tailroom slack skb =
     skb\<lparr>skb_headroom := headroom, skb_tailroom := tailroom + slack\<rparr>"

section \<open>Lemmas\<close>

lemma skb_len_ops [simp, wire_simps]:
  "skb_len (fresh_skb sz reserve slack) = 0"
  "skb_len (skb_pull n skb) = skb_len skb - n"
  "skb_len (skb_trim n skb) = min n (skb_len skb)"
  "skb_len (skb_put bs skb) = skb_len skb + length bs"
  "skb_len (skb_copy_expand h t slack skb) = skb_len skb"
  by (auto simp: fresh_skb_def skb_pull_def skb_trim_def skb_put_def skb_copy_expand_def)

lemma skb_data_ops [simp, wire_simps]:
  "skb_data (fresh_skb sz reserve slack) = []"
  "skb_data (skb_pull n skb) = drop n (skb_data skb)"
  "skb_data (skb_trim n skb) = take n (skb_data skb)"
  "skb_data (skb_put bs skb) = skb_data skb @ bs"
  "skb_data (skb_copy_expand h t slack skb) = skb_data skb"
  by (simp_all add: fresh_skb_def skb_pull_def skb_trim_def skb_put_def skb_copy_expand_def)

lemma skb_headroom_ops [simp, wire_simps]:
  "skb_headroom (fresh_skb sz reserve slack) = reserve"
  "skb_headroom (skb_pull n skb) = skb_headroom skb + n"
  "skb_headroom (skb_trim n skb) = skb_headroom skb"
  "skb_headroom (skb_put bs skb) = skb_headroom skb"
  "skb_headroom (skb_copy_expand h t slack skb) = h"
  by (simp_all add: fresh_skb_def skb_pull_def skb_trim_def skb_put_def skb_copy_expand_def)

lemma skb_tailroom_ops [simp, wire_simps]:
  "skb_tailroom (fresh_skb sz reserve slack) = sz - reserve + slack"
  "skb_tailroom (skb_pull n skb) = skb_tailroom skb"
  "skb_tailroom (skb_copy_expand h t slack skb) = t + slack"
  by (simp_all add: fresh_skb_def skb_pull_def skb_copy_expand_def)

end
