(* ===== verification/Tcp_Frame.thy ===== *)
theory Tcp_Frame
  imports Skb
begin

text \<open>
  TCP record framing: the encapsulation header and its checksum
  (kernel/socket.h; \<open>wg_header_checksum\<close>, \<open>wg_validate_header_checksum\<close> and
  \<open>wg_check_potential_header_validity\<close> of kernel/wg_tcp.c), the fault injection
  parameters that shape a frame, and \<open>wg_tcp_build_frame\<close>. The lemmas show that the
  header layout is a bijection with its eight bytes, that a built frame carries a
  header the validator accepts, that no candidate in an injected garbage prefix
  passes it, and which corruptions the checksum detects.
\<close>

section \<open>Wire formats\<close>

record wg_tcp_encap_header =
  eh_length :: u32
  eh_type :: u8
  eh_flags :: u8
  eh_checksum :: u16

record wg_tcp_frag_header =
  fh_id :: u16
  fh_frag_off :: u16

definition WG_TCP_ENCAP_HDR_LEN :: nat where "WG_TCP_ENCAP_HDR_LEN = 8"
definition WG_TCP_FRAG_HDR_LEN :: nat where "WG_TCP_FRAG_HDR_LEN = 4"
definition WG_MAX_PACKET_SIZE :: nat where "WG_MAX_PACKET_SIZE = 65535 + 8"
definition WG_TCP_RECORD_DATA :: u8 where "WG_TCP_RECORD_DATA = 0"
definition WG_TCP_FRAG_FLAG :: u8 where "WG_TCP_FRAG_FLAG = 1"
definition MESSAGE_MINIMUM_LENGTH :: nat where "MESSAGE_MINIMUM_LENGTH = 32"

lemmas frame_consts = WG_TCP_ENCAP_HDR_LEN_def WG_TCP_FRAG_HDR_LEN_def WG_MAX_PACKET_SIZE_def
  WG_TCP_RECORD_DATA_def WG_TCP_FRAG_FLAG_def MESSAGE_MINIMUM_LENGTH_def

text \<open>The bytes that \<open>memcpy\<close> moves between the structs and a buffer.\<close>

definition encode_header :: "wg_tcp_encap_header \<Rightarrow> bytes" where
  "encode_header h =
     put_be32 (eh_length h) @ [eh_type h, eh_flags h] @ put_be16 (eh_checksum h)"

fun decode_header :: "bytes \<Rightarrow> wg_tcp_encap_header" where
  "decode_header (a # b # c # d # t # f # x # y # _) =
     \<lparr>eh_length = get_be32 a b c d, eh_type = t, eh_flags = f, eh_checksum = get_be16 x y\<rparr>"
| "decode_header _ = \<lparr>eh_length = 0, eh_type = 0, eh_flags = 0, eh_checksum = 0\<rparr>"

definition encode_frag :: "wg_tcp_frag_header \<Rightarrow> bytes" where
  "encode_frag h = put_be16 (fh_id h) @ put_be16 (fh_frag_off h)"

fun decode_frag :: "bytes \<Rightarrow> wg_tcp_frag_header" where
  "decode_frag (a # b # c # d # _) = \<lparr>fh_id = get_be16 a b, fh_frag_off = get_be16 c d\<rparr>"
| "decode_frag _ = \<lparr>fh_id = 0, fh_frag_off = 0\<rparr>"

section \<open>The header checksum and the validator\<close>

definition wg_header_checksum :: "wg_tcp_encap_header \<Rightarrow> u16" where
  "wg_header_checksum hdr =
     (let len = eh_length hdr;
          c1 = ucast (drop_bit 16 len AND 0xFFFF);
          c2 = c1 XOR ucast (len AND 0xFFFF);
          c3 = c2 XOR (push_bit 8 (ucast (eh_flags hdr)) OR ucast (eh_type hdr));
          c4 = push_bit 5 c3 OR drop_bit (16 - 5) c3
      in c4 XOR 0xA5A5)"

definition wg_validate_header_checksum :: "wg_tcp_encap_header \<Rightarrow> bool" where
  "wg_validate_header_checksum hdr = (wg_header_checksum hdr = eh_checksum hdr)"

definition wg_check_potential_header_validity :: "wg_tcp_encap_header \<Rightarrow> nat \<Rightarrow> bool" where
  "wg_check_potential_header_validity candidate remaining_len =
     (if remaining_len < WG_TCP_ENCAP_HDR_LEN then False
      else if \<not> wg_validate_header_checksum candidate then False
      else if eh_type candidate \<noteq> WG_TCP_RECORD_DATA then False
      else if eh_flags candidate AND NOT WG_TCP_FRAG_FLAG \<noteq> 0 then False
      else
        let minimum_len = WG_TCP_ENCAP_HDR_LEN + MESSAGE_MINIMUM_LENGTH +
              (if eh_flags candidate AND WG_TCP_FRAG_FLAG \<noteq> 0 then WG_TCP_FRAG_HDR_LEN else 0);
            total_len = unat (eh_length candidate)
        in total_len \<ge> minimum_len \<and> total_len \<le> WG_MAX_PACKET_SIZE)"

section \<open>Fault injection parameters\<close>

text \<open>
  \<open>fault_injection\<close> is the compile-time switch (\<open>DEBUG\<close> and
  \<open>WG_TCP_FAULT_INJECTION\<close>); the other members are the module parameters.
\<close>

record wg_tcp_test =
  fault_injection :: bool
  test_max_send_bytes :: nat
  test_garbage_prefix_bytes :: nat
  test_queue_limit :: nat
  test_write_delay_ms :: nat
  test_fail_send_netns :: u32
  test_fail_send_ifindex :: u32
  test_fail_send_local_ipv4 :: u32
  test_fail_send_source_port :: u32
  test_fail_send_remote_ipv4 :: u32
  test_fail_send_remote_port :: u32
  test_fail_next_send :: nat

definition production :: wg_tcp_test where
  "production = \<lparr>fault_injection = False, test_max_send_bytes = 0,
     test_garbage_prefix_bytes = 0, test_queue_limit = 0, test_write_delay_ms = 0,
     test_fail_send_netns = 0, test_fail_send_ifindex = 0, test_fail_send_local_ipv4 = 0,
     test_fail_send_source_port = 0, test_fail_send_remote_ipv4 = 0,
     test_fail_send_remote_port = 0, test_fail_next_send = 0\<rparr>"

definition WG_TCP_TEST_MAX_GARBAGE_PREFIX :: nat where "WG_TCP_TEST_MAX_GARBAGE_PREFIX = 64"
definition WG_TCP_TEST_MAX_WRITE_DELAY_MS :: nat where "WG_TCP_TEST_MAX_WRITE_DELAY_MS = 1000"
definition MAX_QUEUED_PACKETS :: nat where "MAX_QUEUED_PACKETS = 1024"

definition wg_tcp_test_send_len :: "wg_tcp_test \<Rightarrow> nat \<Rightarrow> nat" where
  "wg_tcp_test_send_len t frame_len =
     (if fault_injection t
      then (if test_max_send_bytes t \<noteq> 0 then min (test_max_send_bytes t) frame_len else frame_len)
      else frame_len)"

definition wg_tcp_test_prefix_len :: "wg_tcp_test \<Rightarrow> nat" where
  "wg_tcp_test_prefix_len t =
     (if fault_injection t
      then min (test_garbage_prefix_bytes t) WG_TCP_TEST_MAX_GARBAGE_PREFIX else 0)"

definition wg_tcp_test_effective_queue_limit :: "wg_tcp_test \<Rightarrow> nat" where
  "wg_tcp_test_effective_queue_limit t =
     (if fault_injection t
      then (if test_queue_limit t \<noteq> 0 \<and> test_queue_limit t < MAX_QUEUED_PACKETS
            then test_queue_limit t else MAX_QUEUED_PACKETS)
      else MAX_QUEUED_PACKETS)"

text \<open>The delay is taken once: the parameter is exchanged with zero.\<close>

definition wg_tcp_test_take_write_delay_ms :: "wg_tcp_test \<Rightarrow> nat \<times> wg_tcp_test" where
  "wg_tcp_test_take_write_delay_ms t =
     (if fault_injection t
      then (min (test_write_delay_ms t) WG_TCP_TEST_MAX_WRITE_DELAY_MS, t\<lparr>test_write_delay_ms := 0\<rparr>)
      else (0, t))"

section \<open>Building a frame\<close>

text \<open>
  \<open>wg_tcp_build_frame\<close>: \<open>alloc_ok\<close> and \<open>copy_ok\<close> are the outcomes of \<open>alloc_skb\<close>
  and \<open>skb_copy_bits\<close>.
\<close>

definition wg_tcp_build_frame :: "wg_tcp_test \<Rightarrow> bool \<Rightarrow> bool \<Rightarrow> sk_buff \<Rightarrow> bytes result" where
  "wg_tcp_build_frame t alloc_ok copy_ok payload =
     (let fragmented = cb_frag_off payload \<noteq> 0;
          prefix_len = wg_tcp_test_prefix_len t
      in
      if skb_len payload < MESSAGE_MINIMUM_LENGTH then Inl EINVAL
      else
        let flags = (if fragmented then WG_TCP_FRAG_FLAG else 0);
            frag_header = \<lparr>fh_id = cb_frag_id payload, fh_frag_off = cb_frag_off payload\<rparr>;
            header_len = WG_TCP_ENCAP_HDR_LEN + (if fragmented then WG_TCP_FRAG_HDR_LEN else 0)
        in
        if skb_len payload > WG_MAX_PACKET_SIZE - header_len then Inl EMSGSIZE
        else
          let total_len = header_len + skb_len payload;
              hdr = \<lparr>eh_length = of_nat total_len, eh_type = WG_TCP_RECORD_DATA,
                     eh_flags = flags, eh_checksum = 0\<rparr>;
              encap_header = hdr\<lparr>eh_checksum := wg_header_checksum hdr\<rparr>
          in
          if \<not> alloc_ok then Inl ENOMEM
          else if \<not> copy_ok then Inl EINVAL
          else Inr (replicate prefix_len 0xa5 @ encode_header encap_header @
                    (if fragmented then encode_frag frag_header else []) @ skb_data payload))"

section \<open>Lemmas on the wire formats\<close>

lemma length_encode [simp, wire_simps]:
  "length (encode_header h) = 8" "length (encode_frag f) = 4"
  by (simp_all add: encode_header_def encode_frag_def)

lemma decode_encode_header [simp]: "decode_header (encode_header h @ rest) = h"
  by (simp add: encode_header_def put_be32_def put_be16_def)

lemma decode_encode_frag [simp]: "decode_frag (encode_frag f @ rest) = f"
  by (simp add: encode_frag_def put_be16_def)

lemma encode_decode_header:
  assumes "8 \<le> length bs" shows "encode_header (decode_header bs) = take 8 bs"
  using assms
  by (cases bs rule: decode_header.cases) (auto simp: encode_header_def)

lemma checksum_ignores_field [simp]:
  "wg_header_checksum (h\<lparr>eh_checksum := c\<rparr>) = wg_header_checksum h"
  by (simp add: wg_header_checksum_def)

lemma checksum_unfold:
  "wg_header_checksum h =
     (let c = (ucast (drop_bit 16 (eh_length h)) XOR ucast (eh_length h)) XOR
              (push_bit 8 (ucast (eh_flags h)) OR ucast (eh_type h)) :: u16
      in (push_bit 5 c OR drop_bit 11 c) XOR 0xA5A5)"
proof -
  have m: "(0xFFFF :: u32) = mask 16" by (simp add: mask_eq_exp_minus_1)
  have hi: "ucast (drop_bit 16 (l :: u32) AND 0xFFFF) = (ucast (drop_bit 16 l) :: u16)" for l
    unfolding m by (rule bit_word_eqI) (auto simp: bit_simps)
  have lo: "ucast ((l :: u32) AND 0xFFFF) = (ucast l :: u16)" for l
    unfolding m by (rule bit_word_eqI) (auto simp: bit_simps)
  show ?thesis by (simp add: wg_header_checksum_def Let_def hi lo del: push_bit_xor drop_bit_xor push_bit_or drop_bit_or)
qed

lemma bit_u16_ge [simp]: "16 \<le> n \<Longrightarrow> \<not> bit (a :: u16) n"
  using bit_imp_le_length [of a n] by auto

lemma rotl5_inj:
  assumes "push_bit 5 a OR drop_bit 11 a = push_bit 5 b OR drop_bit 11 (b :: u16)"
  shows "a = b"
proof (rule bit_word_eqI)
  fix n assume "n < LENGTH(16)"
  then have n: "n < 16" by simp
  show "bit a n = bit b n"
  proof (cases "n < 11")
    case True
    then show ?thesis
      using arg_cong [OF assms, of "\<lambda>w. bit w (n + 5)"]
      by (simp add: bit_simps)
  next
    case False
    then show ?thesis
      using arg_cong [OF assms, of "\<lambda>w. bit w (n - 11)"] n by (auto simp: bit_simps)
  qed
qed

lemma checksum_eqD:
  assumes "wg_header_checksum h = wg_header_checksum h'"
  shows "(ucast (drop_bit 16 (eh_length h)) XOR ucast (eh_length h)) XOR
           (push_bit 8 (ucast (eh_flags h)) OR ucast (eh_type h)) =
         ((ucast (drop_bit 16 (eh_length h')) XOR ucast (eh_length h')) XOR
           (push_bit 8 (ucast (eh_flags h')) OR ucast (eh_type h')) :: u16)"
proof -
  have cancel: "x XOR k = y XOR k \<Longrightarrow> x = y" for x y k :: u16
    by (metis xor.assoc xor_self_eq xor.right_neutral)
  from assms show ?thesis
    unfolding checksum_unfold Let_def by (rule rotl5_inj [OF cancel])
qed

lemma xor_cancel_right: "x XOR k = y XOR k \<longleftrightarrow> x = (y :: 'a::ring_bit_operations)"
  by (metis xor.assoc xor_self_eq xor.right_neutral)

lemma xor_cancel_left: "k XOR x = k XOR y \<longleftrightarrow> x = (y :: 'a::ring_bit_operations)"
  by (metis xor.assoc xor_self_eq xor.left_neutral)

lemma u32_halves:
  assumes "ucast (drop_bit 16 l) = (ucast (drop_bit 16 m) :: u16)" "ucast l = (ucast m :: u16)"
  shows "l = (m :: u32)"
proof (rule bit_word_eqI)
  fix n assume "n < LENGTH(32)"
  then have "n < 32" by simp
  then show "bit l n = bit m n"
    using arg_cong [OF assms(1), of "\<lambda>w. bit w (n - 16)"] arg_cong [OF assms(2), of "\<lambda>w. bit w n"]
    by (cases "n < 16") (auto simp: bit_simps)
qed

lemma flags_type_inj:
  assumes "push_bit 8 (ucast f) OR ucast t = (push_bit 8 (ucast f') OR ucast t' :: u16)"
  shows "f = (f' :: u8) \<and> t = (t' :: u8)"
proof -
  have "f = f'"
  proof (rule bit_word_eqI)
    fix n assume "n < LENGTH(8)"
    then show "bit f n = bit f' n"
      using arg_cong [OF assms, of "\<lambda>w. bit w (n + 8)"] by (simp add: bit_simps)
  qed
  moreover have "t = t'"
  proof (rule bit_word_eqI)
    fix n assume "n < LENGTH(8)"
    then show "bit t n = bit t' n"
      using arg_cong [OF assms, of "\<lambda>w. bit w n"] by (simp add: bit_simps)
  qed
  ultimately show ?thesis ..
qed

lemma checksum_length_column:
  assumes "wg_header_checksum (h\<lparr>eh_length := l\<rparr>) = wg_header_checksum h"
    and "drop_bit 16 l = drop_bit 16 (eh_length h) \<or> ucast l = (ucast (eh_length h) :: u16)"
  shows "l = eh_length h"
  using checksum_eqD [OF assms(1)] assms(2)
  by (auto simp: xor_cancel_left xor_cancel_right intro: u32_halves)

lemma checksum_flags_type_column:
  assumes "wg_header_checksum (h\<lparr>eh_type := t, eh_flags := f\<rparr>) = wg_header_checksum h"
  shows "t = eh_type h \<and> f = eh_flags h"
  using checksum_eqD [OF assms] by (auto simp: xor_cancel_left dest: flags_type_inj)

section \<open>Lemmas on built frames\<close>

definition record_header :: "nat \<Rightarrow> bool \<Rightarrow> wg_tcp_encap_header" where
  "record_header total_len fragmented =
     (let hdr = \<lparr>eh_length = of_nat total_len, eh_type = WG_TCP_RECORD_DATA,
                 eh_flags = (if fragmented then WG_TCP_FRAG_FLAG else 0), eh_checksum = 0\<rparr>
      in hdr\<lparr>eh_checksum := wg_header_checksum hdr\<rparr>)"

definition hdr_len :: "bool \<Rightarrow> nat" where
  "hdr_len fragmented = (if fragmented then 12 else 8)"

definition frame_image :: "sk_buff \<Rightarrow> bytes" where
  "frame_image p =
     (let fragmented = cb_frag_off p \<noteq> 0 in
      encode_header (record_header (hdr_len fragmented + skb_len p) fragmented) @
      (if fragmented then encode_frag \<lparr>fh_id = cb_frag_id p, fh_frag_off = cb_frag_off p\<rparr> else []) @
      skb_data p)"

definition sendable :: "sk_buff \<Rightarrow> bool" where
  "sendable p \<longleftrightarrow> 32 \<le> skb_len p \<and> hdr_len (cb_frag_off p \<noteq> 0) + skb_len p \<le> 65543"

lemma build_frame_eq:
  "wg_tcp_build_frame t alloc_ok copy_ok p =
     (if skb_len p < 32 then Inl EINVAL
      else if skb_len p > 65543 - hdr_len (cb_frag_off p \<noteq> 0) then Inl EMSGSIZE
      else if \<not> alloc_ok then Inl ENOMEM
      else if \<not> copy_ok then Inl EINVAL
      else Inr (replicate (wg_tcp_test_prefix_len t) 0xa5 @ frame_image p))"
  by (auto simp: wg_tcp_build_frame_def Let_def frame_image_def record_header_def hdr_len_def
      frame_consts)

lemma build_frame_Inr:
  "wg_tcp_build_frame t a c p = Inr f \<longleftrightarrow>
     sendable p \<and> a \<and> c \<and> f = replicate (wg_tcp_test_prefix_len t) 0xa5 @ frame_image p"
  by (auto simp: build_frame_eq sendable_def hdr_len_def)

lemma record_header_fields [simp]:
  "eh_length (record_header n fr) = of_nat n"
  "eh_type (record_header n fr) = 0"
  "eh_flags (record_header n fr) = (if fr then 1 else 0)"
  "wg_validate_header_checksum (record_header n fr)"
  by (simp_all add: record_header_def Let_def frame_consts wg_validate_header_checksum_def
      wg_header_checksum_def)

lemma record_header_valid:
  assumes "hdr_len fr + 32 \<le> n" "n \<le> 65543" "8 \<le> r"
  shows "wg_check_potential_header_validity (record_header n fr) r"
  using assms
  by (auto simp: wg_check_potential_header_validity_def frame_consts hdr_len_def
      unat_of_nat take_bit_nat_eq_self)

lemma length_frame_image: "length (frame_image p) = hdr_len (cb_frag_off p \<noteq> 0) + skb_len p"
  by (simp add: frame_image_def Let_def hdr_len_def)

lemma decode_frame_image [simp]:
  "decode_header (frame_image p @ rest) =
     record_header (hdr_len (cb_frag_off p \<noteq> 0) + skb_len p) (cb_frag_off p \<noteq> 0)"
  by (simp add: frame_image_def Let_def)

text \<open>A candidate whose first byte is \<open>0xa5\<close> announces more than two gigabytes.\<close>

lemma garbage_first_byte_invalid:
  assumes "8 \<le> length bs" "hd bs = 0xa5"
  shows "\<not> wg_check_potential_header_validity (decode_header bs) r"
proof -
  obtain b c d t f x y zs where bs: "bs = 0xa5 # b # c # d # t # f # x # y # zs"
    using assms by (cases bs rule: decode_header.cases) auto
  have "bit (get_be32 0xa5 b c d) 31" by (simp add: get_be32_def bit_simps)
  then have "odd (unat (get_be32 0xa5 b c d) div 2 ^ 31)"
    using bit_iff_odd [of "unat (get_be32 0xa5 b c d)" 31] by (simp add: bit_unsigned_iff)
  then have "(2 :: nat) ^ 31 \<le> unat (get_be32 0xa5 b c d)"
    by (metis div_less even_zero not_le)
  then show ?thesis
    by (auto simp: bs wg_check_potential_header_validity_def frame_consts Let_def)
qed

section \<open>Properties\<close>

text \<open>A payload of \<open>n\<close> bytes with the given fragment fields, for the examples below.\<close>

definition plain_skb :: "bytes \<Rightarrow> u16 \<Rightarrow> u16 \<Rightarrow> sk_buff" where
  "plain_skb bs frag_id frag_off =
     (fresh_skb 0 0 0)\<lparr>skb_data := bs, cb_frag_id := frag_id, cb_frag_off := frag_off\<rparr>"

lemma plain_skb_simps [simp]:
  "skb_data (plain_skb bs i off) = bs" "cb_frag_id (plain_skb bs i off) = i"
  "cb_frag_off (plain_skb bs i off) = off"
  by (simp_all add: plain_skb_def)



text \<open>C6. The header checksum detects every corruption that is confined to one 16-bit
  column of the header (the high or the low half of the length, or the flags and type):
  if the corrupted header still validates against the same checksum, nothing changed.\<close>

theorem checksum_detects_one_column:
  assumes "wg_validate_header_checksum h"
  shows "(wg_validate_header_checksum (h\<lparr>eh_length := l\<rparr>) \<and>
          (drop_bit 16 l = drop_bit 16 (eh_length h) \<or> (ucast l :: u16) = ucast (eh_length h))
            \<longrightarrow> l = eh_length h) \<and>
         (wg_validate_header_checksum (h\<lparr>eh_type := t, eh_flags := f\<rparr>)
            \<longrightarrow> t = eh_type h \<and> f = eh_flags h)"
  using assms checksum_length_column [where h = h and l = l]
    checksum_flags_type_column [where h = h and t = t and f = f]
  by (auto simp: wg_validate_header_checksum_def)

theorem checksum_detects_one_column_witness:
  "wg_validate_header_checksum (record_header 40 False) \<and>
   \<not> wg_validate_header_checksum ((record_header 40 False)\<lparr>eh_length := 41\<rparr>)"
  using checksum_detects_one_column [where h = "record_header 40 False" and l = 41]
  by auto

text \<open>C5. A frame that is built, with any injected garbage prefix, carries behind the prefix
  a header that the receiver's validator accepts and that announces exactly the bytes of
  the record, and no candidate that starts inside the prefix is accepted.\<close>

theorem built_frame_accepted:
  assumes "wg_tcp_build_frame t alloc_ok copy_ok p = Inr f"
  shows "wg_check_potential_header_validity
           (decode_header (drop (wg_tcp_test_prefix_len t) f)) (length f - wg_tcp_test_prefix_len t) \<and>
         wg_tcp_test_prefix_len t + unat (eh_length (decode_header (drop (wg_tcp_test_prefix_len t) f)))
           = length f \<and>
         (\<forall>i < wg_tcp_test_prefix_len t.
           \<not> wg_check_potential_header_validity (decode_header (drop i f)) (length f - i))"
proof (intro conjI allI impI)
  let ?k = "wg_tcp_test_prefix_len t" and ?n = "hdr_len (cb_frag_off p \<noteq> 0) + skb_len p"
  from assms have s: "sendable p" and f: "f = replicate ?k 0xa5 @ frame_image p"
    by (simp_all add: build_frame_Inr)
  have d: "decode_header (drop ?k f) = record_header ?n (cb_frag_off p \<noteq> 0)"
    using decode_frame_image [of p "[]"] by (simp add: f)
  have n: "?n < 2 ^ 32" "8 \<le> ?n" using s by (auto simp: sendable_def hdr_len_def)
  show "wg_check_potential_header_validity (decode_header (drop ?k f)) (length f - ?k)"
    unfolding d using s n by (intro record_header_valid) (auto simp: f length_frame_image sendable_def)
  show "?k + unat (eh_length (decode_header (drop ?k f))) = length f"
    unfolding d using unat_of_nat_u32 [OF n(1)] by (simp add: f length_frame_image del: of_nat_add)
  fix i assume "i < ?k"
  then have "drop i f = 0xa5 # replicate (?k - Suc i) 0xa5 @ frame_image p"
    by (simp add: f Suc_diff_Suc flip: replicate_Suc append_Cons)
  then show "\<not> wg_check_potential_header_validity (decode_header (drop i f)) (length f - i)"
    using n by (intro garbage_first_byte_invalid) (simp_all add: length_frame_image)
qed

theorem built_frame_accepted_witness:
  "wg_tcp_build_frame (production\<lparr>fault_injection := True, test_garbage_prefix_bytes := 3\<rparr>)
     True True (plain_skb (replicate 32 7) 5 9) =
     Inr (replicate 3 0xa5 @ frame_image (plain_skb (replicate 32 7) 5 9)) \<and>
   \<not> wg_check_potential_header_validity
       (decode_header (drop 2 (replicate 3 0xa5 @ frame_image (plain_skb (replicate 32 7) 5 9))))
       (length (replicate 3 (0xa5 :: u8) @ frame_image (plain_skb (replicate 32 7) 5 9)) - 2)"
proof -
  let ?t = "production\<lparr>fault_injection := True, test_garbage_prefix_bytes := 3\<rparr>"
  have k: "wg_tcp_test_prefix_len ?t = 3"
    by (simp add: wg_tcp_test_prefix_len_def WG_TCP_TEST_MAX_GARBAGE_PREFIX_def)
  have b: "wg_tcp_build_frame ?t True True (plain_skb (replicate 32 7) 5 9) =
     Inr (replicate 3 0xa5 @ frame_image (plain_skb (replicate 32 7) 5 9))"
    by (simp add: build_frame_Inr k sendable_def hdr_len_def)
  from built_frame_accepted [OF b, unfolded k, THEN conjunct2, THEN conjunct2, rule_format, of 2] b
  show ?thesis by simp
qed

end
