(* ===== verification/Net_Types.thy ===== *)
theory Net_Types
  imports Skb
begin

text \<open>
  Addresses and endpoints. \<open>struct sockaddr_storage\<close> and \<open>struct endpoint\<close> are
  unions tagged by the address family, so they are data types with one constructor
  per family; \<open>Sa_unspec\<close> and \<open>Ep_unspec\<close> are zeroed storage. \<open>inet_sock\<close> holds the
  members of \<open>struct sock\<close> and \<open>struct inet_sock\<close> that describe a connected TCP
  socket's tuple.
\<close>

type_synonym addr6 = "128 word"

definition AF_INET :: u16 where "AF_INET = 2"
definition AF_INET6 :: u16 where "AF_INET6 = 10"
definition ETH_P_IP :: u16 where "ETH_P_IP = 0x0800"
definition ETH_P_IPV6 :: u16 where "ETH_P_IPV6 = 0x86DD"
definition IPPROTO_UDP :: u8 where "IPPROTO_UDP = 17"

datatype sockaddr =
    Sa_unspec
  | Sa_in u32 u16
  | Sa_in6 addr6 u16 u32
  | Sa_other u16

fun ss_family :: "sockaddr \<Rightarrow> u16" where
  "ss_family Sa_unspec = 0"
| "ss_family (Sa_in _ _) = AF_INET"
| "ss_family (Sa_in6 _ _ _) = AF_INET6"
| "ss_family (Sa_other f) = f"

text \<open>
  Reading a \<open>sockaddr_storage\<close> through a cast: the port is at the same offset in
  \<open>sockaddr_in\<close> and \<open>sockaddr_in6\<close>; the other members of the wrong family overlap
  storage that is zero (\<open>sin6_flowinfo\<close> is never set).
\<close>

fun sin_addr :: "sockaddr \<Rightarrow> u32" where
  "sin_addr (Sa_in a _) = a" | "sin_addr _ = 0"

fun sin_port :: "sockaddr \<Rightarrow> u16" where
  "sin_port (Sa_in _ p) = p" | "sin_port (Sa_in6 _ p _) = p" | "sin_port _ = 0"

fun sin6_addr :: "sockaddr \<Rightarrow> addr6" where
  "sin6_addr (Sa_in6 a _ _) = a" | "sin6_addr _ = 0"

fun sin6_scope_id :: "sockaddr \<Rightarrow> u32" where
  "sin6_scope_id (Sa_in6 _ _ s) = s" | "sin6_scope_id _ = 0"

record inet_sock =
  sk_family :: u16
  inet_saddr :: u32
  inet_sport :: u16
  inet_daddr :: u32
  inet_dport :: u16
  sk_v6_saddr :: addr6
  sk_v6_daddr :: addr6
  sk_bound_dev_if :: u32

text \<open>Big-endian bytes of an IPv6 address, as \<open>struct in6_addr\<close> stores it.\<close>

definition in6_bytes :: "addr6 \<Rightarrow> bytes" where
  "in6_bytes a = map (\<lambda>i. ucast (drop_bit (8 * (15 - i)) a)) [0..<16]"

end
