(* ===== verification/Fake_Headers.thy ===== *)
theory Fake_Headers
  imports Net_Types
begin

text \<open>
  \<open>wg_tcp_build_fake_headers\<close> of kernel/wg_tcp.c: a complete TCP record is handed to
  the UDP receive path behind a synthetic IP and UDP header. The checksum helpers of
  the kernel are parameters (\<open>csum_ops\<close>); \<open>htons_raw\<close> is the machine's byte swap,
  which matters where the code hands a network-order field to a helper that expects
  host order. The members \<open>id\<close> and \<open>frag_off\<close> of the pushed IPv4 header are not
  assigned by this function, so their content is whatever the headroom held
  (\<open>stale\<close>).
\<close>

record csum_ops =
  ip_fast_csum :: "iphdr \<Rightarrow> u16"
  csum_partial :: "bytes \<Rightarrow> u32 \<Rightarrow> u32"
  csum_tcpudp_magic :: "u32 \<Rightarrow> u32 \<Rightarrow> u16 \<Rightarrow> u8 \<Rightarrow> u32 \<Rightarrow> u16"
  csum_add :: "u32 \<Rightarrow> u32 \<Rightarrow> u32"
  csum_fold :: "u32 \<Rightarrow> u16"
  htons_raw :: "u16 \<Rightarrow> u16"

definition CSUM_MANGLED_0 :: u16 where "CSUM_MANGLED_0 = 0xffff"

text \<open>Which tuple the headers carry: IPv4, IPv6, none (the family is neither), or an error.\<close>

datatype fake_tuple = Tuple4 sockaddr sockaddr | Tuple6 sockaddr sockaddr | Tuple_none

definition fake_tuple_of :: "bool \<Rightarrow> sockaddr \<Rightarrow> sockaddr \<Rightarrow> inet_sock \<Rightarrow> fake_tuple result" where
  "fake_tuple_of is_inbound inbound_source inbound_dest sk =
     (if is_inbound then
        (if ss_family inbound_source = AF_INET then Inr (Tuple4 inbound_dest inbound_source)
         else if ss_family inbound_source = AF_INET6 then Inr (Tuple6 inbound_dest inbound_source)
         else Inr Tuple_none)
      else if sk_family sk = AF_INET then
        Inr (Tuple4 (Sa_in (inet_daddr sk) (inet_dport sk)) (Sa_in (inet_saddr sk) (inet_sport sk)))
      else if sk_family sk = AF_INET6 then
        Inr (Tuple6 (Sa_in6 (sk_v6_daddr sk) (inet_dport sk) 0)
                    (Sa_in6 (sk_v6_saddr sk) (inet_sport sk) 0))
      else Inl EAFNOSUPPORT)"

definition udp_bytes :: "udphdr \<Rightarrow> bytes" where
  "udp_bytes u = put_be16 (udp_source u) @ put_be16 (udp_dest u) @ put_be16 (udp_len u) @
     put_be16 (udp_check u)"

definition mangle0 :: "u16 \<Rightarrow> u16" where
  "mangle0 c = (if c = 0 then CSUM_MANGLED_0 else c)"

text \<open>The IPv4 branch; \<open>payload_len\<close> is the record's payload length.\<close>

definition fake_headers4 ::
  "csum_ops \<Rightarrow> u16 \<times> u16 \<Rightarrow> sockaddr \<Rightarrow> sockaddr \<Rightarrow> sk_buff \<Rightarrow> sk_buff" where
  "fake_headers4 cs stale source dest skb =
     (let payload_len = skb_len skb;
          udph = \<lparr>udp_source = sin_port source, udp_dest = sin_port dest,
                  udp_len = of_nat (8 + payload_len), udp_check = 0\<rparr>;
          iph = \<lparr>ip_version = 4, ip_ihl = 5, ip_tos = 0,
                 ip_tot_len = of_nat (20 + 8 + payload_len), ip_id = fst stale,
                 ip_frag_off = snd stale, ip_ttl = 64, ip_protocol = IPPROTO_UDP, ip_check = 0,
                 ip_saddr = sin_addr source, ip_daddr = sin_addr dest\<rparr>;
          iph' = iph\<lparr>ip_check := ip_fast_csum cs iph\<rparr>;
          csum = csum_partial cs (take (unat (udp_len udph)) (udp_bytes udph @ skb_data skb)) 0;
          check = htons_raw cs (csum_tcpudp_magic cs (ip_saddr iph') (ip_daddr iph')
                    (htons_raw cs (udp_len udph)) IPPROTO_UDP csum)
      in skb\<lparr>skb_headroom := skb_headroom skb - 8 - 20,
             skb_udp := Some (udph\<lparr>udp_check := mangle0 check\<rparr>),
             skb_net := V4_hdr iph', skb_protocol := ETH_P_IP\<rparr>)"

definition fake_headers6 ::
  "csum_ops \<Rightarrow> u32 \<Rightarrow> sockaddr \<Rightarrow> sockaddr \<Rightarrow> sk_buff \<Rightarrow> sk_buff" where
  "fake_headers6 cs bound_dev source6 dest6 skb =
     (let payload_len = skb_len skb;
          udph = \<lparr>udp_source = sin_port source6, udp_dest = sin_port dest6,
                  udp_len = of_nat (8 + payload_len), udp_check = 0\<rparr>;
          ip6h = \<lparr>ip6_version = 6, ip6_priority = 0, ip6_flow_lbl = 0,
                  ip6_payload_len = of_nat (8 + payload_len), ip6_nexthdr = IPPROTO_UDP,
                  ip6_hop_limit = 64, ip6_saddr = sin6_addr source6,
                  ip6_daddr = sin6_addr dest6\<rparr>;
          csum = csum_partial cs (take (unat (udp_len udph)) (udp_bytes udph @ skb_data skb)) 0;
          csum = csum_partial cs (in6_bytes (ip6_saddr ip6h)) csum;
          csum = csum_partial cs (in6_bytes (ip6_daddr ip6h)) csum;
          csum = csum_add cs csum (ucast (htons_raw cs (udp_len udph)));
          csum = csum_add cs csum (ucast (htons_raw cs (ucast IPPROTO_UDP)));
          iif = sin6_scope_id source6
      in skb\<lparr>skb_headroom := skb_headroom skb - 8 - 40,
             skb_udp := Some (udph\<lparr>udp_check := mangle0 (csum_fold cs csum)\<rparr>),
             skb_net := V6_hdr ip6h,
             skb_iif := (if iif = 0 then bound_dev else iif),
             skb_protocol := ETH_P_IPV6\<rparr>)"

definition wg_tcp_build_fake_headers ::
  "csum_ops \<Rightarrow> u16 \<times> u16 \<Rightarrow> bool \<Rightarrow> sockaddr \<Rightarrow> sockaddr \<Rightarrow> inet_sock option \<Rightarrow> sk_buff \<Rightarrow> sk_buff result"
where
  "wg_tcp_build_fake_headers cs stale is_inbound inbound_source inbound_dest socket skb =
     (case socket of
        None \<Rightarrow> Inl ENOTCONN
      | Some sk \<Rightarrow>
          (case fake_tuple_of is_inbound inbound_source inbound_dest sk of
             Inl e \<Rightarrow> Inl e
           | Inr (Tuple4 source dest) \<Rightarrow> Inr (fake_headers4 cs stale source dest skb)
           | Inr (Tuple6 source6 dest6) \<Rightarrow>
               Inr (fake_headers6 cs (sk_bound_dev_if sk) source6 dest6 skb)
           | Inr Tuple_none \<Rightarrow> Inl EAFNOSUPPORT))"

section \<open>Lemmas\<close>

lemma fake_headers_keep [simp]:
  "skb_data (fake_headers4 cs stale s d skb) = skb_data skb"
  "skb_data (fake_headers6 cs b s d skb) = skb_data skb"
  "cb_frag_id (fake_headers4 cs stale s d skb) = cb_frag_id skb"
  "cb_frag_id (fake_headers6 cs b s d skb) = cb_frag_id skb"
  "cb_frag_off (fake_headers4 cs stale s d skb) = cb_frag_off skb"
  "cb_frag_off (fake_headers6 cs b s d skb) = cb_frag_off skb"
  by (simp_all add: fake_headers4_def fake_headers6_def Let_def)

lemma build_fake_headers_Inr:
  assumes "wg_tcp_build_fake_headers cs stale ib src dst sk skb = Inr skb'"
  shows "skb_data skb' = skb_data skb" "cb_frag_id skb' = cb_frag_id skb"
    "cb_frag_off skb' = cb_frag_off skb"
  using assms
  by (auto simp: wg_tcp_build_fake_headers_def split: sum.splits fake_tuple.splits option.splits)

end
