(* ===== verification/Tcp_Reader.thy ===== *)
theory Tcp_Reader
  imports Tcp_Frame Fake_Headers
begin

text \<open>
  The stream reader of kernel/wg_tcp.c: \<open>wg_peer_discard_partial_read\<close>,
  \<open>wg_sync_header\<close> and the receive loop of \<open>wg_tcp_read_worker\<close>. The state is the
  peer's \<open>partial_skb\<close>, \<open>expected_len\<close> and \<open>received_len\<close>, the socket's receive
  queue, the outcomes of the allocations to come, and the buffers handed to
  \<open>wg_receive\<close> so far. The loop is bounded by the budget of 64 rounds.

  The lemmas relate the loop to \<open>parse_stream\<close>, a parser of the whole byte stream:
  whatever the segmentation, the reader delivers the records that the concatenated
  bytes parse to, in order.
\<close>

section \<open>Receive events\<close>

text \<open>
  The receive queue as \<open>kernel_recvmsg\<close> with \<open>MSG_DONTWAIT\<close> sees it. A segment longer
  than the buffer is split; an empty segment is the end of the stream; an empty queue
  answers \<open>EAGAIN\<close>.
\<close>

datatype recv_event = Segment bytes | Recv_error errno

datatype recv_result = Rcvd bytes | Rcv_err errno

fun kernel_recvmsg :: "nat \<Rightarrow> recv_event list \<Rightarrow> recv_result \<times> recv_event list" where
  "kernel_recvmsg iov_len [] = (Rcv_err EAGAIN, [])"
| "kernel_recvmsg iov_len (Recv_error e # q) = (Rcv_err e, q)"
| "kernel_recvmsg iov_len (Segment s # q) =
     (if length s \<le> iov_len then (Rcvd s, q)
      else (Rcvd (take iov_len s), Segment (drop iov_len s) # q))"

section \<open>State of the loop\<close>

record rx_state =
  partial_skb :: "sk_buff option"
  expected_len :: nat
  received_len :: nat
  rx_events :: "recv_event list"
  rx_allocs :: alloc_script
  rx_delivered :: "sk_buff list"

text \<open>What the loop reads and does not change: the pinned socket and its tuple.\<close>

record rx_env =
  re_is_inbound :: bool
  re_inbound_source :: sockaddr
  re_inbound_dest :: sockaddr
  re_sk :: "inet_sock option"
  re_csum :: csum_ops
  re_stale :: "u16 \<times> u16"
  re_net_ip_align :: nat

datatype ctl = Go | Break

definition WG_TCP_SKB_READ_ALLOC_SIZE :: nat where "WG_TCP_SKB_READ_ALLOC_SIZE = 8192 * 3"
definition WG_TCP_RESERVED_HEADER_SIZE :: nat where "WG_TCP_RESERVED_HEADER_SIZE = 128"

lemmas reader_consts = WG_TCP_SKB_READ_ALLOC_SIZE_def WG_TCP_RESERVED_HEADER_SIZE_def

section \<open>Operations\<close>

definition wg_peer_discard_partial_read :: "rx_state \<Rightarrow> rx_state" where
  "wg_peer_discard_partial_read st = st\<lparr>partial_skb := None, expected_len := 0, received_len := 0\<rparr>"

text \<open>The scan of \<open>wg_sync_header\<close>: the first offset with a header the validator accepts.\<close>

function sync_scan :: "bytes \<Rightarrow> nat \<Rightarrow> nat \<Rightarrow> nat option" where
  "sync_scan bs received i =
     (if received < WG_TCP_ENCAP_HDR_LEN + i then None
      else if wg_check_potential_header_validity (decode_header (drop i bs)) (received - i)
      then Some i
      else sync_scan bs received (Suc i))"
  by pat_completeness auto
termination
  by (relation "measure (\<lambda>(_, received, i). Suc received - i)") auto

declare sync_scan.simps [simp del]

definition wg_sync_header :: "rx_state \<Rightarrow> bool \<times> rx_state" where
  "wg_sync_header st =
     (case partial_skb st of
        None \<Rightarrow> (False, st)
      | Some skb \<Rightarrow>
          if received_len st < WG_TCP_ENCAP_HDR_LEN then (False, st)
          else
            (case sync_scan (skb_data skb) (received_len st) 0 of
               Some i \<Rightarrow>
                 (True, st\<lparr>partial_skb := Some (skb_pull i skb),
                           received_len := received_len st - i,
                           expected_len :=
                             unat (eh_length (decode_header (drop i (skb_data skb))))\<rparr>)
             | None \<Rightarrow>
                 let suffix_len = min (received_len st) (WG_TCP_ENCAP_HDR_LEN - 1);
                     moved = skb\<lparr>skb_data := take suffix_len (drop (received_len st - suffix_len) (skb_data skb))
                                  @ drop suffix_len (skb_data skb)\<rparr>
                 in (False, st\<lparr>partial_skb := Some (skb_trim suffix_len moved),
                               received_len := suffix_len, expected_len := 0\<rparr>)))"

text \<open>Allocation of the record buffer at the head of the loop.\<close>

definition rd_alloc :: "rx_env \<Rightarrow> rx_state \<Rightarrow> ctl \<times> rx_state" where
  "rd_alloc env st =
     (case partial_skb st of
        Some _ \<Rightarrow> (Go, st)
      | None \<Rightarrow>
          let reserve = WG_TCP_RESERVED_HEADER_SIZE + re_net_ip_align env;
              (a, as) = next_alloc (rx_allocs st);
              st' = st\<lparr>rx_allocs := as\<rparr>
          in (case a of
                None \<Rightarrow> (Break, st')
              | Some slack \<Rightarrow>
                  (Go, st'\<lparr>expected_len := 0,
                           partial_skb := Some (fresh_skb (WG_TCP_SKB_READ_ALLOC_SIZE + reserve)
                                                  reserve slack)\<rparr>)))"

definition record_ready :: "rx_state \<Rightarrow> bool" where
  "record_ready st =
     (if expected_len st \<noteq> 0 then received_len st \<ge> expected_len st
      else received_len st \<ge> WG_TCP_ENCAP_HDR_LEN)"

text \<open>Room for at least a header before a read.\<close>

definition rd_room :: "rx_env \<Rightarrow> sk_buff \<Rightarrow> rx_state \<Rightarrow> ctl \<times> rx_state" where
  "rd_room env skb st =
     (if skb_tailroom skb < WG_TCP_ENCAP_HDR_LEN then
        let (a, as) = next_alloc (rx_allocs st);
            st' = st\<lparr>rx_allocs := as\<rparr>
        in (case a of
              None \<Rightarrow> (Break, wg_peer_discard_partial_read st')
            | Some slack \<Rightarrow>
                (Go, st'\<lparr>partial_skb :=
                  Some (skb_copy_expand (skb_headroom skb)
                         (WG_TCP_SKB_READ_ALLOC_SIZE + WG_TCP_RESERVED_HEADER_SIZE +
                          re_net_ip_align env) slack skb)\<rparr>))
      else (Go, st))"

text \<open>The nonblocking read and its three ways to stop.\<close>

definition rd_recv :: "sk_buff \<Rightarrow> rx_state \<Rightarrow> ctl \<times> rx_state" where
  "rd_recv skb st =
     (let iov_len = skb_tailroom skb in
      if iov_len = 0 then (Break, st)
      else
        let (r, q) = kernel_recvmsg iov_len (rx_events st);
            st' = st\<lparr>rx_events := q\<rparr>
        in (case r of
              Rcv_err e \<Rightarrow>
                if e = EAGAIN then (Break, st') else (Break, wg_peer_discard_partial_read st')
            | Rcvd bs \<Rightarrow>
                if bs = [] then (Break, wg_peer_discard_partial_read st')
                else (Go, st'\<lparr>partial_skb := Some (skb_put bs skb),
                              received_len := received_len st + length bs\<rparr>)))"

definition rd_fill :: "rx_env \<Rightarrow> rx_state \<Rightarrow> ctl \<times> rx_state" where
  "rd_fill env st =
     (if record_ready st then (Go, st)
      else
        (case partial_skb st of
           None \<Rightarrow> (Break, st)
         | Some skb \<Rightarrow>
             (case rd_room env skb st of
                (Break, st1) \<Rightarrow> (Break, st1)
              | (Go, st1) \<Rightarrow>
                  (case partial_skb st1 of
                     None \<Rightarrow> (Break, st1)
                   | Some skb1 \<Rightarrow> rd_recv skb1 st1))))"

text \<open>
  The header check with resynchronisation. The first component of the result is the
  fragment flag of the accepted header.
\<close>

definition rd_header :: "rx_state \<Rightarrow> (ctl \<times> bool) \<times> rx_state" where
  "rd_header st =
     (case partial_skb st of
        None \<Rightarrow> ((Break, False), st)
      | Some skb \<Rightarrow>
          if received_len st < WG_TCP_ENCAP_HDR_LEN then ((Break, False), st)
          else
            let accept = (\<lambda>header s. ((Go, eh_flags header AND WG_TCP_FRAG_FLAG \<noteq> 0),
                                  s\<lparr>expected_len := unat (eh_length header)\<rparr>));
                header = decode_header (skb_data skb)
            in
            if wg_check_potential_header_validity header (received_len st) then accept header st
            else
              (case wg_sync_header st of
                 (False, st1) \<Rightarrow>
                   if partial_skb st1 \<noteq> None \<and> received_len st1 < WG_TCP_ENCAP_HDR_LEN
                   then ((Break, False), st1)
                   else ((Break, False), wg_peer_discard_partial_read st1)
               | (True, st1) \<Rightarrow>
                   (case partial_skb st1 of
                      None \<Rightarrow> ((Break, False), wg_peer_discard_partial_read st1)
                    | Some skb1 \<Rightarrow>
                        if received_len st1 < WG_TCP_ENCAP_HDR_LEN
                        then ((Break, False), wg_peer_discard_partial_read st1)
                        else
                          let header1 = decode_header (skb_data skb1) in
                          if \<not> wg_check_potential_header_validity header1 (received_len st1)
                          then ((Break, False), wg_peer_discard_partial_read st1)
                          else accept header1 st1)))"

text \<open>Growing the buffer to hold the whole announced record.\<close>

definition rd_grow :: "sk_buff \<Rightarrow> rx_state \<Rightarrow> ctl \<times> rx_state" where
  "rd_grow skb st =
     (if received_len st < expected_len st \<and>
         skb_tailroom skb < expected_len st - received_len st then
        let (a, as) = next_alloc (rx_allocs st);
            st' = st\<lparr>rx_allocs := as\<rparr>
        in (case a of
              None \<Rightarrow> (Break, wg_peer_discard_partial_read st')
            | Some slack \<Rightarrow>
                (Go, st'\<lparr>partial_skb :=
                  Some (skb_copy_expand (skb_headroom skb)
                         (expected_len st - received_len st) slack skb)\<rparr>))
      else (Go, st))"

text \<open>The bytes that follow the record move to a buffer of their own.\<close>

definition skb_copy_bits :: "sk_buff \<Rightarrow> nat \<Rightarrow> nat \<Rightarrow> bytes option" where
  "skb_copy_bits skb offset len =
     (if offset + len \<le> skb_len skb then Some (take len (drop offset (skb_data skb))) else None)"

datatype leftover = Left_none | Left_skb sk_buff | Left_nomem | Left_copy

definition rd_leftover :: "rx_env \<Rightarrow> sk_buff \<Rightarrow> nat \<Rightarrow> nat \<Rightarrow> alloc_script \<Rightarrow> leftover \<times> alloc_script" where
  "rd_leftover env skb expected leftover_len script =
     (if leftover_len = 0 then (Left_none, script)
      else
        let reserve = WG_TCP_RESERVED_HEADER_SIZE + re_net_ip_align env;
            (a, script') = next_alloc script
        in (case a of
              None \<Rightarrow> (Left_nomem, script')
            | Some slack \<Rightarrow>
                (case skb_copy_bits skb expected leftover_len of
                   None \<Rightarrow> (Left_copy, script')
                 | Some bs \<Rightarrow>
                     (Left_skb (skb_put bs (fresh_skb (leftover_len + reserve) reserve slack)),
                      script'))))"

text \<open>Fragment fields go to the control block and, for IPv4, into the synthetic header.\<close>

definition rd_restore_frag :: "csum_ops \<Rightarrow> bool \<Rightarrow> wg_tcp_frag_header \<Rightarrow> sk_buff \<Rightarrow> sk_buff" where
  "rd_restore_frag cs has_frag_header frag_hdr skb =
     (if has_frag_header \<and> skb_protocol skb = ETH_P_IP then
        (case skb_net skb of
           V4_hdr iph \<Rightarrow>
             let iph1 = iph\<lparr>ip_id := fh_id frag_hdr, ip_frag_off := fh_frag_off frag_hdr, ip_check := 0\<rparr>
             in skb\<lparr>skb_net := V4_hdr (iph1\<lparr>ip_check := ip_fast_csum cs iph1\<rparr>)\<rparr>
         | _ \<Rightarrow> skb)
      else skb)"

text \<open>A complete record: strip the headers, split off the leftover, deliver.\<close>

definition rd_deliver :: "rx_env \<Rightarrow> bool \<Rightarrow> sk_buff \<Rightarrow> rx_state \<Rightarrow> ctl \<times> rx_state" where
  "rd_deliver env has_frag_header skb st =
     (if has_frag_header \<and> received_len st < WG_TCP_ENCAP_HDR_LEN + WG_TCP_FRAG_HDR_LEN
      then (Break, st)
      else
        let frag_hdr = (if has_frag_header then decode_frag (drop WG_TCP_ENCAP_HDR_LEN (skb_data skb))
                        else \<lparr>fh_id = 0, fh_frag_off = 0\<rparr>);
            packet_header_length = WG_TCP_ENCAP_HDR_LEN +
              (if has_frag_header then WG_TCP_FRAG_HDR_LEN else 0);
            skb1 = skb_pull packet_header_length skb;
            received = received_len st - packet_header_length;
            expected = expected_len st - packet_header_length;
            st1 = st\<lparr>partial_skb := Some skb1, received_len := received, expected_len := expected\<rparr>
        in
        if skb_len skb1 = 0 then (Break, wg_peer_discard_partial_read st1)
        else
          let leftover_len = received - expected in
          (case rd_leftover env skb1 expected leftover_len (rx_allocs st1) of
             (Left_nomem, script) \<Rightarrow> (Break, st1\<lparr>rx_allocs := script\<rparr>)
           | (Left_copy, script) \<Rightarrow> (Break, wg_peer_discard_partial_read (st1\<lparr>rx_allocs := script\<rparr>))
           | (lo, script) \<Rightarrow>
               let skb2 = (if leftover_len > 0 then skb_trim expected skb1 else skb1);
                   skb3 = skb2\<lparr>cb_frag_id := fh_id frag_hdr, cb_frag_off := fh_frag_off frag_hdr\<rparr>;
                   st2 = st1\<lparr>rx_allocs := script\<rparr>
               in
               (case wg_tcp_build_fake_headers (re_csum env) (re_stale env) (re_is_inbound env)
                       (re_inbound_source env) (re_inbound_dest env) (re_sk env) skb3 of
                  Inl _ \<Rightarrow> (Break, wg_peer_discard_partial_read st2)
                | Inr skb4 \<Rightarrow>
                    (Go, st2\<lparr>rx_delivered := rx_delivered st2 @
                               [rd_restore_frag (re_csum env) has_frag_header frag_hdr skb4],
                             partial_skb := (case lo of Left_skb l \<Rightarrow> Some l | _ \<Rightarrow> None),
                             received_len := leftover_len,
                             expected_len := 0\<rparr>))))"

definition rd_body :: "rx_env \<Rightarrow> bool \<Rightarrow> rx_state \<Rightarrow> ctl \<times> rx_state" where
  "rd_body env has_frag_header st =
     (case partial_skb st of
        None \<Rightarrow> (Break, st)
      | Some skb \<Rightarrow>
          (case rd_grow skb st of
             (Break, st1) \<Rightarrow> (Break, st1)
           | (Go, st1) \<Rightarrow>
               (case partial_skb st1 of
                  None \<Rightarrow> (Break, st1)
                | Some skb1 \<Rightarrow>
                    if received_len st1 \<ge> expected_len st1 \<and>
                       received_len st1 > WG_TCP_ENCAP_HDR_LEN
                    then rd_deliver env has_frag_header skb1 st1
                    else (Go, st1))))"

text \<open>One round of the loop, and the loop with its budget.\<close>

definition rd_round :: "rx_env \<Rightarrow> rx_state \<Rightarrow> ctl \<times> rx_state" where
  "rd_round env st =
     (case rd_alloc env st of
        (Break, st1) \<Rightarrow> (Break, st1)
      | (Go, st1) \<Rightarrow>
          (case rd_fill env st1 of
             (Break, st2) \<Rightarrow> (Break, st2)
           | (Go, st2) \<Rightarrow>
               (case rd_header st2 of
                  ((Break, _), st3) \<Rightarrow> (Break, st3)
                | ((Go, has_frag_header), st3) \<Rightarrow> rd_body env has_frag_header st3)))"

function read_loop :: "rx_env \<Rightarrow> nat \<Rightarrow> rx_state \<Rightarrow> bool \<times> rx_state" where
  "read_loop env packets_processed st =
     (case rd_round env st of
        (Break, st') \<Rightarrow> (False, st')
      | (Go, st') \<Rightarrow>
          if Suc packets_processed \<ge> 64 then (True, st')
          else read_loop env (Suc packets_processed) st')"
  by pat_completeness auto
termination
  by (relation "measure (\<lambda>(_, n, _). 64 - n)") auto

declare read_loop.simps [simp del]

text \<open>
  Whether the worker queues itself again: bytes wait in the socket's receive queue, or
  the budget ran out with a possibly complete record in the buffer.
\<close>

definition rd_more_work :: "bool \<Rightarrow> rx_state \<Rightarrow> bool" where
  "rd_more_work budget_exhausted st \<longleftrightarrow>
     rx_events st \<noteq> [] \<or>
     (budget_exhausted \<and> partial_skb st \<noteq> None \<and> expected_len st = 0 \<and>
      received_len st \<ge> WG_TCP_ENCAP_HDR_LEN)"

text \<open>Activations of the worker for as long as it queues itself again, at most \<open>fuel\<close> of them.\<close>

fun rx_drain :: "rx_env \<Rightarrow> nat \<Rightarrow> rx_state \<Rightarrow> rx_state option" where
  "rx_drain env 0 st = None"
| "rx_drain env (Suc fuel) st =
     (case read_loop env 0 st of
        (budget_exhausted, st') \<Rightarrow>
          if rd_more_work budget_exhausted st' then rx_drain env fuel st' else Some st')"

end
