(* ===== verification/Tcp_Stream.thy ===== *)
theory Tcp_Stream
  imports Tcp_Reader
begin

text \<open>
  What the reader promises: \<open>parse_stream\<close> splits a whole byte stream into records,
  skipping bytes that start no valid header. The reader of Tcp\_Reader, run on the
  same bytes in any segmentation, delivers exactly these records.
\<close>

section \<open>The stream parser\<close>

lemma validity_remaining:
  "wg_check_potential_header_validity h r = (8 \<le> r \<and> wg_check_potential_header_validity h 8)"
  by (auto simp: wg_check_potential_header_validity_def frame_consts)

lemma validity_length:
  assumes "wg_check_potential_header_validity h r"
  shows "40 \<le> unat (eh_length h)" "unat (eh_length h) \<le> 65543"
    "hdr_len (eh_flags h AND WG_TCP_FRAG_FLAG \<noteq> 0) + 32 \<le> unat (eh_length h)"
  using assms
  by (auto simp: wg_check_potential_header_validity_def frame_consts hdr_len_def Let_def
      split: if_splits)

function parse_stream :: "bytes \<Rightarrow> bytes list \<times> bytes" where
  "parse_stream bs =
     (if length bs < 8 then ([], bs)
      else if wg_check_potential_header_validity (decode_header bs) 8 then
        let n = unat (eh_length (decode_header bs)) in
        if length bs < n then ([], bs)
        else (case parse_stream (drop n bs) of (rs, rest) \<Rightarrow> (take n bs # rs, rest))
      else parse_stream (tl bs))"
  by pat_completeness auto
termination
  by (relation "measure length") (auto dest: validity_length)

declare parse_stream.simps [simp del]

lemma decode_header_append: "8 \<le> length bs \<Longrightarrow> decode_header (bs @ suf) = decode_header bs"
  by (cases bs rule: decode_header.cases) auto

lemma parse_short: "length bs < 8 \<Longrightarrow> parse_stream bs = ([], bs)"
  by (subst parse_stream.simps) simp

lemma parse_invalid:
  "8 \<le> length bs \<Longrightarrow> \<not> wg_check_potential_header_validity (decode_header bs) 8 \<Longrightarrow>
   parse_stream bs = parse_stream (tl bs)"
  by (subst parse_stream.simps) simp

lemma parse_partial:
  "8 \<le> length bs \<Longrightarrow> wg_check_potential_header_validity (decode_header bs) 8 \<Longrightarrow>
   length bs < unat (eh_length (decode_header bs)) \<Longrightarrow> parse_stream bs = ([], bs)"
  by (subst parse_stream.simps) simp

lemma parse_record:
  "8 \<le> length bs \<Longrightarrow> wg_check_potential_header_validity (decode_header bs) 8 \<Longrightarrow>
   unat (eh_length (decode_header bs)) = n \<Longrightarrow> n \<le> length bs \<Longrightarrow>
   parse_stream bs =
     (take n bs # fst (parse_stream (drop n bs)), snd (parse_stream (drop n bs)))"
  by (subst parse_stream.simps) (simp split: prod.splits)

text \<open>The parser is incremental: bytes that arrive later continue from the rest.\<close>

lemma parse_append:
  "parse_stream (bs @ suf) =
     (fst (parse_stream bs) @ fst (parse_stream (snd (parse_stream bs) @ suf)),
      snd (parse_stream (snd (parse_stream bs) @ suf)))"
proof (induction bs rule: parse_stream.induct)
  case (1 bs)
  let ?h = "decode_header bs"
  consider (short) "length bs < 8"
    | (invalid) "8 \<le> length bs" "\<not> wg_check_potential_header_validity ?h 8"
    | (partial) "8 \<le> length bs" "wg_check_potential_header_validity ?h 8"
        "length bs < unat (eh_length ?h)"
    | (full) "8 \<le> length bs" "wg_check_potential_header_validity ?h 8"
        "unat (eh_length ?h) \<le> length bs"
    by linarith
  then show ?case
  proof cases
    case short
    then show ?thesis by (simp add: parse_short)
  next
    case invalid
    then have "tl (bs @ suf) = tl bs @ suf" by (cases bs) auto
    with invalid 1(2) show ?thesis
      by (simp add: parse_invalid decode_header_append)
  next
    case partial
    then show ?thesis by (simp add: parse_partial)
  next
    case full
    with 1(1) show ?thesis
      by (simp add: parse_record [of "bs @ suf", OF _ _ refl] parse_record [of bs, OF _ _ refl]
          decode_header_append)
  qed
qed

section \<open>Records of built frames\<close>

definition record_view :: "bytes \<Rightarrow> bytes \<times> u16 \<times> u16" where
  "record_view r =
     (let fr = (eh_flags (decode_header r) AND WG_TCP_FRAG_FLAG \<noteq> 0);
          f = decode_frag (drop 8 r)
      in (drop (hdr_len fr) r, if fr then fh_id f else 0, if fr then fh_frag_off f else 0))"

definition payload_view :: "sk_buff \<Rightarrow> bytes \<times> u16 \<times> u16" where
  "payload_view p = (skb_data p, cb_frag_id p, cb_frag_off p)"

definition sent_view :: "sk_buff \<Rightarrow> bytes \<times> u16 \<times> u16" where
  "sent_view p = (skb_data p, if cb_frag_off p = 0 then 0 else cb_frag_id p, cb_frag_off p)"

lemma record_view_frame: "record_view (frame_image p) = sent_view p"
proof -
  have "decode_header (frame_image p) =
     record_header (hdr_len (cb_frag_off p \<noteq> 0) + skb_len p) (cb_frag_off p \<noteq> 0)"
    using decode_frame_image [of p "[]"] by simp
  then show ?thesis
    by (auto simp: record_view_def sent_view_def Let_def frame_image_def hdr_len_def frame_consts)
qed

lemma parse_garbage: "parse_stream (replicate n 0xa5 @ bs) = parse_stream bs" if "8 \<le> length bs"
  using that
proof (induction n)
  case (Suc n)
  have "\<not> wg_check_potential_header_validity (decode_header (0xa5 # replicate n 0xa5 @ bs)) 8"
    using Suc.prems by (intro garbage_first_byte_invalid) auto
  with Suc show ?case by (simp add: parse_invalid)
qed simp

lemma parse_frame:
  assumes "sendable p"
  shows "parse_stream (frame_image p @ suf) =
           (frame_image p # fst (parse_stream suf), snd (parse_stream suf))"
proof -
  let ?n = "hdr_len (cb_frag_off p \<noteq> 0) + skb_len p"
  from assms have "unat (eh_length (decode_header (frame_image p @ suf))) = ?n"
    by (auto simp: sendable_def unat_of_nat_u32 simp del: of_nat_add)
  moreover have "wg_check_potential_header_validity (decode_header (frame_image p @ suf)) 8"
    using assms by (auto simp: sendable_def intro: record_header_valid)
  ultimately show ?thesis
    by (subst parse_record [where n = ?n]) (auto simp: length_frame_image hdr_len_def)
qed

lemma parse_frames:
  assumes "\<forall>(n, p)\<in>set nps. sendable p"
  shows "parse_stream (concat (map (\<lambda>(n, p). replicate n 0xa5 @ frame_image p) nps)) =
           (map (frame_image \<circ> snd) nps, [])"
  using assms
proof (induction nps)
  case Nil
  then show ?case by (simp add: parse_short)
next
  case (Cons x nps)
  obtain n p where x: "x = (n, p)" by force
  show ?case
    using Cons by (simp add: x parse_garbage parse_frame length_frame_image hdr_len_def)
qed

section \<open>The reader refines the parser\<close>

definition rx_buf :: "rx_state \<Rightarrow> bytes" where
  "rx_buf st = (case partial_skb st of None \<Rightarrow> [] | Some skb \<Rightarrow> skb_data skb)"

fun event_bytes :: "recv_event \<Rightarrow> bytes" where
  "event_bytes (Segment s) = s"
| "event_bytes (Recv_error _) = []"

definition rx_queued :: "rx_state \<Rightarrow> bytes" where
  "rx_queued st = concat (map event_bytes (rx_events st))"

fun good_event :: "recv_event \<Rightarrow> bool" where
  "good_event (Segment s) = (s \<noteq> [])"
| "good_event (Recv_error _) = False"

text \<open>The outcome of the whole run: what is delivered already and what the bytes still hold.\<close>

definition rx_outcome :: "rx_state \<Rightarrow> (bytes \<times> u16 \<times> u16) list \<times> bytes" where
  "rx_outcome st =
     (map payload_view (rx_delivered st) @
        map record_view (fst (parse_stream (rx_buf st @ rx_queued st))),
      snd (parse_stream (rx_buf st @ rx_queued st)))"

text \<open>Between rounds, and between the read and the header check of a round.\<close>

definition rx_mid :: "rx_state \<Rightarrow> bool" where
  "rx_mid st \<longleftrightarrow>
     received_len st = length (rx_buf st) \<and>
     (expected_len st \<noteq> 0 \<longrightarrow> 8 \<le> received_len st \<and>
        wg_check_potential_header_validity (decode_header (rx_buf st)) 8 \<and>
        expected_len st = unat (eh_length (decode_header (rx_buf st))))"

definition rx_ok :: "rx_state \<Rightarrow> bool" where
  "rx_ok st \<longleftrightarrow> rx_mid st \<and> (expected_len st \<noteq> 0 \<longrightarrow> received_len st < expected_len st)"

definition rx_fair :: "rx_state \<Rightarrow> bool" where
  "rx_fair st \<longleftrightarrow> None \<notin> set (rx_allocs st) \<and> list_all good_event (rx_events st)"

definition rx_measure :: "rx_state \<Rightarrow> nat" where
  "rx_measure st = 3 * length (rx_queued st) + 2 * length (rx_buf st) +
     (if expected_len st = 0 then 1 else 0)"

definition fake_ok :: "rx_env \<Rightarrow> bool" where
  "fake_ok env =
     (case re_sk env of
        None \<Rightarrow> False
      | Some sk \<Rightarrow>
          (case fake_tuple_of (re_is_inbound env) (re_inbound_source env) (re_inbound_dest env) sk of
             Inl _ \<Rightarrow> False | Inr Tuple_none \<Rightarrow> False | Inr _ \<Rightarrow> True))"

lemma fake_ok_Inr:
  assumes "fake_ok env"
  obtains skb' where "wg_tcp_build_fake_headers (re_csum env) (re_stale env) (re_is_inbound env)
     (re_inbound_source env) (re_inbound_dest env) (re_sk env) skb = Inr skb'"
  using assms
  by (auto simp: fake_ok_def wg_tcp_build_fake_headers_def split: option.splits sum.splits fake_tuple.splits)

lemma next_alloc_good:
  assumes "None \<notin> set as"
  obtains k as' where "next_alloc as = (Some k, as')" "None \<notin> set as'"
  using assms by (cases as; cases "hd as") auto

lemma alloc_stage:
  assumes "rx_ok st" "rx_fair st"
  obtains st1 where "rd_alloc env st = (Go, st1)" "rx_ok st1" "rx_fair st1"
    "partial_skb st1 \<noteq> None" "rx_outcome st1 = rx_outcome st" "rx_measure st1 = rx_measure st"
proof (cases "partial_skb st")
  case (Some skb)
  then show ?thesis using assms that [of st] by (simp add: rd_alloc_def)
next
  case None
  obtain k as' where *: "next_alloc (rx_allocs st) = (Some k, as')" "None \<notin> set as'"
    using assms(2) next_alloc_good unfolding rx_fair_def by metis
  show ?thesis
    by (rule that, simp add: rd_alloc_def None * Let_def)
      (use assms None * in \<open>auto simp: rx_ok_def rx_mid_def rx_fair_def rx_buf_def
         rx_queued_def rx_outcome_def rx_measure_def\<close>)
qed

lemma room_stage:
  assumes "partial_skb st = Some skb" "rx_mid st" "rx_fair st"
  obtains st1 skb1 where "rd_room env skb st = (Go, st1)" "partial_skb st1 = Some skb1"
    "skb_data skb1 = skb_data skb" "8 \<le> skb_tailroom skb1" "rx_fair st1"
    "expected_len st1 = expected_len st" "received_len st1 = received_len st"
    "rx_events st1 = rx_events st" "rx_delivered st1 = rx_delivered st"
proof (cases "skb_tailroom skb < WG_TCP_ENCAP_HDR_LEN")
  case False
  then show ?thesis using assms that [of st skb] by (simp add: rd_room_def frame_consts)
next
  case True
  obtain k as' where *: "next_alloc (rx_allocs st) = (Some k, as')" "None \<notin> set as'"
    using assms(3) next_alloc_good unfolding rx_fair_def by metis
  let ?skb1 = "skb_copy_expand (skb_headroom skb)
    (WG_TCP_SKB_READ_ALLOC_SIZE + WG_TCP_RESERVED_HEADER_SIZE + re_net_ip_align env) k skb"
  show ?thesis
    by (rule that [where ?skb1.0 = ?skb1], simp add: rd_room_def True * Let_def)
      (use assms * in \<open>auto simp: rx_fair_def reader_consts\<close>)
qed

lemma recv_good:
  assumes "list_all good_event q" "0 < iov_len" "q \<noteq> []"
  obtains bs q' where "kernel_recvmsg iov_len q = (Rcvd bs, q')" "bs \<noteq> []"
    "list_all good_event q'"
    "concat (map event_bytes q) = bs @ concat (map event_bytes q')"
proof (cases "hd q")
  case (Segment s)
  with assms obtain q2 where q: "q = Segment s # q2" "s \<noteq> []" by (cases q) auto
  show ?thesis
  proof (cases "length s \<le> iov_len")
    case True
    with q assms show ?thesis using that by auto
  next
    case False
    show ?thesis
      by (rule that, simp add: q False)
        (use q assms False in \<open>auto simp flip: append_assoc\<close>)
  qed
next
  case (Recv_error e)
  with assms show ?thesis by (cases q) auto
qed

lemma rx_outcome_cong:
  assumes "rx_delivered st' = rx_delivered st"
    and "parse_stream (rx_buf st' @ rx_queued st') = parse_stream (rx_buf st @ rx_queued st)"
  shows "rx_outcome st' = rx_outcome st"
  using assms by (simp add: rx_outcome_def)

lemma recv_stage:
  assumes "partial_skb st = Some skb" "rx_mid st" "rx_fair st" "8 \<le> skb_tailroom skb"
  shows "(rx_events st = [] \<and> rd_recv skb st = (Break, st)) \<or>
    (\<exists>st1. rd_recv skb st = (Go, st1) \<and> rx_mid st1 \<and> rx_fair st1 \<and> partial_skb st1 \<noteq> None \<and>
       rx_outcome st1 = rx_outcome st \<and> rx_measure st1 < rx_measure st)"
proof (cases "rx_events st = []")
  case True
  then show ?thesis
    using assms(4) by (auto simp: rd_recv_def Let_def intro!: rx_state.equality)
next
  case False
  obtain bs q' where r: "kernel_recvmsg (skb_tailroom skb) (rx_events st) = (Rcvd bs, q')" "bs \<noteq> []"
      "list_all good_event q'"
      and q: "concat (map event_bytes (rx_events st)) = bs @ concat (map event_bytes q')"
    using recv_good [of "rx_events st" "skb_tailroom skb"] False assms(3,4) unfolding rx_fair_def
    by (metis less_le_trans zero_less_numeral)
  let ?st1 = "st\<lparr>rx_events := q', partial_skb := Some (skb_put bs skb),
                 received_len := received_len st + length bs\<rparr>"
  have "rd_recv skb st = (Go, ?st1)"
    using assms(4) r by (simp add: rd_recv_def Let_def)
  moreover have "rx_mid ?st1"
    using assms(1,2) by (auto simp: rx_mid_def rx_buf_def decode_header_append)
  moreover have "rx_fair ?st1" using assms(3) r by (simp add: rx_fair_def)
  moreover have "rx_outcome ?st1 = rx_outcome st"
    using assms(1) q by (intro rx_outcome_cong) (auto simp: rx_buf_def rx_queued_def)
  moreover have "rx_measure ?st1 < rx_measure st"
    using assms(1) q r(2) by (auto simp: rx_measure_def rx_buf_def rx_queued_def)
  ultimately show ?thesis by auto
qed

lemma fill_stage:
  assumes "partial_skb st \<noteq> None" "rx_ok st" "rx_fair st"
  shows "(record_ready st \<and> rd_fill env st = (Go, st)) \<or>
    (\<exists>st1. rd_fill env st = (Go, st1) \<and> rx_mid st1 \<and> rx_fair st1 \<and> partial_skb st1 \<noteq> None \<and>
       rx_outcome st1 = rx_outcome st \<and> rx_measure st1 < rx_measure st) \<or>
    (\<exists>st1. rd_fill env st = (Break, st1) \<and> rx_ok st1 \<and> rx_fair st1 \<and> rx_events st1 = [] \<and>
       rx_outcome st1 = rx_outcome st \<and> \<not> record_ready st1)"
proof (cases "record_ready st")
  case True
  then show ?thesis by (simp add: rd_fill_def)
next
  case False
  obtain skb where skb: "partial_skb st = Some skb" using assms(1) by auto
  have mid: "rx_mid st" using assms(2) by (simp add: rx_ok_def)
  obtain st1 skb1 where room: "rd_room env skb st = (Go, st1)" "partial_skb st1 = Some skb1"
      "skb_data skb1 = skb_data skb" "8 \<le> skb_tailroom skb1" "rx_fair st1"
      "expected_len st1 = expected_len st" "received_len st1 = received_len st"
      "rx_events st1 = rx_events st" "rx_delivered st1 = rx_delivered st"
    using room_stage [OF skb mid assms(3)] by metis
  have buf: "rx_buf st1 = rx_buf st" "rx_queued st1 = rx_queued st"
    using skb room by (simp_all add: rx_buf_def rx_queued_def)
  have ok1: "rx_ok st1" "rx_outcome st1 = rx_outcome st" "rx_measure st1 = rx_measure st"
      "\<not> record_ready st1"
    using assms(2) False room buf
    by (auto simp: rx_ok_def rx_mid_def rx_outcome_def rx_measure_def record_ready_def
        split: if_splits)
  have fill: "rd_fill env st = rd_recv skb1 st1"
    using False skb room by (simp add: rd_fill_def)
  show ?thesis
    using recv_stage [OF room(2) _ room(5) room(4)] ok1 fill room
    by (auto simp: rx_ok_def)
qed

section \<open>Resynchronisation\<close>

lemma sync_scan_Some:
  assumes "sync_scan bs (length bs) i = Some j"
  shows "i \<le> j \<and> j + 8 \<le> length bs \<and> wg_check_potential_header_validity (decode_header (drop j bs)) 8 \<and>
    parse_stream (drop i bs) = parse_stream (drop j bs)"
  using assms
proof (induction bs "length bs" i rule: sync_scan.induct)
  case (1 bs i)
  show ?case
  proof (cases "wg_check_potential_header_validity (decode_header (drop i bs)) (length bs - i)")
    case True
    with 1(2) show ?thesis
      by (subst (asm) sync_scan.simps)
        (auto simp: frame_consts validity_remaining [of _ "length bs - i"] split: if_splits)
  next
    case False
    with 1(2) have ge: "i + 8 \<le> length bs" and rec: "sync_scan bs (length bs) (Suc i) = Some j"
      by (auto simp: sync_scan.simps [of bs _ i] frame_consts split: if_splits)
    have "\<not> wg_check_potential_header_validity (decode_header (drop i bs)) 8"
      using False ge by (simp add: validity_remaining [of _ "length bs - i"])
    with ge have "parse_stream (drop i bs) = parse_stream (drop (Suc i) bs)"
      by (simp add: parse_invalid drop_Suc tl_drop)
    with 1(1) ge rec False show ?thesis by (auto simp: frame_consts)
  qed
qed

lemma sync_scan_None:
  assumes "sync_scan bs (length bs) i = None" "i + 7 \<le> length bs"
  shows "parse_stream (drop i bs) = ([], drop (length bs - 7) bs)"
  using assms
proof (induction bs "length bs" i rule: sync_scan.induct)
  case (1 bs i)
  show ?case
  proof (cases "length bs < 8 + i")
    case True
    with 1(3) have "i = length bs - 7" by simp
    then show ?thesis using 1(3) by (simp add: parse_short)
  next
    case False
    with 1(2) have inv: "\<not> wg_check_potential_header_validity (decode_header (drop i bs)) (length bs - i)"
        and rec: "sync_scan bs (length bs) (Suc i) = None"
      by (auto simp: sync_scan.simps [of bs _ i] frame_consts split: if_splits)
    have "\<not> wg_check_potential_header_validity (decode_header (drop i bs)) 8"
      using inv False by (simp add: validity_remaining [of _ "length bs - i"])
    with False have "parse_stream (drop i bs) = parse_stream (drop (Suc i) bs)"
      by (simp add: parse_invalid drop_Suc tl_drop)
    with 1(1) False inv rec show ?thesis by (auto simp: frame_consts)
  qed
qed

lemma parse_cong_append:
  "parse_stream a = parse_stream b \<Longrightarrow> parse_stream (a @ suf) = parse_stream (b @ suf)"
  by (metis parse_append)

text \<open>A failed resynchronisation keeps the last seven bytes.\<close>

lemma sync_fail:
  assumes "partial_skb st = Some skb" "received_len st = skb_len skb" "8 \<le> skb_len skb"
    and "sync_scan (skb_data skb) (skb_len skb) 0 = None"
  obtains st1 skb1 where "wg_sync_header st = (False, st1)" "partial_skb st1 = Some skb1"
    "skb_data skb1 = drop (skb_len skb - 7) (skb_data skb)" "received_len st1 = 7"
    "expected_len st1 = 0" "rx_events st1 = rx_events st" "rx_allocs st1 = rx_allocs st"
    "rx_delivered st1 = rx_delivered st" "skb_headroom skb1 = skb_headroom skb"
proof -
  have "take 7 (drop (skb_len skb - 7) (skb_data skb)) = drop (skb_len skb - 7) (skb_data skb)"
    using assms(3) by simp
  then show ?thesis
    using that assms by (auto simp: wg_sync_header_def frame_consts Let_def)
qed

lemma sync_success:
  assumes "partial_skb st = Some skb" "received_len st = skb_len skb" "8 \<le> skb_len skb"
    and "sync_scan (skb_data skb) (skb_len skb) 0 = Some j"
  shows "wg_sync_header st =
    (True, st\<lparr>partial_skb := Some (skb_pull j skb), received_len := skb_len skb - j,
              expected_len := unat (eh_length (decode_header (drop j (skb_data skb))))\<rparr>)"
  using assms by (simp add: wg_sync_header_def frame_consts)

definition rx_headed :: "bool \<Rightarrow> rx_state \<Rightarrow> bool" where
  "rx_headed fr st \<longleftrightarrow> rx_mid st \<and> expected_len st \<noteq> 0 \<and>
     fr = (eh_flags (decode_header (rx_buf st)) AND WG_TCP_FRAG_FLAG \<noteq> 0)"

definition header_break :: "rx_state \<Rightarrow> bool" where
  "header_break st \<longleftrightarrow>
     (\<exists>st1. rd_header st = ((Break, False), st1) \<and> rx_ok st1 \<and> rx_fair st1 \<and>
        rx_outcome st1 = rx_outcome st \<and> expected_len st1 = 0 \<and> received_len st1 < 8 \<and>
        (if received_len st < 8 then st1 = st else rx_measure st1 < rx_measure st))"

definition header_go :: "rx_state \<Rightarrow> bool" where
  "header_go st \<longleftrightarrow>
     (\<exists>st1 fr. rd_header st = ((Go, fr), st1) \<and> rx_headed fr st1 \<and> rx_fair st1 \<and>
        partial_skb st1 \<noteq> None \<and> rx_outcome st1 = rx_outcome st \<and>
        rx_measure st1 \<le> rx_measure st \<and>
        (expected_len st = 0 \<longrightarrow> rx_measure st1 < rx_measure st))"

lemma header_valid:
  assumes "partial_skb st = Some skb" "rx_mid st" "rx_fair st" "8 \<le> skb_len skb"
    and "wg_check_potential_header_validity (decode_header (skb_data skb)) 8"
  shows "header_go st"
proof -
  let ?h = "decode_header (skb_data skb)"
  let ?st1 = "st\<lparr>expected_len := unat (eh_length ?h)\<rparr>"
  have len: "received_len st = skb_len skb" "rx_buf st = skb_data skb"
    using assms by (simp_all add: rx_mid_def rx_buf_def)
  have n0: "unat (eh_length ?h) \<noteq> 0" using validity_length(1) [OF assms(5)] by simp
  have "rd_header st = ((Go, eh_flags ?h AND WG_TCP_FRAG_FLAG \<noteq> 0), ?st1)"
    using assms(1,4,5) len
    by (simp add: rd_header_def frame_consts Let_def validity_remaining [of _ "skb_len skb"])
  moreover have b: "rx_buf ?st1 = rx_buf st" "rx_queued ?st1 = rx_queued st"
    by (simp_all add: rx_buf_def rx_queued_def)
  moreover have "rx_headed (eh_flags ?h AND WG_TCP_FRAG_FLAG \<noteq> 0) ?st1"
    using assms(4,5) n0 b len by (simp add: rx_headed_def rx_mid_def)
  moreover have "rx_outcome ?st1 = rx_outcome st" using b by (simp add: rx_outcome_def)
  moreover have "rx_measure ?st1 = rx_measure st - (if expected_len st = 0 then 1 else 0)"
    using b n0 by (simp add: rx_measure_def)
  moreover have "rx_measure st \<noteq> 0 \<or> expected_len st \<noteq> 0" by (simp add: rx_measure_def)
  moreover have "rx_fair ?st1" using assms(3) by (simp add: rx_fair_def)
  ultimately show ?thesis
    using assms(1) unfolding header_go_def
    by (intro exI [of _ ?st1] exI [of _ "eh_flags ?h AND WG_TCP_FRAG_FLAG \<noteq> 0"]) auto
qed

lemma header_sync:
  assumes "partial_skb st = Some skb" "rx_mid st" "rx_fair st" "8 \<le> skb_len skb"
    and invalid: "\<not> wg_check_potential_header_validity (decode_header (skb_data skb)) 8"
    and scan: "sync_scan (skb_data skb) (skb_len skb) 0 = Some j"
  shows "header_go st"
proof -
  have len: "received_len st = skb_len skb" "rx_buf st = skb_data skb"
    using assms by (simp_all add: rx_mid_def rx_buf_def)
  let ?h = "decode_header (drop j (skb_data skb))"
  have j: "8 \<le> skb_len skb - j" "wg_check_potential_header_validity ?h 8"
      "parse_stream (skb_data skb) = parse_stream (drop j (skb_data skb))"
    using sync_scan_Some [OF scan] by auto
  let ?st1 = "st\<lparr>partial_skb := Some (skb_pull j skb), received_len := skb_len skb - j,
                 expected_len := unat (eh_length ?h)\<rparr>"
  have n0: "unat (eh_length ?h) \<noteq> 0" using validity_length(1) [OF j(2)] by simp
  have "rd_header st = ((Go, eh_flags ?h AND WG_TCP_FRAG_FLAG \<noteq> 0), ?st1)"
    using assms(1) sync_success [OF assms(1) len(1) assms(4) scan] invalid assms(4) j(1,2) len
    by (simp add: rd_header_def frame_consts Let_def
        validity_remaining [of _ "skb_len skb"] validity_remaining [of _ "skb_len skb - j"])
  moreover have b: "rx_buf ?st1 = drop j (skb_data skb)" "rx_queued ?st1 = rx_queued st"
    by (simp_all add: rx_buf_def rx_queued_def)
  moreover have "rx_outcome ?st1 = rx_outcome st"
    using b len j by (intro rx_outcome_cong) (auto intro: parse_cong_append)
  moreover have "expected_len st = 0"
    using assms(2) invalid len by (auto simp: rx_mid_def)
  moreover have "rx_headed (eh_flags ?h AND WG_TCP_FRAG_FLAG \<noteq> 0) ?st1"
    using j n0 b by (simp add: rx_headed_def rx_mid_def)
  moreover have "rx_fair ?st1" using assms(3) by (simp add: rx_fair_def)
  moreover have "rx_measure ?st1 < rx_measure st"
    using b len n0 \<open>expected_len st = 0\<close> by (simp add: rx_measure_def)
  ultimately show ?thesis
    unfolding header_go_def
    by (intro exI [of _ ?st1] exI [of _ "eh_flags ?h AND WG_TCP_FRAG_FLAG \<noteq> 0"]) simp
qed

lemma header_fail:
  assumes "partial_skb st = Some skb" "rx_mid st" "rx_fair st" "8 \<le> skb_len skb"
    and invalid: "\<not> wg_check_potential_header_validity (decode_header (skb_data skb)) 8"
    and scan: "sync_scan (skb_data skb) (skb_len skb) 0 = None"
  shows "header_break st"
proof -
  have len: "received_len st = skb_len skb" "rx_buf st = skb_data skb"
    using assms by (simp_all add: rx_mid_def rx_buf_def)
  obtain st1 skb1 where s: "wg_sync_header st = (False, st1)" "partial_skb st1 = Some skb1"
      "skb_data skb1 = drop (skb_len skb - 7) (skb_data skb)" "received_len st1 = 7"
      "expected_len st1 = 0" "rx_events st1 = rx_events st" "rx_allocs st1 = rx_allocs st"
      "rx_delivered st1 = rx_delivered st"
    using sync_fail [OF assms(1) len(1) assms(4) scan] by metis
  have "rd_header st = ((Break, False), st1)"
    using invalid assms(1,4) len s
    by (simp add: rd_header_def frame_consts Let_def validity_remaining [of _ "skb_len skb"])
  moreover have b: "rx_buf st1 = drop (skb_len skb - 7) (skb_data skb)" "rx_queued st1 = rx_queued st"
    using s by (simp_all add: rx_buf_def rx_queued_def)
  moreover have "parse_stream (skb_data skb) = parse_stream (rx_buf st1)"
    using sync_scan_None [OF scan] assms(4) b by (simp add: parse_short)
  then have "rx_outcome st1 = rx_outcome st"
    using s b len by (intro rx_outcome_cong) (auto intro: parse_cong_append)
  moreover have "rx_ok st1" "rx_fair st1"
    using assms(3,4) s b by (simp_all add: rx_ok_def rx_mid_def rx_fair_def)
  moreover have "expected_len st = 0" using assms(2) invalid len by (auto simp: rx_mid_def)
  then have "rx_measure st1 < rx_measure st"
    using assms(4) s b len by (simp add: rx_measure_def)
  ultimately show ?thesis
    unfolding header_break_def using s len assms(4) by (intro exI [of _ st1]) simp
qed

lemma header_stage:
  assumes "partial_skb st = Some skb" "rx_mid st" "rx_fair st"
  shows "header_break st \<or> header_go st"
proof (cases "skb_len skb < 8")
  case True
  then show ?thesis
    using assms
    by (auto simp: header_break_def rd_header_def frame_consts rx_mid_def rx_ok_def rx_buf_def)
next
  case False
  then show ?thesis
    using header_valid [OF assms] header_sync [OF assms] header_fail [OF assms]
    by (cases "sync_scan (skb_data skb) (skb_len skb) 0") (auto simp: not_less)
qed

section \<open>Delivery\<close>

lemma leftover_stage:
  assumes "None \<notin> set script" "e \<le> skb_len skb"
  obtains script' where "rd_leftover env skb e (skb_len skb - e) script = (Left_none, script')"
      "e = skb_len skb" "None \<notin> set script'"
    | script' l where "rd_leftover env skb e (skb_len skb - e) script = (Left_skb l, script')"
      "skb_data l = drop e (skb_data skb)" "e < skb_len skb" "None \<notin> set script'"
proof (cases "e = skb_len skb")
  case True
  then show ?thesis using that(1) assms(1) by (simp add: rd_leftover_def)
next
  case False
  obtain k as' where *: "next_alloc script = (Some k, as')" "None \<notin> set as'"
    using assms(1) next_alloc_good by metis
  let ?r = "WG_TCP_RESERVED_HEADER_SIZE + re_net_ip_align env"
  have "rd_leftover env skb e (skb_len skb - e) script =
      (Left_skb (skb_put (drop e (skb_data skb)) (fresh_skb (skb_len skb - e + ?r) ?r k)), as')"
    using False assms(2) * by (simp add: rd_leftover_def Let_def skb_copy_bits_def)
  then show ?thesis by (rule that(2)) (use False assms(2) * in auto)
qed

lemma restore_frag_view [simp]:
  "payload_view (rd_restore_frag cs fr fh skb) = payload_view skb"
  by (auto simp: payload_view_def rd_restore_frag_def Let_def split: net_hdr.splits)

lemma fake_view:
  assumes "wg_tcp_build_fake_headers cs stale ib src dst sk skb = Inr skb'"
  shows "payload_view skb' = payload_view skb"
  using build_fake_headers_Inr [OF assms] by (simp add: payload_view_def)

lemma record_view_buf:
  assumes "8 \<le> n" "n \<le> length bs" "fr \<longrightarrow> 12 \<le> n"
    and "fr = (eh_flags (decode_header bs) AND WG_TCP_FRAG_FLAG \<noteq> 0)"
  shows "record_view (take n bs) =
     (take (n - hdr_len fr) (drop (hdr_len fr) bs),
      if fr then fh_id (decode_frag (drop 8 bs)) else 0,
      if fr then fh_frag_off (decode_frag (drop 8 bs)) else 0)"
proof -
  have "decode_header (take n bs) = decode_header bs"
    using decode_header_append [of "take n bs" "drop n bs"] assms(1,2) by simp
  moreover have "decode_frag (drop 8 (take n bs)) = decode_frag (drop 8 bs)" if fr
    using assms(2,3) that
    by (cases "drop 8 bs" rule: decode_frag.cases; cases "n - 8")
      (auto simp: drop_take take_Cons numeral_eq_Suc split: nat.splits)
  ultimately show ?thesis
    using assms by (simp add: record_view_def Let_def drop_take)
qed

definition frag_of :: "bool \<Rightarrow> sk_buff \<Rightarrow> wg_tcp_frag_header" where
  "frag_of fr skb =
     (if fr then decode_frag (drop 8 (skb_data skb)) else \<lparr>fh_id = 0, fh_frag_off = 0\<rparr>)"

text \<open>The buffer that gets the synthetic headers: headers stripped, leftover cut off.\<close>

definition stripped :: "bool \<Rightarrow> nat \<Rightarrow> sk_buff \<Rightarrow> sk_buff" where
  "stripped fr n skb =
     (if skb_len skb - n > 0 then skb_trim (n - hdr_len fr) (skb_pull (hdr_len fr) skb)
      else skb_pull (hdr_len fr) skb)
     \<lparr>cb_frag_id := fh_id (frag_of fr skb), cb_frag_off := fh_frag_off (frag_of fr skb)\<rparr>"

lemma stripped_view:
  assumes "hdr_len fr + 32 \<le> n" "n \<le> skb_len skb"
    and "fr = (eh_flags (decode_header (skb_data skb)) AND WG_TCP_FRAG_FLAG \<noteq> 0)"
  shows "payload_view (stripped fr n skb) = record_view (take n (skb_data skb))"
  using assms
  by (subst record_view_buf [where fr = fr])
    (auto simp: payload_view_def stripped_def frag_of_def hdr_len_def)

definition stripped_state :: "bool \<Rightarrow> nat \<Rightarrow> sk_buff \<Rightarrow> alloc_script \<Rightarrow> rx_state \<Rightarrow> rx_state" where
  "stripped_state fr n skb script st =
     st\<lparr>partial_skb := Some (skb_pull (hdr_len fr) skb), received_len := skb_len skb - hdr_len fr,
        expected_len := n - hdr_len fr, rx_allocs := script\<rparr>"

lemma deliver_eq:
  assumes "received_len st = skb_len skb" "expected_len st = n" "hdr_len fr + 32 \<le> n"
    and "n \<le> skb_len skb"
    and "rd_leftover env (skb_pull (hdr_len fr) skb) (n - hdr_len fr) (skb_len skb - n) (rx_allocs st)
       = (lo, script)"
  shows "rd_deliver env fr skb st =
     (case lo of
        Left_nomem \<Rightarrow> (Break, stripped_state fr n skb script st)
      | Left_copy \<Rightarrow> (Break, wg_peer_discard_partial_read (stripped_state fr n skb script st))
      | _ \<Rightarrow>
          (case wg_tcp_build_fake_headers (re_csum env) (re_stale env) (re_is_inbound env)
                  (re_inbound_source env) (re_inbound_dest env) (re_sk env) (stripped fr n skb) of
             Inl _ \<Rightarrow> (Break, wg_peer_discard_partial_read (stripped_state fr n skb script st))
           | Inr skb4 \<Rightarrow>
               (Go, st\<lparr>partial_skb := (case lo of Left_skb l \<Rightarrow> Some l | _ \<Rightarrow> None),
                       received_len := skb_len skb - n, expected_len := 0, rx_allocs := script,
                       rx_delivered := rx_delivered st @
                         [rd_restore_frag (re_csum env) fr (frag_of fr skb) skb4]\<rparr>)))"
proof -
  have hl: "8 + (if fr then 4 else 0) = hdr_len fr" by (simp add: hdr_len_def)
  have g: "(fr \<and> received_len st < 8 + 4) = False" "(skb_len skb - hdr_len fr = 0) = False"
    "skb_len skb - hdr_len fr - (n - hdr_len fr) = skb_len skb - n"
    using assms(1,3,4) by (auto simp: hdr_len_def)
  note unf = rd_deliver_def frame_consts hl frag_of_def [symmetric] Let_def
    skb_len_ops g(1) assms(1,2) if_False
  show ?thesis
    using g assms(5)
    by (cases lo; simp only: unf; simp add: stripped_def stripped_state_def split: sum.split)
qed

lemma deliver_stage:
  assumes skb: "partial_skb st = Some skb" and head: "rx_headed fr st" and fair: "rx_fair st"
    and fake: "fake_ok env" and full: "expected_len st \<le> received_len st"
  obtains st' d where "rd_deliver env fr skb st = (Go, st')"
    "rx_delivered st' = rx_delivered st @ [d]"
    "payload_view d = record_view (take (expected_len st) (skb_data skb))"
    "rx_buf st' = drop (expected_len st) (skb_data skb)" "received_len st' = length (rx_buf st')"
    "expected_len st' = 0" "rx_events st' = rx_events st" "rx_fair st'"
proof -
  let ?n = "expected_len st" and ?h = "decode_header (skb_data skb)" and ?hl = "hdr_len fr"
  have buf: "rx_buf st = skb_data skb" using skb by (simp add: rx_buf_def)
  have len: "received_len st = skb_len skb" and n: "?n = unat (eh_length ?h)"
      and valid: "wg_check_potential_header_validity ?h 8"
      and fr: "fr = (eh_flags ?h AND WG_TCP_FRAG_FLAG \<noteq> 0)"
    using head buf by (auto simp: rx_headed_def rx_mid_def)
  have n_ge: "?hl + 32 \<le> ?n" using validity_length(3) [OF valid] n fr by simp
  have n_le: "?n \<le> skb_len skb" using full len by simp
  obtain skb4 where skb4: "wg_tcp_build_fake_headers (re_csum env) (re_stale env) (re_is_inbound env)
       (re_inbound_source env) (re_inbound_dest env) (re_sk env) (stripped fr ?n skb) = Inr skb4"
    using fake_ok_Inr [OF fake] by metis
  let ?d = "rd_restore_frag (re_csum env) fr (frag_of fr skb) skb4"
  have view: "payload_view ?d = record_view (take ?n (skb_data skb))"
    using fake_view [OF skb4] stripped_view [OF n_ge n_le fr] by simp
  note unfold = deliver_eq [OF len refl n_ge n_le]
  have script: "None \<notin> set (rx_allocs st)" using fair by (simp add: rx_fair_def)
  have e: "?n - ?hl \<le> skb_len (skb_pull ?hl skb)"
      "skb_len (skb_pull ?hl skb) - (?n - ?hl) = skb_len skb - ?n"
    using n_ge n_le by auto
  show thesis
    using script e(1)
  proof (cases rule: leftover_stage [where env = env])
    case (1 script')
    show thesis
      by (rule that [where d = ?d], simp add: unfold [OF 1(1) [unfolded e(2)]] skb4)
        (use view 1 e fair n_ge in \<open>auto simp: rx_buf_def rx_fair_def\<close>)
  next
    case (2 script' l)
    show thesis
      by (rule that [where d = ?d], simp add: unfold [OF 2(1) [unfolded e(2)]] skb4)
        (use view 2 e fair n_ge in \<open>auto simp: rx_buf_def rx_fair_def\<close>)
  qed
qed

lemma grow_stage:
  assumes "partial_skb st = Some skb" "rx_headed fr st" "rx_fair st" "received_len st < expected_len st"
  obtains st1 skb1 where "rd_grow skb st = (Go, st1)" "partial_skb st1 = Some skb1"
    "rx_ok st1" "rx_fair st1" "rx_outcome st1 = rx_outcome st" "rx_measure st1 = rx_measure st"
    "received_len st1 < expected_len st1"
proof (cases "skb_tailroom skb < expected_len st - received_len st")
  case False
  then show ?thesis
    using assms that [of st skb] by (simp add: rd_grow_def rx_headed_def rx_ok_def)
next
  case True
  obtain k as' where *: "next_alloc (rx_allocs st) = (Some k, as')" "None \<notin> set as'"
    using assms(3) next_alloc_good unfolding rx_fair_def by metis
  let ?skb1 = "skb_copy_expand (skb_headroom skb) (expected_len st - received_len st) k skb"
  let ?st1 = "st\<lparr>rx_allocs := as', partial_skb := Some ?skb1\<rparr>"
  have "rd_grow skb st = (Go, ?st1)" using True assms(4) * by (simp add: rd_grow_def Let_def)
  moreover have "rx_buf ?st1 = rx_buf st" "rx_queued ?st1 = rx_queued st"
    using assms(1) by (simp_all add: rx_buf_def rx_queued_def)
  ultimately show ?thesis
    using assms * that [of ?st1 ?skb1]
    by (simp add: rx_headed_def rx_ok_def rx_mid_def rx_fair_def rx_outcome_def rx_measure_def)
qed

lemma body_stage:
  assumes "partial_skb st = Some skb" "rx_headed fr st" "rx_fair st" "fake_ok env"
  obtains st' where "rd_body env fr st = (Go, st')" "rx_ok st'" "rx_fair st'"
    "rx_outcome st' = rx_outcome st" "rx_measure st' \<le> rx_measure st"
proof (cases "received_len st < expected_len st")
  case True
  obtain st1 skb1 where "rd_grow skb st = (Go, st1)" "partial_skb st1 = Some skb1"
    "rx_ok st1" "rx_fair st1" "rx_outcome st1 = rx_outcome st" "rx_measure st1 = rx_measure st"
    "received_len st1 < expected_len st1"
    using grow_stage [OF assms(1-3) True] by metis
  then show ?thesis using assms(1) that [of st1] by (simp add: rd_body_def)
next
  case False
  let ?n = "expected_len st"
  have mid: "received_len st = skb_len skb" "8 \<le> skb_len skb"
      "wg_check_potential_header_validity (decode_header (skb_data skb)) 8"
      "?n = unat (eh_length (decode_header (skb_data skb)))"
    using assms(1,2) by (auto simp: rx_headed_def rx_mid_def rx_buf_def)
  obtain st' d where d: "rd_deliver env fr skb st = (Go, st')"
      "rx_delivered st' = rx_delivered st @ [d]"
      "payload_view d = record_view (take ?n (skb_data skb))"
      "rx_buf st' = drop ?n (skb_data skb)" "received_len st' = length (rx_buf st')"
      "expected_len st' = 0" "rx_events st' = rx_events st" "rx_fair st'"
    using deliver_stage [OF assms] False by (metis not_le)
  have n: "40 \<le> ?n" "?n \<le> skb_len skb"
    using validity_length(1) [OF mid(3)] mid False by simp_all
  have "rd_body env fr st = (Go, st')"
    using assms(1) False d n mid by (simp add: rd_body_def rd_grow_def frame_consts)
  moreover have "rx_ok st'" using d by (simp add: rx_ok_def rx_mid_def)
  moreover have "rx_outcome st' = rx_outcome st"
  proof -
    have "parse_stream (skb_data skb @ rx_queued st) =
        (take ?n (skb_data skb) # fst (parse_stream (rx_buf st' @ rx_queued st')),
         snd (parse_stream (rx_buf st' @ rx_queued st')))"
      using mid n d
      by (subst parse_record [where n = ?n]) (auto simp: decode_header_append rx_queued_def)
    then show ?thesis using assms(1) d by (simp add: rx_outcome_def rx_buf_def)
  qed
  moreover have "rx_measure st' \<le> rx_measure st"
    using assms(1) d n by (simp add: rx_measure_def rx_buf_def rx_queued_def)
  ultimately show ?thesis using d that by blast
qed

section \<open>Rounds, the budgeted loop, and repeated activations\<close>

lemma ready_expected: "rx_ok st \<Longrightarrow> record_ready st \<Longrightarrow> expected_len st = 0 \<and> 8 \<le> received_len st"
  by (auto simp: rx_ok_def record_ready_def frame_consts split: if_splits)

lemma not_ready_parse:
  assumes "rx_ok st" "\<not> record_ready st" shows "parse_stream (rx_buf st) = ([], rx_buf st)"
  using assms
  by (auto simp: rx_ok_def rx_mid_def record_ready_def frame_consts parse_short parse_partial
      split: if_splits)

text \<open>
  A round keeps the outcome; it continues or leaves bytes in the queue only when it
  made progress, and a round that stops has delivered every complete record.
\<close>

lemma round_stage:
  assumes "rx_ok st" "rx_fair st" "fake_ok env"
  obtains c st' where "rd_round env st = (c, st')" "rx_ok st'" "rx_fair st'"
    "rx_outcome st' = rx_outcome st"
    "c = Go \<or> rx_events st' \<noteq> [] \<Longrightarrow> rx_measure st' < rx_measure st"
    "c = Break \<Longrightarrow> \<not> record_ready st'"
proof -
  obtain st1 where a: "rd_alloc env st = (Go, st1)" "rx_ok st1" "rx_fair st1"
      "partial_skb st1 \<noteq> None" "rx_outcome st1 = rx_outcome st" "rx_measure st1 = rx_measure st"
    using alloc_stage [OF assms(1,2)] by metis
  consider (stop) st2 where "rd_fill env st1 = (Break, st2)" "rx_ok st2" "rx_fair st2"
      "rx_events st2 = []" "rx_outcome st2 = rx_outcome st1" "\<not> record_ready st2"
    | (go) st2 where "rd_fill env st1 = (Go, st2)" "rx_mid st2" "rx_fair st2"
      "partial_skb st2 \<noteq> None" "rx_outcome st2 = rx_outcome st1"
      "rx_measure st2 < rx_measure st1 \<or>
       (st2 = st1 \<and> expected_len st2 = 0 \<and> 8 \<le> received_len st2)"
    using fill_stage [OF a(4) a(2) a(3), of env] a ready_expected [OF a(2)]
    unfolding rx_ok_def by blast
  then show ?thesis
  proof cases
    case stop
    then show ?thesis using a by (intro that [of Break st2]) (simp_all add: rd_round_def)
  next
    case go
    obtain skb where skb: "partial_skb st2 = Some skb" using go(4) by auto
    from header_stage [OF skb go(2,3)] show ?thesis
    proof
      assume "header_break st2"
      then obtain st3 where "rd_header st2 = ((Break, False), st3)" "rx_ok st3" "rx_fair st3"
          "rx_outcome st3 = rx_outcome st2" "expected_len st3 = 0" "received_len st3 < 8"
          "if received_len st2 < 8 then st3 = st2 else rx_measure st3 < rx_measure st2"
        unfolding header_break_def by blast
      then show ?thesis
        using a go by (intro that [of Break st3])
          (auto simp: rd_round_def record_ready_def frame_consts split: if_splits)
    next
      assume "header_go st2"
      then obtain st3 fr skb3 where h: "rd_header st2 = ((Go, fr), st3)" "rx_headed fr st3"
          "rx_fair st3" "partial_skb st3 = Some skb3" "rx_outcome st3 = rx_outcome st2"
          "rx_measure st3 \<le> rx_measure st2"
          "expected_len st2 = 0 \<longrightarrow> rx_measure st3 < rx_measure st2"
        unfolding header_go_def by auto
      obtain st4 where "rd_body env fr st3 = (Go, st4)" "rx_ok st4" "rx_fair st4"
          "rx_outcome st4 = rx_outcome st3" "rx_measure st4 \<le> rx_measure st3"
        using body_stage [OF h(4,2,3) assms(3)] by metis
      then show ?thesis
        using a go h by (intro that [of Go st4]) (auto simp: rd_round_def)
    qed
  qed
qed

lemma loop_stage:
  assumes "rx_ok st" "rx_fair st" "fake_ok env"
  obtains b st' where "read_loop env n st = (b, st')" "rx_ok st'" "rx_fair st'"
    "rx_outcome st' = rx_outcome st"
    "b \<or> rx_events st' \<noteq> [] \<Longrightarrow> rx_measure st' < rx_measure st"
    "\<not> b \<Longrightarrow> \<not> record_ready st'"
  using assms
proof (induction env n st arbitrary: thesis rule: read_loop.induct)
  case (1 env n st)
  obtain c st1 where r: "rd_round env st = (c, st1)" "rx_ok st1" "rx_fair st1"
      "rx_outcome st1 = rx_outcome st"
      "c = Go \<or> rx_events st1 \<noteq> [] \<Longrightarrow> rx_measure st1 < rx_measure st"
      "c = Break \<Longrightarrow> \<not> record_ready st1"
    using round_stage [OF 1(3,4,5)] by metis
  consider (stop) "c = Break" | (budget) "c = Go" "64 \<le> Suc n" | (next_round) "c = Go" "\<not> 64 \<le> Suc n"
    by (cases c) auto
  then show ?case
  proof cases
    case stop
    then show ?thesis using r by (intro 1(2) [of False st1]) (auto simp: read_loop.simps)
  next
    case budget
    then show ?thesis using r by (intro 1(2) [of True st1]) (auto simp: read_loop.simps)
  next
    case next_round
    obtain b st' where l: "read_loop env (Suc n) st1 = (b, st')" "rx_ok st'" "rx_fair st'"
        "rx_outcome st' = rx_outcome st1"
        "b \<or> rx_events st' \<noteq> [] \<Longrightarrow> rx_measure st' < rx_measure st1"
        "\<not> b \<Longrightarrow> \<not> record_ready st'"
      using 1(1) [OF r(1) [symmetric] next_round(1,2) _ r(2,3) 1(5)] by blast
    show ?thesis
      by (rule 1(2) [of b st']) (use r l next_round in \<open>auto simp: read_loop.simps [of env n st]\<close>)
  qed
qed

lemma outcome_done:
  assumes "rx_ok st" "rx_events st = []" "\<not> record_ready st"
  shows "rx_outcome st = (map payload_view (rx_delivered st), rx_buf st)"
  using not_ready_parse [OF assms(1,3)] assms(2) by (simp add: rx_outcome_def rx_queued_def)

lemma drain_stage:
  assumes "rx_ok st" "rx_fair st" "fake_ok env" "rx_measure st < fuel"
  obtains st' where "rx_drain env fuel st = Some st'" "rx_ok st'" "rx_events st' = []"
    "rx_outcome st = (map payload_view (rx_delivered st'), rx_buf st')"
  using assms
proof (induction env fuel st arbitrary: thesis rule: rx_drain.induct)
  case (2 env fuel st)
  obtain b st1 where l: "read_loop env 0 st = (b, st1)" "rx_ok st1" "rx_fair st1"
      "rx_outcome st1 = rx_outcome st"
      "b \<or> rx_events st1 \<noteq> [] \<Longrightarrow> rx_measure st1 < rx_measure st"
      "\<not> b \<Longrightarrow> \<not> record_ready st1"
    using loop_stage [OF 2(3,4,5)] by metis
  show ?case
  proof (cases "rd_more_work b st1")
    case True
    then have "rx_measure st1 < fuel" using l(5) 2(6) by (auto simp: rd_more_work_def)
    with 2(1) [OF l(1) [symmetric] True] l 2(5) obtain st' where
      "rx_drain env fuel st1 = Some st'" "rx_ok st'" "rx_events st' = []"
      "rx_outcome st1 = (map payload_view (rx_delivered st'), rx_buf st')" by metis
    then show ?thesis using l True 2(2) [of st'] by simp
  next
    case False
    then have "rx_events st1 = []" by (simp add: rd_more_work_def)
    moreover have "\<not> record_ready st1"
      using False l(2,6)
      by (cases b) (auto simp: rd_more_work_def record_ready_def rx_ok_def rx_mid_def rx_buf_def
          frame_consts split: if_splits option.splits)
    ultimately show ?thesis
      using l False outcome_done [OF l(2)] by (intro 2(2) [of st1]) simp_all
  qed
qed simp

section \<open>Properties\<close>

text \<open>A reader at the start of a connection, with the segments still to be received.\<close>

definition rx_start :: "bytes list \<Rightarrow> alloc_script \<Rightarrow> rx_state" where
  "rx_start segs script =
     \<lparr>partial_skb = None, expected_len = 0, received_len = 0, rx_events = map Segment segs,
      rx_allocs = script, rx_delivered = []\<rparr>"

lemma rx_start_simps [simp]:
  "rx_ok (rx_start segs script)"
  "rx_queued (rx_start segs script) = concat segs"
  "rx_buf (rx_start segs script) = []"
  "rx_delivered (rx_start segs script) = []"
  "rx_measure (rx_start segs script) = 3 * length (concat segs) + 1"
  "rx_fair (rx_start segs script) = (None \<notin> set script \<and> [] \<notin> set segs)"
  by (auto simp: rx_start_def rx_ok_def rx_mid_def rx_queued_def rx_buf_def rx_measure_def rx_fair_def
      comp_def list_all_iff)

lemma rx_outcome_start:
  "rx_outcome (rx_start segs script) =
     (map record_view (fst (parse_stream (concat segs))), snd (parse_stream (concat segs)))"
  by (simp add: rx_outcome_def)

text \<open>A loopback tuple and trivial checksum helpers, for the examples.\<close>

definition demo_env :: rx_env where
  "demo_env = \<lparr>re_is_inbound = False, re_inbound_source = Sa_unspec, re_inbound_dest = Sa_unspec,
     re_sk = Some \<lparr>sk_family = AF_INET, inet_saddr = 0x7f000001, inet_sport = 40000,
       inet_daddr = 0x7f000001, inet_dport = 51820, sk_v6_saddr = 0, sk_v6_daddr = 0,
       sk_bound_dev_if = 0\<rparr>,
     re_csum = \<lparr>ip_fast_csum = (\<lambda>_. 0), csum_partial = (\<lambda>_ c. c), csum_tcpudp_magic = (\<lambda>_ _ _ _ _. 0),
       csum_add = (\<lambda>a b. a + b), csum_fold = (\<lambda>_. 0), htons_raw = (\<lambda>w. w)\<rparr>,
     re_stale = (0, 0), re_net_ip_align = 2\<rparr>"

lemma fake_ok_demo: "fake_ok demo_env"
  by (simp add: fake_ok_def demo_env_def fake_tuple_of_def)

text \<open>C2. The reader is a streaming implementation of the parser: from any point of a stream,
  with any segmentation of the bytes that follow, its activations come to an end after
  finitely many, and they have delivered exactly the records that the buffered bytes
  followed by the received ones parse to, in order, and hold the bytes that complete no
  record.\<close>

theorem reader_refines_parser:
  assumes "rx_ok st" "rx_fair st" "fake_ok env" "rx_measure st < fuel"
  shows "\<exists>st'. rx_drain env fuel st = Some st' \<and> rx_events st' = [] \<and>
    map payload_view (rx_delivered st') =
      map payload_view (rx_delivered st) @
      map record_view (fst (parse_stream (rx_buf st @ rx_queued st))) \<and>
    rx_buf st' = snd (parse_stream (rx_buf st @ rx_queued st))"
proof -
  obtain st' where "rx_drain env fuel st = Some st'" "rx_events st' = []"
      "rx_outcome st = (map payload_view (rx_delivered st'), rx_buf st')"
    using drain_stage [OF assms] by metis
  then show ?thesis by (auto simp: rx_outcome_def)
qed

theorem reader_refines_parser_witness:
  "\<exists>st'. rx_drain demo_env 20 (rx_start [[1, 2], [3, 4, 5]] [Some 0]) = Some st' \<and>
     rx_events st' = [] \<and> rx_delivered st' = [] \<and> rx_buf st' = [1, 2, 3, 4, 5]"
  using reader_refines_parser [of "rx_start [[1, 2], [3, 4, 5]] [Some 0]" demo_env 20] fake_ok_demo
  by (simp add: parse_short)

text \<open>C1. Record framing survives the byte stream: the frames built from any payloads, with
  garbage injected in front of any of them, sent back to back and received in any
  segmentation, are delivered as exactly these payloads with their fragment fields, once
  each and in order, and nothing is left over.\<close>

theorem reader_delivers_built_frames:
  assumes "list_all2 (\<lambda>(t, p) f. wg_tcp_build_frame t True True p = Inr f) tps frames"
    and "concat segs = concat frames" "[] \<notin> set segs" "None \<notin> set script" "fake_ok env"
    and "3 * length (concat frames) + 1 < fuel"
  shows "\<exists>st'. rx_drain env fuel (rx_start segs script) = Some st' \<and>
    map payload_view (rx_delivered st') = map (sent_view \<circ> snd) tps \<and> rx_buf st' = []"
proof -
  let ?nps = "map (\<lambda>(t, p). (wg_tcp_test_prefix_len t, p)) tps"
  have "frames = map (\<lambda>(n, p). replicate n 0xa5 @ frame_image p) ?nps"
      and send: "\<forall>(n, p)\<in>set ?nps. sendable p"
    using assms(1) by (induction rule: list_all2_induct) (auto simp: build_frame_Inr)
  then have "parse_stream (concat segs) = (map (frame_image \<circ> snd) ?nps, [])"
    using parse_frames [OF send] assms(2) by simp
  then have "rx_outcome (rx_start segs script) = (map (sent_view \<circ> snd) tps, [])"
    by (auto simp: rx_outcome_start record_view_frame)
  then show ?thesis
    using drain_stage [of "rx_start segs script" env fuel] assms by (simp) (metis prod.inject)
qed

theorem reader_delivers_built_frames_witness:
  "\<exists>st'. rx_drain demo_env 200 (rx_start [take 5 (frame_image (plain_skb (replicate 32 7) 0 0)),
         drop 5 (frame_image (plain_skb (replicate 32 7) 0 0))] []) = Some st' \<and>
     map payload_view (rx_delivered st') = [(replicate 32 7, 0, 0)] \<and> rx_buf st' = []"
proof -
  let ?p = "plain_skb (replicate 32 7) 0 0"
  have len: "length (frame_image ?p) = 40" by (simp add: length_frame_image hdr_len_def)
  then have "frame_image ?p \<noteq> []" by auto
  moreover have "wg_tcp_build_frame production True True ?p = Inr (frame_image ?p)"
    by (simp add: build_frame_Inr sendable_def hdr_len_def wg_tcp_test_prefix_len_def production_def)
  ultimately show ?thesis
    using reader_delivers_built_frames [of "[(production, ?p)]" "[frame_image ?p]"
        "[take 5 (frame_image ?p), drop 5 (frame_image ?p)]" "[]" demo_env 200] len fake_ok_demo
    by (auto simp: sent_view_def)
qed



text \<open>C8. When the allocation for the bytes behind a complete record fails, the reader gives
  up after it has already stripped the record's headers: the record is not delivered,
  the buffer now starts inside its payload, and the next activation will look for a
  header there.\<close>

theorem leftover_nomem_loses_record:
  assumes "partial_skb st = Some skb" "rx_headed fr st" "expected_len st < received_len st"
    and "next_alloc (rx_allocs st) = (None, script)"
  shows "\<exists>st'. rd_body env fr st = (Break, st') \<and> rx_delivered st' = rx_delivered st \<and>
    rx_buf st' = drop (hdr_len fr) (rx_buf st) \<and>
    expected_len st' = expected_len st - hdr_len fr"
proof -
  let ?n = "expected_len st" and ?h = "decode_header (skb_data skb)"
  have mid: "received_len st = skb_len skb" "wg_check_potential_header_validity ?h 8"
      "?n = unat (eh_length ?h)" "fr = (eh_flags ?h AND WG_TCP_FRAG_FLAG \<noteq> 0)"
    using assms(1,2) by (auto simp: rx_headed_def rx_mid_def rx_buf_def)
  then have n: "hdr_len fr + 32 \<le> ?n" "?n \<le> skb_len skb" "8 < skb_len skb"
    using validity_length(1,3) [OF mid(2)] assms(3) by simp_all
  have "rd_leftover env (skb_pull (hdr_len fr) skb) (?n - hdr_len fr) (skb_len skb - ?n) (rx_allocs st)
      = (Left_nomem, script)"
    using assms(3,4) mid(1) by (simp add: rd_leftover_def Let_def)
  from deliver_eq [OF mid(1) refl n(1,2) this]
  have "rd_body env fr st = (Break, stripped_state fr ?n skb script st)"
    using assms(1,3) mid(1) n(3) by (simp add: rd_body_def rd_grow_def frame_consts)
  then show ?thesis using assms(1) by (simp add: stripped_state_def rx_buf_def)
qed

theorem leftover_nomem_loses_record_witness:
  "\<exists>st'. rd_body demo_env False
       \<lparr>partial_skb = Some (plain_skb (frame_image (plain_skb (replicate 32 7) 0 0) @ [1]) 0 0),
        expected_len = 40, received_len = 41, rx_events = [], rx_allocs = [None],
        rx_delivered = []\<rparr> = (Break, st') \<and>
     rx_delivered st' = [] \<and> rx_buf st' = replicate 32 7 @ [1] \<and> expected_len st' = 32"
proof -
  let ?f = "frame_image (plain_skb (replicate 32 7) 0 0)"
  let ?skb = "plain_skb (?f @ [1]) 0 0"
  let ?st = "\<lparr>partial_skb = Some ?skb, expected_len = 40, received_len = 41, rx_events = [],
        rx_allocs = [None], rx_delivered = []\<rparr>"
  have len: "length ?f = 40" by (simp add: length_frame_image hdr_len_def)
  have drop: "drop 8 ?f = replicate 32 7" by (simp add: frame_image_def Let_def)
  have "wg_check_potential_header_validity (record_header 40 False) 8"
    by (rule record_header_valid) (simp_all add: hdr_len_def)
  then have "rx_headed False ?st"
    using len by (simp add: rx_headed_def rx_mid_def rx_buf_def hdr_len_def frame_consts)
  then show ?thesis
    using leftover_nomem_loses_record [of ?st ?skb False "[]" demo_env] len drop
    by (simp add: hdr_len_def rx_buf_def)
qed

end
