(* ===== verification/Reader_Bounds.thy ===== *)
theory Reader_Bounds
  imports Tcp_Stream
begin

text \<open>
  Bounds of the reader that hold on every path. Whatever arrives, however far the
  allocator rounds its buffers up and whichever allocations fail, the length the peer
  keeps agrees with the buffer, there is headroom for the synthetic headers, and the
  buffer holds less than one record of the largest size beyond what a single read
  returned: the worker reads only while the record at the front is incomplete, and what
  is left over after a record is shorter than what was there before it. The reader offers
  the socket its whole tailroom and sets no limit of its own, so the bound is in terms of
  what one \<open>kernel_recvmsg\<close> returns, at most the socket's receive buffer.
\<close>

text \<open>No read returns more than \<open>Q\<close> bytes.\<close>

fun event_len :: "recv_event \<Rightarrow> nat" where
  "event_len (Segment bs) = length bs"
| "event_len (Recv_error e) = 0"

definition reads_below :: "nat \<Rightarrow> recv_event list \<Rightarrow> bool" where
  "reads_below Q es = list_all (\<lambda>e. event_len e \<le> Q) es"

definition skb_bounds :: "nat \<Rightarrow> sk_buff \<Rightarrow> bool" where
  "skb_bounds Q skb \<longleftrightarrow> skb_len skb \<le> 65542 + Q \<and> 128 \<le> skb_headroom skb"

definition rx_bounds :: "nat \<Rightarrow> rx_state \<Rightarrow> bool" where
  "rx_bounds Q st \<longleftrightarrow>
     reads_below Q (rx_events st) \<and> expected_len st \<le> 65543 \<and>
     received_len st = length (rx_buf st) \<and>
     (case partial_skb st of None \<Rightarrow> True | Some skb \<Rightarrow> skb_bounds Q skb) \<and>
     (\<forall>d\<in>set (rx_delivered st). 80 \<le> skb_headroom d \<and> skb_len d \<le> 65535)"

lemma discard_bounds [inv_intros]: "rx_bounds Q st \<Longrightarrow> rx_bounds Q (wg_peer_discard_partial_read st)"
  by (simp add: rx_bounds_def wg_peer_discard_partial_read_def rx_buf_def)

lemma alloc_bounds:
  assumes "rx_bounds Q st" "rd_alloc env st = (c, st')"
  shows "rx_bounds Q st'" "c = Go \<Longrightarrow> partial_skb st' \<noteq> None"
  using assms
  by (auto simp: rd_alloc_def rx_bounds_def rx_buf_def skb_bounds_def reader_consts Let_def
      split: option.splits prod.splits)

lemma room_bounds:
  assumes "rx_bounds Q st" "partial_skb st = Some skb" "skb_len skb < 65543"
    "rd_room env skb st = (c, st')"
  shows "rx_bounds Q st'"
    "c = Go \<Longrightarrow> \<exists>skb'. partial_skb st' = Some skb' \<and> skb_len skb' < 65543"
  using assms
  by (auto simp: rd_room_def rx_bounds_def rx_buf_def skb_bounds_def reader_consts Let_def
      wg_peer_discard_partial_read_def split: option.splits prod.splits if_splits)

lemma recvmsg_below:
  assumes "kernel_recvmsg n es = (r, es')" "reads_below Q es"
  shows "reads_below Q es'" "r = Rcvd bs \<Longrightarrow> length bs \<le> Q"
  using assms by (cases "(n, es)" rule: kernel_recvmsg.cases; auto simp: reads_below_def split: if_splits)+

lemma recv_bounds:
  assumes "rx_bounds Q st" "partial_skb st = Some skb" "skb_len skb < 65543" "rd_recv skb st = (c, st')"
  shows "rx_bounds Q st'" "c = Go \<Longrightarrow> partial_skb st' \<noteq> None"
proof -
  obtain r es' where r: "kernel_recvmsg (skb_tailroom skb) (rx_events st) = (r, es')" by force
  have "reads_below Q (rx_events st)" using assms(1) by (simp add: rx_bounds_def)
  note below = recvmsg_below [OF r this]
  show "rx_bounds Q st'" "c = Go \<Longrightarrow> partial_skb st' \<noteq> None"
    using assms r below
    by (auto simp: rd_recv_def rx_bounds_def rx_buf_def skb_bounds_def Let_def skb_put_def
        wg_peer_discard_partial_read_def split: if_splits recv_result.splits)
qed

lemma fill_bounds:
  assumes "rx_bounds Q st" "partial_skb st \<noteq> None" "rd_fill env st = (c, st')"
  shows "rx_bounds Q st'" "c = Go \<Longrightarrow> partial_skb st' \<noteq> None"
proof -
  obtain skb where skb: "partial_skb st = Some skb" using assms(2) by auto
  have short: "skb_len skb < 65543" if "\<not> record_ready st"
    using that assms(1) skb
    by (auto simp: record_ready_def rx_bounds_def rx_buf_def frame_consts split: if_splits)
  obtain c1 st1 where r: "rd_room env skb st = (c1, st1)" by force
  show "rx_bounds Q st'" "c = Go \<Longrightarrow> partial_skb st' \<noteq> None"
  proof -
    have "rx_bounds Q st' \<and> (c = Go \<longrightarrow> partial_skb st' \<noteq> None)"
    proof (cases "record_ready st \<or> c1 = Break")
      case True
      then show ?thesis
        using assms skb short r room_bounds(1) [OF assms(1) skb _ r]
        by (auto simp: rd_fill_def split: if_splits)
    next
      case False
      then have c1: "c1 = Go" and nr: "\<not> record_ready st" by (auto intro: ctl.exhaust [of c1])
      note room = room_bounds [OF assms(1) skb short [OF nr] r]
      obtain skb1 where skb1: "partial_skb st1 = Some skb1" "skb_len skb1 < 65543" using room(2) c1 by auto
      have "rd_recv skb1 st1 = (c, st')" using assms(3) skb r c1 nr skb1 by (simp add: rd_fill_def)
      from recv_bounds [OF room(1) skb1 this] show ?thesis by blast
    qed
    then show "rx_bounds Q st'" "c = Go \<Longrightarrow> partial_skb st' \<noteq> None" by auto
  qed
qed

lemma sync_bounds:
  assumes "rx_bounds Q st" "wg_sync_header st = (b, st')"
  shows "b \<or> received_len st' < 8 \<Longrightarrow> rx_bounds Q st'"
proof (cases "partial_skb st")
  case (Some skb)
  have len: "received_len st = skb_len skb" using assms(1) Some by (simp add: rx_bounds_def rx_buf_def)
  show ?thesis
  proof (cases "sync_scan (skb_data skb) (skb_len skb) 0")
    case None
    then show ?thesis
      using assms Some len
      by (auto simp: wg_sync_header_def rx_bounds_def rx_buf_def skb_bounds_def Let_def frame_consts
          skb_trim_def split: if_splits)
  next
    case (Some j)
    note j = sync_scan_Some [OF this]
    then show ?thesis
      using assms \<open>partial_skb st = Some skb\<close> Some len validity_length(2)
      by (auto simp: wg_sync_header_def rx_bounds_def rx_buf_def skb_bounds_def frame_consts
          split: if_splits)
  qed
next
  case None
  then show ?thesis using assms by (auto simp: wg_sync_header_def)
qed

text \<open>After an accepted header the buffer starts with it.\<close>

definition rx_accepted :: "bool \<Rightarrow> rx_state \<Rightarrow> bool" where
  "rx_accepted fr st \<longleftrightarrow> partial_skb st \<noteq> None \<and> 8 \<le> received_len st \<and>
     wg_check_potential_header_validity (decode_header (rx_buf st)) 8 \<and>
     expected_len st = unat (eh_length (decode_header (rx_buf st))) \<and>
     fr = (eh_flags (decode_header (rx_buf st)) AND WG_TCP_FRAG_FLAG \<noteq> 0)"

lemma accept_bounds:
  assumes "rx_bounds Q st" "partial_skb st = Some skb" "8 \<le> received_len st"
    "wg_check_potential_header_validity (decode_header (skb_data skb)) (received_len st)"
  defines "st' \<equiv> st\<lparr>expected_len := unat (eh_length (decode_header (skb_data skb)))\<rparr>"
  shows "rx_bounds Q st'"
    "rx_accepted (eh_flags (decode_header (skb_data skb)) AND WG_TCP_FRAG_FLAG \<noteq> 0) st'"
  using assms validity_length(2) [OF assms(4)] validity_remaining [of _ "received_len st"]
  by (auto simp: rx_bounds_def rx_accepted_def rx_buf_def)

lemma header_bounds:
  assumes "rx_bounds Q st" "rd_header st = ((c, fr), st')"
  shows "rx_bounds Q st'" "c = Go \<Longrightarrow> rx_accepted fr st'"
proof -
  have "rx_bounds Q st' \<and> (c = Go \<longrightarrow> rx_accepted fr st')"
  proof (cases "partial_skb st")
    case None
    then show ?thesis using assms by (auto simp: rd_header_def)
  next
    case (Some skb)
    show ?thesis
    proof (cases "received_len st < 8 \<or>
        wg_check_potential_header_validity (decode_header (skb_data skb)) (received_len st)")
      case True
      then show ?thesis
        using assms Some accept_bounds [OF assms(1) Some]
        by (auto simp: rd_header_def frame_consts Let_def split: if_splits)
    next
      case False
      obtain b st1 where sync: "wg_sync_header st = (b, st1)" by force
      show ?thesis
      proof (cases b)
        case True
        then have b1: "rx_bounds Q st1" using sync_bounds [OF assms(1) sync] by simp
        then show ?thesis
          using assms(2) Some False sync True accept_bounds [OF b1] discard_bounds [OF b1]
          by (auto simp: rd_header_def frame_consts Let_def split: if_splits option.splits)
      next
        case f: False
        show ?thesis
        proof (cases "partial_skb st1 \<noteq> None \<and> received_len st1 < 8")
          case True
          then show ?thesis
            using assms(2) Some False sync f sync_bounds [OF assms(1) sync]
            by (auto simp: rd_header_def frame_consts Let_def)
        next
          case n: False
          have "rx_bounds Q (wg_peer_discard_partial_read st1)"
            using assms(1) sync f Some False n
            by (auto simp: wg_sync_header_def frame_consts Let_def split: option.splits if_splits)
          then show ?thesis
            using assms(2) Some False sync f n
            by (auto simp: rd_header_def frame_consts Let_def)
        qed
      qed
    qed
  qed
  then show "rx_bounds Q st'" "c = Go \<Longrightarrow> rx_accepted fr st'" by auto
qed

lemma grow_bounds:
  assumes "rx_bounds Q st" "rx_accepted fr st" "partial_skb st = Some skb"
    "rd_grow skb st = (c, st')"
  shows "rx_bounds Q st'" "c = Go \<Longrightarrow> rx_accepted fr st'"
  using assms
  by (auto simp: rd_grow_def rx_bounds_def rx_accepted_def rx_buf_def skb_bounds_def Let_def
      wg_peer_discard_partial_read_def split: option.splits prod.splits if_splits)

lemma fake_headroom:
  assumes "wg_tcp_build_fake_headers cs stale ib src dst sk skb = Inr skb'"
  shows "skb_headroom skb - 48 \<le> skb_headroom skb'"
  using assms
  by (auto simp: wg_tcp_build_fake_headers_def fake_headers4_def fake_headers6_def Let_def
      split: option.splits sum.splits fake_tuple.splits)

lemma restore_len [simp]: "skb_len (rd_restore_frag cs fr fh skb) = skb_len skb"
  by (auto simp: rd_restore_frag_def Let_def split: net_hdr.splits)

lemma restore_headroom [simp]: "skb_headroom (rd_restore_frag cs fr fh skb) = skb_headroom skb"
  by (auto simp: rd_restore_frag_def Let_def split: net_hdr.splits)

lemma leftover_bounds:
  assumes "rd_leftover env skb e n script = (lo, script')" "n \<le> 65542 + Q"
  shows "lo = Left_skb l \<Longrightarrow> skb_bounds Q l \<and> skb_len l = n" "lo = Left_none \<Longrightarrow> n = 0"
  using assms
  by (auto simp: rd_leftover_def Let_def skb_copy_bits_def skb_bounds_def reader_consts skb_put_def
      split: option.splits prod.splits if_splits)

lemma deliver_bounds:
  assumes b: "rx_bounds Q st" and acc: "rx_accepted fr st" and skb: "partial_skb st = Some skb"
    and full: "expected_len st \<le> received_len st" and d: "rd_deliver env fr skb st = (c, st')"
  shows "rx_bounds Q st'"
proof -
  let ?n = "expected_len st" and ?hl = "hdr_len fr"
  have len: "received_len st = skb_len skb" and sb: "skb_bounds Q skb"
      and below: "reads_below Q (rx_events st)" and n: "?n \<le> 65543"
      and del: "\<forall>d\<in>set (rx_delivered st). 80 \<le> skb_headroom d \<and> skb_len d \<le> 65535"
    using b skb by (auto simp: rx_bounds_def rx_buf_def)
  have n_ge: "?hl + 32 \<le> ?n"
    using acc validity_length(3) by (auto simp: rx_accepted_def)
  have n_le: "?n \<le> skb_len skb" using full len by simp
  obtain lo script where lo: "rd_leftover env (skb_pull ?hl skb) (?n - ?hl) (skb_len skb - ?n)
      (rx_allocs st) = (lo, script)" by force
  have cap: "skb_len skb - ?n \<le> 65542 + Q" using sb by (auto simp: skb_bounds_def)
  note lob = leftover_bounds [OF lo cap]
  have head: "128 \<le> skb_headroom (stripped fr ?n skb)" "skb_len (stripped fr ?n skb) \<le> 65535"
    using sb n n_ge by (auto simp: stripped_def skb_bounds_def hdr_len_def min_def split: if_splits)
  have strip: "rx_bounds Q (stripped_state fr ?n skb script st)"
    using sb below n del by (auto simp: rx_bounds_def stripped_state_def rx_buf_def skb_bounds_def)
  let ?fake = "wg_tcp_build_fake_headers (re_csum env) (re_stale env) (re_is_inbound env)
    (re_inbound_source env) (re_inbound_dest env) (re_sk env) (stripped fr ?n skb)"
  note d' = d [unfolded deliver_eq [OF len refl n_ge n_le lo]]
  show ?thesis
  proof (cases "lo = Left_nomem \<or> lo = Left_copy \<or> (\<exists>e. ?fake = Inl e)")
    case True
    then show ?thesis using d' strip discard_bounds [OF strip] by (cases lo) auto
  next
    case False
    then obtain skb4 where skb4: "?fake = Inr skb4" by (cases ?fake) auto
    have "80 \<le> skb_headroom skb4" "skb_len skb4 \<le> 65535"
      using fake_headroom [OF skb4] build_fake_headers_Inr(1) [OF skb4] head by auto
    then show ?thesis
      using d' False skb4 lob below del by (cases lo) (auto simp: rx_bounds_def rx_buf_def)
  qed
qed

lemma body_bounds:
  assumes "rx_bounds Q st" "rx_accepted fr st" "rd_body env fr st = (c, st')"
  shows "rx_bounds Q st'"
proof -
  obtain skb where skb: "partial_skb st = Some skb" using assms(2) by (auto simp: rx_accepted_def)
  obtain c1 st1 where g: "rd_grow skb st = (c1, st1)" by force
  note gb = grow_bounds [OF assms(1,2) skb g]
  show ?thesis
  proof (cases c1)
    case Break
    then show ?thesis using assms(3) skb g gb by (simp add: rd_body_def)
  next
    case Go
    note acc = gb(2) [OF this]
    then obtain skb1 where skb1: "partial_skb st1 = Some skb1" by (auto simp: rx_accepted_def)
    show ?thesis
      using assms(3) skb g gb(1) Go skb1 deliver_bounds [OF gb(1) acc skb1, of env c st']
      by (auto simp: rd_body_def split: if_splits)
  qed
qed

lemma round_bounds:
  assumes "rx_bounds Q st" "rd_round env st = (c, st')"
  shows "rx_bounds Q st'"
proof -
  obtain c1 st1 where a: "rd_alloc env st = (c1, st1)" by force
  obtain c2 st2 where f: "rd_fill env st1 = (c2, st2)" by force
  obtain c3 fr st3 where h: "rd_header st2 = ((c3, fr), st3)" by (metis surj_pair)
  note ab = alloc_bounds [OF assms(1) a]
  show ?thesis
  proof (cases c1)
    case Break
    then show ?thesis using assms(2) a ab by (simp add: rd_round_def)
  next
    case c1: Go
    note fb = fill_bounds [OF ab(1) ab(2) [OF c1] f]
    note hb = header_bounds [OF fb(1) h]
    show ?thesis
    proof (cases "c2 = Go \<and> c3 = Go")
      case True
      then have "rd_body env fr st3 = (c, st')" using assms(2) a f h c1 by (simp add: rd_round_def)
      from body_bounds [OF hb(1) _ this] hb(2) True show ?thesis by simp
    next
      case False
      then show ?thesis
        using assms(2) a f h c1 fb(1) hb(1) by (cases c2; cases c3) (simp_all add: rd_round_def)
    qed
  qed
qed

lemma loop_bounds: "rx_bounds Q st \<Longrightarrow> rx_bounds Q (snd (read_loop env n st))"
proof (induction env n st rule: read_loop.induct)
  case (1 env n st)
  obtain c st1 where r: "rd_round env st = (c, st1)" by force
  note b = round_bounds [OF 1(2) r]
  show ?case
    using r b 1(1) [OF r [symmetric]] by (cases c) (auto simp: read_loop.simps [of env n st])
qed

section \<open>Property\<close>

text \<open>Activations of the worker on one carrier, each with the reads that its socket will
  answer and the outcomes of its allocations.\<close>

fun rx_activations :: "rx_env \<Rightarrow> (recv_event list \<times> alloc_script) list \<Rightarrow> rx_state \<Rightarrow> rx_state" where
  "rx_activations env [] st = st"
| "rx_activations env ((es, script) # acts) st =
     rx_activations env acts
       (snd (read_loop env 0 (st\<lparr>rx_events := rx_events st @ es, rx_allocs := script\<rparr>)))"

lemma arrive_bounds:
  "reads_below Q es \<Longrightarrow> rx_bounds Q st \<Longrightarrow>
   rx_bounds Q (st\<lparr>rx_events := rx_events st @ es, rx_allocs := script\<rparr>)"
  by (simp add: rx_bounds_def reads_below_def rx_buf_def)

lemma activations_bounds:
  "list_all (\<lambda>(es, script). reads_below Q es) acts \<Longrightarrow> rx_bounds Q st \<Longrightarrow>
   rx_bounds Q (rx_activations env acts st)"
proof (induction env acts st rule: rx_activations.induct)
  case (2 env es script acts st)
  have below: "reads_below Q es" "list_all (\<lambda>(es, script). reads_below Q es) acts" using "2.prems"(1) by auto
  show ?case
    using "2.IH" [OF below(2) loop_bounds [OF arrive_bounds [OF below(1) "2.prems"(2)]]] by simp
qed simp



end
