(* ===== verification/Tcp_State.thy ===== *)
theory Tcp_State
  imports Tcp_Frame Net_Types
begin

text \<open>
  The state that the TCP carrier code shares: sockets with their callbacks, the
  wrapper a callback finds in \<open>sk_user_data\<close>, the members of \<open>struct wg_peer\<close> and
  \<open>struct wg_device\<close> that kernel/wg\_tcp.c works on, and the work items of a peer.

  Pointers are identifiers: a socket is a \<open>sock_id\<close> into \<open>socks\<close>, a wrapper an
  \<open>sd_id\<close> into \<open>sdata\<close>, a peer its \<open>p_id\<close>; NULL is \<open>None\<close>. A work item is the delay
  in milliseconds it was last queued with, or \<open>None\<close> when it is not pending.
  Functions run to completion under the locks they take; the code between two
  critical sections of one function that other contexts may interleave with is a
  definition of its own.
\<close>

type_synonym sock_id = nat
type_synonym sd_id = nat
type_synonym peer_id = nat
type_synonym ktime = int
type_synonym work = "nat option"

section \<open>Endpoints\<close>

datatype endpoint =
    Ep_unspec
  | Ep4 u32 u16 u32 int
  | Ep6 addr6 u16 u32 addr6
  | Ep_other u16

text \<open>\<open>Ep4 addr port src4 src_if4\<close> and \<open>Ep6 addr port scope_id src6\<close>.\<close>

fun ep_family :: "endpoint \<Rightarrow> u16" where
  "ep_family Ep_unspec = 0"
| "ep_family (Ep4 _ _ _ _) = AF_INET"
| "ep_family (Ep6 _ _ _ _) = AF_INET6"
| "ep_family (Ep_other f) = f"

fun ep_sockaddr :: "endpoint \<Rightarrow> sockaddr" where
  "ep_sockaddr Ep_unspec = Sa_unspec"
| "ep_sockaddr (Ep4 a p _ _) = Sa_in a p"
| "ep_sockaddr (Ep6 a p s _) = Sa_in6 a p s"
| "ep_sockaddr (Ep_other f) = Sa_other f"

section \<open>Sockets and their callbacks\<close>

datatype tcp_state =
    TCP_ESTABLISHED | TCP_SYN_SENT | TCP_SYN_RECV | TCP_FIN_WAIT1 | TCP_FIN_WAIT2
  | TCP_TIME_WAIT | TCP_CLOSE | TCP_CLOSE_WAIT | TCP_LAST_ACK | TCP_LISTEN | TCP_CLOSING
  | TCP_NEW_SYN_RECV

text \<open>The stack's own callback of a socket, or the module's.\<close>

datatype callback = Cb_stack | Cb_wg

record socket =
  so_sk :: inet_sock
  so_netns :: u32
  so_state :: tcp_state
  so_user_data :: "sd_id option"
  sk_state_change :: callback
  sk_write_space :: callback
  sk_data_ready :: callback
  sk_mark :: u32
  sk_rx_pending :: bool
  sk_writeable :: bool
  so_nospace :: bool
  so_shutdown :: bool
  so_releases :: nat

record wg_socket_data =
  sd_peer :: peer_id
  sd_socket :: sock_id
  sd_inbound :: bool
  original_state_change :: callback
  original_write_space :: callback
  original_data_ready :: callback

record kern =
  socks :: "sock_id \<Rightarrow> socket"
  sdata :: "sd_id \<Rightarrow> wg_socket_data option"
  next_sd :: sd_id

section \<open>Peers\<close>

record wg_peer =
  p_id :: peer_id
  is_dead :: bool
  temp_peer :: bool
  endpoint :: endpoint
  tcp_reply_endpoint :: endpoint
  peer_endpoint :: endpoint
  tx_bytes :: u64
  tcp_connection_id :: u64
  peer_endpoint_set :: bool
  tcp_peer_listen_port :: u16
  peer_socket :: "sock_id option"
  inbound_socket :: "sock_id option"
  outbound_socket :: "sock_id option"
  tcp_outbound_socket_data :: "sd_id option"
  tcp_inbound_socket_data :: "sd_id option"
  tcp_outbound_callbacks_set :: bool
  tcp_inbound_callbacks_set :: bool
  outbound_timestamp :: ktime
  inbound_timestamp :: ktime
  inbound_source :: sockaddr
  inbound_dest :: sockaddr
  outbound_source :: sockaddr
  outbound_dest :: sockaddr
  p_partial_skb :: "sk_buff option"
  p_expected_len :: nat
  p_received_len :: nat
  tcp_retry_scheduled :: bool
  tcp_outbound_remove_scheduled :: bool
  tcp_reconnect_requested :: bool
  tcp_stopping :: bool
  tcp_teardown_quarantined :: bool
  tcp_outbound_remove_socket :: "sock_id option"
  tcp_roaming_connection_id :: u64
  tcp_inbound_remove_scheduled :: bool
  tcp_inbound_remove_socket :: "sock_id option"
  tcp_established :: bool
  tcp_pending :: bool
  tcp_connecting :: bool
  inbound_connected :: bool
  outbound_connected :: bool
  clean_outbound :: bool
  clean_inbound :: bool
  send_queue :: "bytes list"
  tcp_read_wq :: bool
  tcp_read_worker_scheduled :: bool
  tcp_write_wq :: bool
  tcp_write_worker_scheduled :: bool
  tcp_bootstrap_socket :: "sock_id option"
  tcp_promotion_connection_id :: u64
  tcp_promotion_worker_scheduled :: bool
  wk_retry :: work
  wk_outbound_remove :: work
  wk_inbound_remove :: work
  wk_read :: work
  wk_write :: work
  wk_bootstrap :: work
  wk_promotion :: work

section \<open>Devices\<close>

definition WG_TRANSPORT_TCP :: u8 where "WG_TRANSPORT_TCP = 1"

record wg_tcp_socket_list_entry =
  e_tcp_socket :: "sock_id option"
  e_src_addr :: sockaddr
  e_temp_peer :: "peer_id option"
  e_created_at :: ktime
  e_timestamp :: ktime
  e_connection_id :: u64
  e_authenticated :: bool
  e_admission_counted :: bool
  e_initializing :: bool

record wg_tcp_accept_source =
  as_addr4 :: u32
  as_addr6 :: addr6
  as_window_started :: u64
  as_last_seen :: u64
  as_scope_id :: u32
  as_accepts :: u16
  as_family :: u16

record wg_device =
  dev_ifindex :: u32
  netif_running :: bool
  creating_net :: bool
  transport :: u8
  fwmark :: u32
  incoming_port :: u16
  tcp_auth_wq :: bool
  tcp_cleanup_scheduled :: bool
  wk_cleanup :: work
  tcp_connection_list :: "wg_tcp_socket_list_entry list"
  tcp_pending_connections :: nat
  tcp_tracked_connections :: nat
  tcp_connection_sequence :: u64
  tcp_accept_sources :: "wg_tcp_accept_source list"
  tcp_listen_socket4 :: "sock_id option"
  tcp_listen_socket6 :: "sock_id option"
  tcp_listener4_thread :: bool
  tcp_listener6_thread :: bool
  tcp_socket4_ready :: bool
  tcp_socket6_ready :: bool

section \<open>Guards that several functions share\<close>

text \<open>
  The device and peer accept TCP work: \<open>!is_dead && !tcp_stopping &&
  tcp_cleanup_scheduled\<close>.
\<close>

definition tcp_alive :: "wg_device \<Rightarrow> wg_peer \<Rightarrow> bool" where
  "tcp_alive wg p \<longleftrightarrow> \<not> is_dead p \<and> \<not> tcp_stopping p \<and> tcp_cleanup_scheduled wg"

text \<open>No removal of either direction is claimed.\<close>

definition no_removal :: "wg_peer \<Rightarrow> bool" where
  "no_removal p \<longleftrightarrow> \<not> tcp_outbound_remove_scheduled p \<and> \<not> tcp_inbound_remove_scheduled p"

end
