(* ===== verification/Tcp_Admission.thy ===== *)
theory Tcp_Admission
  imports Tcp_State "HOL-Library.Signed_Division"
begin

text \<open>
  Admission of accepted connections before they are authenticated: comparison of
  addresses, the per-source accept rate limiter with its fixed table, and the device's
  list of provisional connections with its counters (\<open>wg_tcp_accept_rate_allow\<close>,
  \<open>wg_add_tcp_socket_to_list\<close>, \<open>wg_claim_tcp_connection\<close> and the functions around them
  in kernel/wg\_tcp.c).
\<close>

section \<open>Addresses\<close>

text \<open>\<open>ipv6_addr_type\<close> reports \<open>IPV6_ADDR_LINKLOCAL\<close> for fe80::/10.\<close>

definition ipv6_linklocal :: "addr6 \<Rightarrow> bool" where
  "ipv6_linklocal a = (drop_bit 118 a = 0x3fa)"

fun wg_sockaddrs_match :: "sockaddr \<Rightarrow> sockaddr \<Rightarrow> bool" where
  "wg_sockaddrs_match (Sa_in a p) (Sa_in b q) = (p = q \<and> a = b)"
| "wg_sockaddrs_match (Sa_in6 a p s) (Sa_in6 b q t) =
     (p = q \<and> a = b \<and> (\<not> ipv6_linklocal a \<or> \<not> ipv6_linklocal b \<or> s = t))"
| "wg_sockaddrs_match _ _ = False"

fun wg_sockaddrs_same_host :: "sockaddr \<Rightarrow> sockaddr \<Rightarrow> bool" where
  "wg_sockaddrs_same_host (Sa_in a _) (Sa_in b _) = (a = b)"
| "wg_sockaddrs_same_host (Sa_in6 a _ s) (Sa_in6 b _ t) = (a = b \<and> (\<not> ipv6_linklocal a \<or> s = t))"
| "wg_sockaddrs_same_host _ _ = False"

text \<open>\<open>sizeof(struct sockaddr_in)\<close> is 16 and \<open>sizeof(struct sockaddr_in6)\<close> is 28.\<close>

definition wg_sockaddr_length_valid :: "sockaddr \<Rightarrow> int \<Rightarrow> bool" where
  "wg_sockaddr_length_valid addr len =
     (if ss_family addr = AF_INET then len \<ge> 16
      else if ss_family addr = AF_INET6 then len \<ge> 28 else False)"

definition wg_endpoints_match :: "endpoint \<Rightarrow> endpoint \<Rightarrow> bool" where
  "wg_endpoints_match a b = wg_sockaddrs_match (ep_sockaddr a) (ep_sockaddr b)"

section \<open>The accept rate limiter\<close>

definition WG_TCP_ACCEPT_SOURCE_SLOTS :: nat where "WG_TCP_ACCEPT_SOURCE_SLOTS = 128"
definition WG_TCP_ACCEPT_BURST :: u16 where "WG_TCP_ACCEPT_BURST = 32"

definition wg_tcp_accept_source_matches :: "wg_tcp_accept_source \<Rightarrow> sockaddr \<Rightarrow> bool" where
  "wg_tcp_accept_source_matches source addr =
     (if as_family source \<noteq> ss_family addr then False
      else case addr of
        Sa_in a _ \<Rightarrow> as_addr4 source = a
      | Sa_in6 a _ s \<Rightarrow> as_addr6 source = a \<and> (\<not> ipv6_linklocal a \<or> as_scope_id source = s)
      | _ \<Rightarrow> False)"

definition wg_tcp_accept_source_set :: "sockaddr \<Rightarrow> u64 \<Rightarrow> wg_tcp_accept_source" where
  "wg_tcp_accept_source_set addr now =
     \<lparr>as_addr4 = (case addr of Sa_in a _ \<Rightarrow> a | _ \<Rightarrow> 0),
      as_addr6 = (case addr of Sa_in6 a _ _ \<Rightarrow> a | _ \<Rightarrow> 0),
      as_window_started = now, as_last_seen = now,
      as_scope_id = (case addr of Sa_in6 a _ s \<Rightarrow> if ipv6_linklocal a then s else 0 | _ \<Rightarrow> 0),
      as_accepts = 1, as_family = ss_family addr\<rparr>"

text \<open>The scan of the table: the matching slot, the first empty one, the least recently seen.\<close>

fun accept_scan ::
  "sockaddr \<Rightarrow> nat \<Rightarrow> wg_tcp_accept_source list \<Rightarrow> nat option \<Rightarrow> (nat \<times> u64) option \<Rightarrow>
   nat option \<times> nat option \<times> (nat \<times> u64) option" where
  "accept_scan addr i [] vacant oldest = (None, vacant, oldest)"
| "accept_scan addr i (c # cs) vacant oldest =
     (if as_family c = 0 then
        accept_scan addr (Suc i) cs (if vacant = None then Some i else vacant) oldest
      else if wg_tcp_accept_source_matches c addr then (Some i, vacant, oldest)
      else accept_scan addr (Suc i) cs vacant
             (case oldest of
                None \<Rightarrow> Some (i, as_last_seen c)
              | Some (j, l) \<Rightarrow>
                  if time_before (as_last_seen c) l then Some (i, as_last_seen c) else oldest))"

text \<open>\<open>hz\<close> is the tick rate: \<open>WG_TCP_ACCEPT_WINDOW\<close> is one second.\<close>

definition wg_tcp_accept_rate_allow :: "u64 \<Rightarrow> u64 \<Rightarrow> sockaddr \<Rightarrow> wg_device \<Rightarrow> bool \<times> wg_device" where
  "wg_tcp_accept_rate_allow hz now addr wg =
     (if ss_family addr \<noteq> AF_INET \<and> ss_family addr \<noteq> AF_INET6 then (False, wg)
      else
        let tab = tcp_accept_sources wg in
        (case accept_scan addr 0 tab None None of
           (None, vacant, oldest) \<Rightarrow>
             let i = (case vacant of Some e \<Rightarrow> e | None \<Rightarrow> (case oldest of Some (j, _) \<Rightarrow> j | None \<Rightarrow> 0))
             in (True, wg\<lparr>tcp_accept_sources := tab[i := wg_tcp_accept_source_set addr now]\<rparr>)
         | (Some i, _, _) \<Rightarrow>
             let source = tab ! i in
             if time_after_eq now (as_window_started source + hz) then
               (True, wg\<lparr>tcp_accept_sources := tab[i := wg_tcp_accept_source_set addr now]\<rparr>)
             else if as_accepts source \<ge> WG_TCP_ACCEPT_BURST then
               (False, wg\<lparr>tcp_accept_sources := tab[i := source\<lparr>as_last_seen := now\<rparr>]\<rparr>)
             else
               (True, wg\<lparr>tcp_accept_sources :=
                  tab[i := source\<lparr>as_accepts := as_accepts source + 1, as_last_seen := now\<rparr>]\<rparr>)))"

section \<open>The list of provisional connections\<close>

definition WG_TCP_MAX_PENDING_CONNECTIONS :: nat where "WG_TCP_MAX_PENDING_CONNECTIONS = 128"
definition WG_TCP_MAX_TRACKED_CONNECTIONS :: nat where "WG_TCP_MAX_TRACKED_CONNECTIONS = 1024"
definition WG_TCP_AUTH_IDLE_TIMEOUT_MS :: int where "WG_TCP_AUTH_IDLE_TIMEOUT_MS = 5000"
definition WG_TCP_AUTH_MAX_LIFETIME_MS :: int where "WG_TCP_AUTH_MAX_LIFETIME_MS = 30000"
definition WG_TCP_CLEANUP_INTERVAL_MS :: nat where "WG_TCP_CLEANUP_INTERVAL_MS = 1000"
definition WG_TCP_MAX_PENDING_PER_SOURCE :: nat where "WG_TCP_MAX_PENDING_PER_SOURCE = 8"

lemmas admission_consts = WG_TCP_MAX_PENDING_CONNECTIONS_def WG_TCP_MAX_TRACKED_CONNECTIONS_def
  WG_TCP_AUTH_IDLE_TIMEOUT_MS_def WG_TCP_AUTH_MAX_LIFETIME_MS_def WG_TCP_CLEANUP_INTERVAL_MS_def
  WG_TCP_MAX_PENDING_PER_SOURCE_def WG_TCP_ACCEPT_SOURCE_SLOTS_def WG_TCP_ACCEPT_BURST_def

definition ktime_ms_delta :: "ktime \<Rightarrow> ktime \<Rightarrow> int" where
  "ktime_ms_delta later earlier = (later - earlier) sdiv 1000000"

definition wg_tcp_pending_from_source_locked :: "wg_device \<Rightarrow> sockaddr \<Rightarrow> nat" where
  "wg_tcp_pending_from_source_locked wg addr =
     length (filter (\<lambda>e. e_admission_counted e \<and> wg_sockaddrs_same_host addr (e_src_addr e))
               (tcp_connection_list wg))"

definition wg_tcp_source_at_capacity :: "wg_device \<Rightarrow> sockaddr \<Rightarrow> bool" where
  "wg_tcp_source_at_capacity wg addr =
     (wg_tcp_pending_from_source_locked wg addr \<ge> WG_TCP_MAX_PENDING_PER_SOURCE)"

text \<open>
  \<open>wg_tcp_release_admission_locked\<close> on one entry: the entry without its reservation and
  the new count of reservations.
\<close>

definition wg_tcp_release_admission_locked ::
  "wg_tcp_socket_list_entry \<Rightarrow> nat \<Rightarrow> wg_tcp_socket_list_entry \<times> nat" where
  "wg_tcp_release_admission_locked entry pending =
     (if \<not> e_admission_counted entry then (entry, pending)
      else (entry\<lparr>e_admission_counted := False\<rparr>, if pending = 0 then 0 else pending - 1))"

text \<open>Apply \<open>f\<close> to the first entry that satisfies \<open>sel\<close>.\<close>

fun update_first ::
  "(wg_tcp_socket_list_entry \<Rightarrow> bool) \<Rightarrow> (wg_tcp_socket_list_entry \<Rightarrow> wg_tcp_socket_list_entry) \<Rightarrow>
   wg_tcp_socket_list_entry list \<Rightarrow> wg_tcp_socket_list_entry list" where
  "update_first sel f [] = []"
| "update_first sel f (e # es) = (if sel e then f e # es else e # update_first sel f es)"

definition wg_tcp_mark_connection_authenticated :: "ktime \<Rightarrow> u64 \<Rightarrow> wg_device \<Rightarrow> wg_device" where
  "wg_tcp_mark_connection_authenticated now connection_id wg =
     (if connection_id = 0 then wg
      else
        (case List.find (\<lambda>e. e_connection_id e = connection_id) (tcp_connection_list wg) of
           None \<Rightarrow> wg
         | Some entry \<Rightarrow>
             wg\<lparr>tcp_connection_list :=
                  update_first (\<lambda>e. e_connection_id e = connection_id)
                    (\<lambda>e. (fst (wg_tcp_release_admission_locked (e\<lparr>e_authenticated := True\<rparr>)
                               (tcp_pending_connections wg)))\<lparr>e_timestamp := now\<rparr>)
                    (tcp_connection_list wg),
                tcp_pending_connections :=
                  snd (wg_tcp_release_admission_locked entry (tcp_pending_connections wg))\<rparr>))"

definition wg_touch_tcp_connection :: "ktime \<Rightarrow> wg_peer \<Rightarrow> wg_device \<Rightarrow> wg_device" where
  "wg_touch_tcp_connection now p wg =
     (if \<not> temp_peer p then wg
      else wg\<lparr>tcp_connection_list :=
        update_first (\<lambda>e. e_temp_peer e = Some (p_id p)) (\<lambda>e. e\<lparr>e_timestamp := now\<rparr>)
          (tcp_connection_list wg)\<rparr>)"

text \<open>
  \<open>wg_finish_tcp_connection_init\<close>. \<open>dead\<close> tells whether a provisional peer is dead; the
  result names the peer to mark dead, if any.
\<close>

definition wg_finish_tcp_connection_init ::
  "(peer_id \<Rightarrow> bool) \<Rightarrow> socket \<Rightarrow> sock_id \<Rightarrow> wg_device \<Rightarrow> wg_device \<times> peer_id option" where
  "wg_finish_tcp_connection_init dead sk s wg =
     (case List.find (\<lambda>e. e_tcp_socket e = Some s) (tcp_connection_list wg) of
        None \<Rightarrow> (wg, None)
      | Some entry \<Rightarrow>
          let cleanup = (so_state sk \<noteq> TCP_ESTABLISHED \<or>
                (case e_temp_peer entry of None \<Rightarrow> True | Some t \<Rightarrow> dead t));
              wg1 = wg\<lparr>tcp_connection_list :=
                update_first (\<lambda>e. e_tcp_socket e = Some s) (\<lambda>e. e\<lparr>e_initializing := False\<rparr>)
                  (tcp_connection_list wg)\<rparr>
          in (if cleanup \<and> tcp_cleanup_scheduled wg then wg1\<lparr>wk_cleanup := Some 0\<rparr> else wg1,
              if cleanup then e_temp_peer entry else None))"

text \<open>
  \<open>wg_add_tcp_socket_to_list\<close>; \<open>name\<close> is the answer of \<open>getname\<close>, an error or an
  address with its length. The result carries the connection identity given to the
  provisional peer, also on the paths that fail after it was assigned.
\<close>

definition wg_add_tcp_socket_to_list ::
  "bool \<Rightarrow> ktime \<Rightarrow> errno + sockaddr \<times> int \<Rightarrow> sock_id \<Rightarrow> peer_id \<Rightarrow> wg_device \<times> kern \<Rightarrow>
   errno option \<times> u64 option \<times> wg_device \<times> kern" where
  "wg_add_tcp_socket_to_list alloc_ok now name s temp wk =
     (case wk of (wg, k) \<Rightarrow>
      if \<not> alloc_ok then (Some ENOMEM, None, wg, k)
      else if (case Option.bind (so_user_data (socks k s)) (sdata k) of
                 None \<Rightarrow> True | Some d \<Rightarrow> sd_peer d \<noteq> temp \<or> \<not> sd_inbound d)
      then (Some EINVAL, None, wg, k)
      else
        let cid = tcp_connection_sequence wg + 1;
            wg1 = wg\<lparr>tcp_connection_sequence := cid\<rparr>
        in
        (case name of
           Inl err \<Rightarrow> (Some err, Some cid, wg1, k)
         | Inr (addr, len) \<Rightarrow>
             if \<not> wg_sockaddr_length_valid addr len then (Some EINVAL, Some cid, wg1, k)
             else if \<not> tcp_cleanup_scheduled wg1 then (Some ESHUTDOWN, Some cid, wg1, k)
             else if \<not> tcp_cleanup_scheduled wg1 \<or>
                     tcp_tracked_connections wg1 \<ge> WG_TCP_MAX_TRACKED_CONNECTIONS \<or>
                     tcp_pending_connections wg1 \<ge> WG_TCP_MAX_PENDING_CONNECTIONS \<or>
                     wg_tcp_pending_from_source_locked wg1 addr \<ge> WG_TCP_MAX_PENDING_PER_SOURCE
             then (Some ENOSPC, Some cid, wg1, k)
             else
               (None, Some cid,
                wg1\<lparr>tcp_connection_list := tcp_connection_list wg1 @
                       [\<lparr>e_tcp_socket = Some s, e_src_addr = addr, e_temp_peer = Some temp,
                         e_created_at = now, e_timestamp = now, e_connection_id = cid,
                         e_authenticated = False, e_admission_counted = True,
                         e_initializing = True\<rparr>],
                    tcp_pending_connections := Suc (tcp_pending_connections wg1),
                    tcp_tracked_connections := Suc (tcp_tracked_connections wg1),
                    wk_cleanup := Some 0\<rparr>,
                k\<lparr>socks := (socks k)(s := (socks k s)\<lparr>sk_mark := fwmark wg1\<rparr>)\<rparr>)))"

text \<open>Which entry \<open>wg_claim_tcp_connection\<close> takes: by socket, and for cleanup only stale ones.\<close>

definition claimable ::
  "(peer_id \<Rightarrow> bool) \<Rightarrow> ktime \<Rightarrow> sock_id option \<Rightarrow> bool \<Rightarrow> wg_tcp_socket_list_entry \<Rightarrow> bool" where
  "claimable dead now pending_socket cleanup_only entry \<longleftrightarrow>
     \<not> (pending_socket \<noteq> None \<and> e_tcp_socket entry \<noteq> pending_socket) \<and>
     \<not> (cleanup_only \<and> e_initializing entry) \<and>
     \<not> (cleanup_only \<and>
        (case e_temp_peer entry of None \<Rightarrow> False | Some t \<Rightarrow> \<not> dead t) \<and>
        (e_authenticated entry \<or>
         (ktime_ms_delta now (e_timestamp entry) < WG_TCP_AUTH_IDLE_TIMEOUT_MS \<and>
          ktime_ms_delta now (e_created_at entry) < WG_TCP_AUTH_MAX_LIFETIME_MS)))"

fun remove_first :: "('a \<Rightarrow> bool) \<Rightarrow> 'a list \<Rightarrow> 'a list" where
  "remove_first sel [] = []"
| "remove_first sel (e # es) = (if sel e then es else e # remove_first sel es)"

definition wg_claim_tcp_connection ::
  "(peer_id \<Rightarrow> bool) \<Rightarrow> ktime \<Rightarrow> sock_id option \<Rightarrow> bool \<Rightarrow> wg_device \<Rightarrow>
   wg_tcp_socket_list_entry option \<times> wg_device" where
  "wg_claim_tcp_connection dead now pending_socket cleanup_only wg =
     (case List.find (claimable dead now pending_socket cleanup_only) (tcp_connection_list wg) of
        None \<Rightarrow> (None, wg)
      | Some entry \<Rightarrow>
          let (entry1, pending) = wg_tcp_release_admission_locked entry (tcp_pending_connections wg)
          in (Some entry1,
              wg\<lparr>tcp_pending_connections := pending,
                 tcp_tracked_connections :=
                   (if tcp_tracked_connections wg = 0 then 0 else tcp_tracked_connections wg - 1),
                 tcp_connection_list :=
                   remove_first (claimable dead now pending_socket cleanup_only)
                     (tcp_connection_list wg)\<rparr>))"

text \<open>
  The claiming loop of \<open>wg_tcp_cleanup_worker\<close> and \<open>wg_destruct_tcp_connection_list\<close>: the
  entries taken off the list, in order.
\<close>

lemma remove_first_length: "\<exists>x\<in>set xs. sel x \<Longrightarrow> Suc (length (remove_first sel xs)) = length xs"
  by (induction xs) auto

lemma claim_shrinks:
  assumes "wg_claim_tcp_connection dead now ps co wg = (Some e, wg')"
  shows "length (tcp_connection_list wg') < length (tcp_connection_list wg)"
proof -
  let ?sel = "claimable dead now ps co" and ?es = "tcp_connection_list wg"
  obtain x where "List.find ?sel ?es = Some x"
    using assms by (auto simp: wg_claim_tcp_connection_def split: option.splits)
  then have "\<exists>x\<in>set ?es. ?sel x" by (auto simp: find_Some_iff)
  from remove_first_length [OF this] assms \<open>List.find ?sel ?es = Some x\<close>
  show ?thesis by (auto simp: wg_claim_tcp_connection_def Let_def split: prod.splits)
qed

function claim_all ::
  "(peer_id \<Rightarrow> bool) \<Rightarrow> ktime \<Rightarrow> bool \<Rightarrow> wg_device \<Rightarrow> wg_tcp_socket_list_entry list \<times> wg_device" where
  "claim_all dead now cleanup_only wg =
     (case wg_claim_tcp_connection dead now None cleanup_only wg of
        (None, wg') \<Rightarrow> ([], wg')
      | (Some entry, wg') \<Rightarrow>
          (case claim_all dead now cleanup_only wg' of (es, wg'') \<Rightarrow> (entry # es, wg'')))"
  by pat_completeness auto
termination
  by (relation "measure (\<lambda>(_, _, _, wg). length (tcp_connection_list wg))")
    (auto intro: claim_shrinks dest: sym)

declare claim_all.simps [simp del]

definition wg_tcp_cleanup_worker ::
  "(peer_id \<Rightarrow> bool) \<Rightarrow> ktime \<Rightarrow> wg_device \<Rightarrow> wg_tcp_socket_list_entry list \<times> wg_device" where
  "wg_tcp_cleanup_worker dead now wg =
     (case claim_all dead now True (wg\<lparr>wk_cleanup := None\<rparr>) of
        (es, wg') \<Rightarrow>
          (es, if tcp_connection_list wg' \<noteq> [] \<and> tcp_cleanup_scheduled wg'
               then wg'\<lparr>wk_cleanup := Some WG_TCP_CLEANUP_INTERVAL_MS\<rparr> else wg'))"

definition wg_destruct_tcp_connection_list ::
  "(peer_id \<Rightarrow> bool) \<Rightarrow> ktime \<Rightarrow> wg_device \<Rightarrow> wg_tcp_socket_list_entry list \<times> wg_device" where
  "wg_destruct_tcp_connection_list dead now wg = claim_all dead now False wg"

end
