(* ===== verification/Tcp_Writer.thy ===== *)
theory Tcp_Writer
  imports Tcp_State
begin

text \<open>
  The send side of the TCP carrier: scheduling and the queue
  (\<open>wg_tcp_schedule_write_locked\<close>, \<open>wg_tcp_enqueue_frame\<close>,
  \<open>wg_socket_send_skb_to_peer\<close>) and the serial writer (\<open>wg_tcp_send_frame\<close>,
  \<open>wg_tcp_fail_exact_socket\<close>, \<open>wg_tcp_write_worker\<close>). What the socket does with
  each \<open>kernel_sendmsg\<close> is given as a list: it takes up to \<open>n\<close> of the offered bytes,
  it reports a count that has nothing to do with them, or it fails; when the list is used
  up the socket is full and answers \<open>EAGAIN\<close>. \<open>wr_wire\<close> collects the bytes that the
  socket took.
\<close>

section \<open>Queueing\<close>

definition wg_tcp_schedule_write_locked :: "wg_device \<Rightarrow> wg_peer \<Rightarrow> wg_peer" where
  "wg_tcp_schedule_write_locked wg p =
     (if tcp_alive wg p \<and> no_removal p \<and> peer_socket p \<noteq> None \<and> tcp_established p \<and>
         tcp_write_wq p \<and> \<not> tcp_write_worker_scheduled p
      then p\<lparr>tcp_write_worker_scheduled := True, wk_write := Some 0\<rparr>
      else p)"

definition wg_tcp_schedule_write :: "wg_device \<Rightarrow> wg_peer \<Rightarrow> wg_peer" where
  "wg_tcp_schedule_write wg p = wg_tcp_schedule_write_locked wg p"

text \<open>\<open>tcp_connected\<close>: the carrier takes frames.\<close>

definition carrier_up :: "wg_device \<Rightarrow> wg_peer \<Rightarrow> bool" where
  "carrier_up wg p \<longleftrightarrow>
     tcp_alive wg p \<and> peer_socket p \<noteq> None \<and> tcp_established p \<and> no_removal p"

definition wg_tcp_enqueue_frame :: "wg_tcp_test \<Rightarrow> wg_device \<Rightarrow> bytes \<Rightarrow> wg_peer \<Rightarrow> errno option \<times> wg_peer" where
  "wg_tcp_enqueue_frame t wg frame p =
     (if is_dead p \<or> tcp_stopping p \<or> \<not> tcp_cleanup_scheduled wg \<or>
         transport wg \<noteq> WG_TRANSPORT_TCP \<or> peer_socket p = None \<or> \<not> tcp_established p \<or>
         tcp_outbound_remove_scheduled p \<or> tcp_inbound_remove_scheduled p
      then (Some ENOTCONN, p)
      else if length (send_queue p) \<ge> wg_tcp_test_effective_queue_limit t
      then (Some ENOBUFS, p)
      else (None, wg_tcp_schedule_write_locked wg (p\<lparr>send_queue := send_queue p @ [frame]\<rparr>)))"

text \<open>
  \<open>wg_socket_send_skb_to_peer\<close>. For the UDP transport the packet goes to
  \<open>wg_socket_send_skb_to_endpoint\<close>, whose answer is the argument \<open>udp_ret\<close>;
  \<open>alloc_ok\<close> and \<open>copy_ok\<close> are those of \<open>wg_tcp_build_frame\<close>.
\<close>

definition wg_socket_send_skb_to_peer ::
  "wg_tcp_test \<Rightarrow> bool \<Rightarrow> bool \<Rightarrow> errno option \<Rightarrow> wg_device \<Rightarrow> sk_buff option \<Rightarrow> wg_peer \<Rightarrow>
   errno option \<times> wg_peer" where
  "wg_socket_send_skb_to_peer t alloc_ok copy_ok udp_ret wg skb_opt p =
     (case skb_opt of
        None \<Rightarrow> (Some ENOMEM, p)
      | Some skb \<Rightarrow>
          let (ret, p') =
            (if transport wg = WG_TRANSPORT_TCP then
               (if carrier_up wg p then
                  (case wg_tcp_build_frame t alloc_ok copy_ok skb of
                     Inl e \<Rightarrow> (Some e, p)
                   | Inr frame \<Rightarrow> wg_tcp_enqueue_frame t wg frame p)
                else
                  (Some ENOTCONN,
                   if tcp_alive wg p \<and> transport wg = WG_TRANSPORT_TCP \<and> peer_endpoint_set p \<and>
                      \<not> tcp_retry_scheduled p \<and> \<not> tcp_outbound_remove_scheduled p
                   then p\<lparr>tcp_retry_scheduled := True, wk_retry := Some 0\<rparr> else p))
             else (udp_ret, p))
          in (ret, if ret = None then p'\<lparr>tx_bytes := tx_bytes p' + of_nat (skb_len skb)\<rparr> else p'))"

section \<open>The writer\<close>

datatype send_event = Takes nat | Misreports nat | Fails errno

datatype send_result = Sent nat | Send_err errno

fun kernel_sendmsg :: "bytes \<Rightarrow> send_event list \<Rightarrow> send_result \<times> bytes \<times> send_event list" where
  "kernel_sendmsg offered [] = (Send_err EAGAIN, [], [])"
| "kernel_sendmsg offered (Takes n # es) =
     (Sent (min n (length offered)), take n offered, es)"
| "kernel_sendmsg offered (Misreports n # es) = (Sent n, offered, es)"
| "kernel_sendmsg offered (Fails e # es) = (Send_err e, [], es)"

text \<open>One injected \<open>EPIPE\<close> on the selected carrier.\<close>

definition wg_tcp_test_take_fatal_send :: "wg_tcp_test \<Rightarrow> wg_device \<Rightarrow> socket \<Rightarrow> bool \<times> wg_tcp_test" where
  "wg_tcp_test_take_fatal_send t wg s =
     (if fault_injection t \<and> test_fail_next_send t = 1 \<and>
         test_fail_send_netns t = so_netns s \<and> test_fail_send_ifindex t = dev_ifindex wg \<and>
         sk_family (so_sk s) = AF_INET \<and>
         test_fail_send_local_ipv4 t = inet_saddr (so_sk s) \<and>
         test_fail_send_source_port t = ucast (inet_sport (so_sk s)) \<and>
         test_fail_send_remote_ipv4 t = inet_daddr (so_sk s) \<and>
         test_fail_send_remote_port t = ucast (inet_dport (so_sk s))
      then (True, t\<lparr>test_fail_next_send := 0\<rparr>) else (False, t))"

text \<open>
  The bytes offered to the socket are the first \<open>wg_tcp_test_send_len\<close> of the frame;
  the third component of the result is what the socket took.
\<close>

definition wg_tcp_send_frame ::
  "wg_tcp_test \<Rightarrow> wg_device \<Rightarrow> socket \<Rightarrow> bytes \<Rightarrow> send_event list \<Rightarrow>
   send_result \<times> bytes \<times> wg_tcp_test \<times> send_event list" where
  "wg_tcp_send_frame t wg s frame script =
     (let send_len = wg_tcp_test_send_len t (length frame);
          (fatal, t') = wg_tcp_test_take_fatal_send t wg s
      in if fatal then (Send_err EPIPE, [], t', script)
         else let (r, taken, script') = kernel_sendmsg (take send_len frame) script
              in (r, taken, t', script'))"

definition wg_tcp_arm_write_space :: "sock_id \<Rightarrow> kern \<Rightarrow> kern" where
  "wg_tcp_arm_write_space s k = k\<lparr>socks := (socks k)(s := (socks k s)\<lparr>so_nospace := True\<rparr>)\<rparr>"

text \<open>The result's second component: the device's cleanup work is queued at once.\<close>

definition wg_tcp_fail_exact_socket :: "wg_device \<Rightarrow> sock_id \<Rightarrow> wg_peer \<Rightarrow> wg_peer \<times> bool" where
  "wg_tcp_fail_exact_socket wg s p =
     (if peer_socket p \<noteq> Some s then (p, False)
      else if temp_peer p then
        (if inbound_socket p \<noteq> Some s then (p, False)
         else (p\<lparr>is_dead := True\<rparr>, tcp_cleanup_scheduled wg))
      else if is_dead p \<or> tcp_stopping p \<or> \<not> tcp_cleanup_scheduled wg \<or>
              transport wg \<noteq> WG_TRANSPORT_TCP \<or> outbound_socket p \<noteq> Some s then (p, False)
      else if tcp_outbound_remove_scheduled p \<and> tcp_outbound_remove_socket p \<noteq> Some s then (p, False)
      else
        let p1 = p\<lparr>outbound_timestamp := 0, outbound_connected := False, tcp_pending := False,
                   tcp_established := False, tcp_reconnect_requested := True\<rparr>
        in if \<not> tcp_connecting p1 \<and> \<not> tcp_outbound_remove_scheduled p1
           then (p1\<lparr>tcp_outbound_remove_scheduled := True, tcp_outbound_remove_socket := Some s,
                     wk_outbound_remove := Some 0\<rparr>, False)
           else (p1, False))"

record wr_state =
  wr_peer :: wg_peer
  wr_kern :: kern
  wr_test :: wg_tcp_test
  wr_script :: "send_event list"
  wr_wire :: bytes
  wr_cleanup :: bool

text \<open>The socket is beyond use: the frame is dropped and the exact socket is failed.\<close>

definition wr_fail :: "wg_device \<Rightarrow> sock_id \<Rightarrow> wr_state \<Rightarrow> wr_state" where
  "wr_fail wg s st =
     (case wg_tcp_fail_exact_socket wg s (wr_peer st) of
        (p, c) \<Rightarrow> st\<lparr>wr_peer := p, wr_cleanup := wr_cleanup st \<or> c\<rparr>)"

text \<open>The frame, or its unsent suffix, goes back to the head of the queue.\<close>

definition wr_requeue :: "sock_id \<Rightarrow> bytes \<Rightarrow> wr_state \<Rightarrow> wr_state" where
  "wr_requeue s rest st =
     st\<lparr>wr_peer := (wr_peer st)\<lparr>send_queue := rest # send_queue (wr_peer st)\<rparr>,
        wr_kern := wg_tcp_arm_write_space s (wr_kern st)\<rparr>"

text \<open>One round of the writer's loop on a dequeued frame; the flag says whether to go on.\<close>

definition wr_round :: "wg_device \<Rightarrow> sock_id \<Rightarrow> bytes \<Rightarrow> wr_state \<Rightarrow> bool \<times> wr_state" where
  "wr_round wg s skb st =
     (case wg_tcp_send_frame (wr_test st) wg (socks (wr_kern st) s) skb (wr_script st) of
        (r, taken, t', script') \<Rightarrow>
          let st1 = st\<lparr>wr_test := t', wr_script := script', wr_wire := wr_wire st @ taken\<rparr> in
          (case r of
             Sent sent \<Rightarrow>
               if sent > 0 then
                 (if sent > length skb then (False, wr_fail wg s st1)
                  else if drop sent skb \<noteq> [] then (False, wr_requeue s (drop sent skb) st1)
                  else (True, st1))
               else (False, wr_fail wg s st1)
           | Send_err e \<Rightarrow>
               if e = EAGAIN then (False, wr_requeue s skb st1)
               else (False, wr_fail wg s st1)))"

lemma wr_round_queue:
  assumes "wr_round wg s skb st = (True, st')"
  shows "wr_peer st' = wr_peer st" "wr_kern st' = wr_kern st"
  using assms by (auto simp: wr_round_def Let_def split: prod.splits send_result.splits if_splits)

function write_loop :: "wg_device \<Rightarrow> sock_id \<Rightarrow> wr_state \<Rightarrow> wr_state" where
  "write_loop wg s st =
     (case send_queue (wr_peer st) of
        [] \<Rightarrow> st
      | skb # q \<Rightarrow>
          (case wr_round wg s skb (st\<lparr>wr_peer := (wr_peer st)\<lparr>send_queue := q\<rparr>\<rparr>) of
             (False, st') \<Rightarrow> st'
           | (True, st') \<Rightarrow> write_loop wg s st'))"
  by pat_completeness auto
termination
  by (relation "measure (\<lambda>(_, _, st). length (send_queue (wr_peer st)))")
    (auto dest!: sym [of "(True, _)"] wr_round_queue(1))

declare write_loop.simps [simp del]

text \<open>The tail of the worker: give up the claim and take it again if there is work.\<close>

definition write_out :: "wg_device \<Rightarrow> sock_id option \<Rightarrow> kern \<Rightarrow> wg_peer \<Rightarrow> wg_peer" where
  "write_out wg pinned k p =
     (let p1 = p\<lparr>tcp_write_worker_scheduled := False\<rparr> in
      case pinned of
        None \<Rightarrow> p1
      | Some s \<Rightarrow>
          if tcp_alive wg p1 \<and> no_removal p1 \<and> peer_socket p1 = Some s \<and> tcp_established p1 \<and>
             tcp_write_wq p1 \<and> send_queue p1 \<noteq> [] \<and> sk_writeable (socks k s)
          then p1\<lparr>tcp_write_worker_scheduled := True, wk_write := Some 0\<rparr> else p1)"

text \<open>
  \<open>wg_tcp_write_worker\<close>. \<open>slept\<close> is what other contexts do to the peer while an
  injected delay lasts.
\<close>

definition wg_tcp_write_worker :: "wg_device \<Rightarrow> (wg_peer \<Rightarrow> wg_peer) \<Rightarrow> wr_state \<Rightarrow> wr_state" where
  "wg_tcp_write_worker wg slept st0 =
     (let st = st0\<lparr>wr_peer := (wr_peer st0)\<lparr>wk_write := None\<rparr>\<rparr>;
          p = wr_peer st;
          pinned = (if tcp_alive wg p \<and> no_removal p \<and> tcp_established p then peer_socket p else None)
      in
      case pinned of
        None \<Rightarrow> st\<lparr>wr_peer := write_out wg None (wr_kern st) p\<rparr>
      | Some s \<Rightarrow>
          let (delay, t) = wg_tcp_test_take_write_delay_ms (wr_test st);
              st1 = st\<lparr>wr_test := t, wr_peer := (if delay \<noteq> 0 then slept p else p)\<rparr>;
              p1 = wr_peer st1
          in
          if delay \<noteq> 0 \<and> \<not> (tcp_alive wg p1 \<and> no_removal p1 \<and> peer_socket p1 = Some s \<and> tcp_established p1)
          then st1\<lparr>wr_peer := write_out wg None (wr_kern st1) p1\<rparr>
          else let st2 = write_loop wg s st1
               in st2\<lparr>wr_peer := write_out wg (Some s) (wr_kern st2) (wr_peer st2)\<rparr>)"

section \<open>The stream is never reframed\<close>

text \<open>The socket keeps its promises: it takes bytes or is full.\<close>

fun soft_event :: "send_event \<Rightarrow> bool" where
  "soft_event (Takes n) = (n > 0)"
| "soft_event (Misreports _) = False"
| "soft_event (Fails e) = (e = EAGAIN)"

definition wr_stream :: "wr_state \<Rightarrow> bytes" where
  "wr_stream st = wr_wire st @ concat (send_queue (wr_peer st))"

definition wr_fair :: "wr_state \<Rightarrow> bool" where
  "wr_fair st \<longleftrightarrow> list_all soft_event (wr_script st) \<and> [] \<notin> set (send_queue (wr_peer st)) \<and>
     \<not> (fault_injection (wr_test st) \<and> test_fail_next_send (wr_test st) = 1)"

lemma send_frame_soft:
  assumes "list_all soft_event script" "skb \<noteq> []" "\<not> (fault_injection t \<and> test_fail_next_send t = 1)"
    and "wg_tcp_send_frame t wg s skb script = (r, taken, t', script')"
  shows "t' = t \<and> list_all soft_event script' \<and>
    (case r of Sent n \<Rightarrow> 0 < n \<and> n \<le> length skb \<and> taken = take n skb
             | Send_err e \<Rightarrow> e = EAGAIN \<and> taken = [])"
proof -
  let ?o = "take (wg_tcp_test_send_len t (length skb)) skb"
  have off: "?o \<noteq> []" "length ?o \<le> length skb"
    using assms(2) by (auto simp: wg_tcp_test_send_len_def)
  have k: "kernel_sendmsg ?o script = (r, taken, script')" "t' = t"
    using assms(3,4)
    by (auto simp: wg_tcp_send_frame_def wg_tcp_test_take_fatal_send_def Let_def split: prod.splits)
  show ?thesis
  proof (cases script)
    case Nil
    then show ?thesis using k assms(1) by auto
  next
    case (Cons e es)
    then show ?thesis
      using k assms(1,2) off by (cases e) (auto simp: min_def)
  qed
qed

lemma wr_round_stream:
  assumes "wr_fair st" "skb \<noteq> []" "wr_round wg s skb st = (b, st')"
  shows "wr_fair st' \<and> wr_stream st' = wr_wire st @ skb @ concat (send_queue (wr_peer st)) \<and>
    (b \<or> send_queue (wr_peer st') \<noteq> [] \<and> so_nospace (socks (wr_kern st') s)) \<and>
    wr_peer st'\<lparr>send_queue := []\<rparr> = wr_peer st\<lparr>send_queue := []\<rparr>"
proof -
  obtain r taken t' script' where r:
    "wg_tcp_send_frame (wr_test st) wg (socks (wr_kern st) s) skb (wr_script st) = (r, taken, t', script')"
    by (metis surj_pair)
  have f: "list_all soft_event (wr_script st)"
    "\<not> (fault_injection (wr_test st) \<and> test_fail_next_send (wr_test st) = 1)"
    using assms(1) by (auto simp: wr_fair_def)
  note soft = send_frame_soft [OF f(1) assms(2) f(2) r]
  show ?thesis
  proof (cases r)
    case (Sent n)
    then have "take n skb @ drop n skb = skb" "0 < n" "n \<le> length skb" "taken = take n skb"
      using soft by auto
    then show ?thesis
      using assms soft Sent r
      by (auto simp: wr_round_def wr_requeue_def wr_stream_def wr_fair_def wg_tcp_arm_write_space_def
          Let_def split: if_splits)
  next
    case (Send_err e)
    then show ?thesis
      using assms soft r
      by (auto simp: wr_round_def wr_requeue_def wr_stream_def wr_fair_def wg_tcp_arm_write_space_def
          Let_def)
  qed
qed

lemma write_loop_stream:
  "wr_fair st \<Longrightarrow> wr_fair (write_loop wg s st) \<and> wr_stream (write_loop wg s st) = wr_stream st \<and>
   (send_queue (wr_peer (write_loop wg s st)) \<noteq> [] \<longrightarrow>
      so_nospace (socks (wr_kern (write_loop wg s st)) s)) \<and>
   wr_peer (write_loop wg s st)\<lparr>send_queue := []\<rparr> = wr_peer st\<lparr>send_queue := []\<rparr>"
proof (induction wg s st rule: write_loop.induct)
  case (1 wg s st)
  show ?case
  proof (cases "send_queue (wr_peer st)")
    case Nil
    then show ?thesis using 1(2) by (subst (1 2 3 4 5) write_loop.simps) simp
  next
    case (Cons skb q)
    let ?st0 = "st\<lparr>wr_peer := (wr_peer st)\<lparr>send_queue := q\<rparr>\<rparr>"
    obtain b st' where r: "wr_round wg s skb ?st0 = (b, st')" by force
    have "wr_fair ?st0" "skb \<noteq> []" using 1(2) Cons by (auto simp: wr_fair_def)
    note step = wr_round_stream [OF this r]
    have st0: "wr_stream st' = wr_stream st" "wr_peer st'\<lparr>send_queue := []\<rparr> = wr_peer st\<lparr>send_queue := []\<rparr>"
      using step Cons by (simp_all add: wr_stream_def)
    have unf: "write_loop wg s st = (if b then write_loop wg s st' else st')"
      using Cons r by (subst write_loop.simps) (simp split: bool.splits)
    show ?thesis
      using 1(1) [OF Cons r [symmetric]] step st0 by (cases b) (simp_all add: unf)
  qed
qed

lemma write_out_keeps [simp]:
  "send_queue (write_out wg pinned k p) = send_queue p"
  by (simp add: write_out_def Let_def split: option.splits)

lemma take_delay_keeps:
  assumes "wg_tcp_test_take_write_delay_ms t = (d, t')"
  shows "fault_injection t' = fault_injection t" "test_fail_next_send t' = test_fail_next_send t"
  using assms by (auto simp: wg_tcp_test_take_write_delay_ms_def split: if_splits)

lemma write_worker_stream:
  assumes "wr_fair st"
  shows "wr_fair (wg_tcp_write_worker wg (\<lambda>p. p) st) \<and>
    wr_stream (wg_tcp_write_worker wg (\<lambda>p. p) st) = wr_stream st"
proof -
  let ?st1 = "\<lambda>t. st\<lparr>wr_test := t, wr_peer := (wr_peer st)\<lparr>wk_write := None\<rparr>\<rparr>"
  obtain d t where d: "wg_tcp_test_take_write_delay_ms (wr_test st) = (d, t)" by force
  have f: "wr_fair (?st1 t)" "wr_stream (?st1 t) = wr_stream st"
    using assms take_delay_keeps [OF d] by (auto simp: wr_fair_def wr_stream_def)
  note loop = write_loop_stream [OF f(1)]
  show ?thesis
    using assms loop f d
    by (auto simp: wg_tcp_write_worker_def Let_def wr_fair_def wr_stream_def split: option.splits)
qed

section \<open>Properties\<close>

text \<open>A history of the send side: frames offered to the queue and activations of the writer.\<close>

datatype tx_op = Tx_enqueue bytes | Tx_write "send_event list"

fun tx_step :: "wg_device \<Rightarrow> tx_op \<Rightarrow> wr_state \<times> bytes list \<Rightarrow> wr_state \<times> bytes list" where
  "tx_step wg (Tx_enqueue f) (st, accepted) =
     (case wg_tcp_enqueue_frame (wr_test st) wg f (wr_peer st) of
        (ret, p) \<Rightarrow> (st\<lparr>wr_peer := p\<rparr>, if ret = None then accepted @ [f] else accepted))"
| "tx_step wg (Tx_write es) (st, accepted) =
     (wg_tcp_write_worker wg (\<lambda>p. p) (st\<lparr>wr_script := es\<rparr>), accepted)"

fun soft_op :: "tx_op \<Rightarrow> bool" where
  "soft_op (Tx_enqueue f) = (f \<noteq> [])"
| "soft_op (Tx_write es) = list_all soft_event es"

lemma schedule_write_queue [simp]:
  "send_queue (wg_tcp_schedule_write_locked wg p) = send_queue p"
  by (simp add: wg_tcp_schedule_write_locked_def)

lemma tx_step_stream:
  assumes "wr_fair st" "soft_op oper" "tx_step wg oper (st, acc) = (st', acc')"
    and "wr_stream st = concat acc"
  shows "wr_fair st' \<and> wr_stream st' = concat acc'"
proof (cases oper)
  case (Tx_enqueue f)
  then show ?thesis
    using assms
    by (auto simp: wg_tcp_enqueue_frame_def wr_fair_def wr_stream_def split: prod.splits if_splits)
next
  case (Tx_write es)
  have "wr_fair (st\<lparr>wr_script := es\<rparr>)" using assms(1,2) Tx_write by (simp add: wr_fair_def)
  from write_worker_stream [OF this] show ?thesis
    using assms(3,4) Tx_write by (auto simp: wr_stream_def)
qed

text \<open>C9. Stream integrity of the send side: through any history of accepted and refused
  frames and of writer activations, with any short writes and full socket buffers, the
  bytes on the wire followed by the bytes still queued are exactly the accepted frames
  in their order. No frame is reordered, repeated, dropped or reframed.\<close>

theorem writer_stream_integrity:
  assumes "list_all soft_op ops" "wr_fair st0" "wr_stream st0 = concat acc0"
    and "fold (tx_step wg) ops (st0, acc0) = (st, accepted)"
  shows "wr_wire st @ concat (send_queue (wr_peer st)) = concat accepted"
proof -
  have "wr_stream st = concat accepted"
    using assms
  proof (induction ops arbitrary: st0 acc0)
    case (Cons oper ops)
    obtain st1 acc1 where s: "tx_step wg oper (st0, acc0) = (st1, acc1)" by force
    from tx_step_stream [OF Cons.prems(2) _ s Cons.prems(3)] Cons.prems(1)
    have "wr_fair st1" "wr_stream st1 = concat acc1" by auto
    with Cons.IH [of st1 acc1] Cons.prems s show ?case by simp
  qed simp
  then show ?thesis by (simp add: wr_stream_def)
qed

text \<open>A connected peer on a running device, for the examples.\<close>

definition demo_sock :: socket where
  "demo_sock = \<lparr>so_sk = \<lparr>sk_family = AF_INET, inet_saddr = 0x0a000001, inet_sport = 40000,
       inet_daddr = 0x0a000002, inet_dport = 51820, sk_v6_saddr = 0, sk_v6_daddr = 0, sk_bound_dev_if = 0\<rparr>,
     so_netns = 1, so_state = TCP_ESTABLISHED, so_user_data = None, sk_state_change = Cb_stack,
     sk_write_space = Cb_stack, sk_data_ready = Cb_stack, sk_mark = 0, sk_rx_pending = False,
     sk_writeable = False, so_nospace = False, so_shutdown = False, so_releases = 0\<rparr>"

definition demo_kern :: kern where
  "demo_kern = \<lparr>socks = (\<lambda>_. demo_sock), sdata = (\<lambda>_. None), next_sd = 0\<rparr>"

definition demo_dev :: wg_device where
  "demo_dev = \<lparr>dev_ifindex = 3, netif_running = True, creating_net = True, transport = WG_TRANSPORT_TCP,
     fwmark = 0, incoming_port = 51820, tcp_auth_wq = True, tcp_cleanup_scheduled = True,
     wk_cleanup = None, tcp_connection_list = [], tcp_pending_connections = 0,
     tcp_tracked_connections = 0, tcp_connection_sequence = 0, tcp_accept_sources = [],
     tcp_listen_socket4 = None, tcp_listen_socket6 = None, tcp_listener4_thread = False,
     tcp_listener6_thread = False, tcp_socket4_ready = False, tcp_socket6_ready = False\<rparr>"

text \<open>A peer as \<open>wg_peer_create\<close> leaves it.\<close>

definition fresh_peer :: "peer_id \<Rightarrow> wg_peer" where
  "fresh_peer i = \<lparr>p_id = i, is_dead = False, temp_peer = False, endpoint = Ep_unspec,
     tcp_reply_endpoint = Ep_unspec, peer_endpoint = Ep_unspec, tx_bytes = 0, tcp_connection_id = 0,
     peer_endpoint_set = False, tcp_peer_listen_port = 0, peer_socket = None, inbound_socket = None,
     outbound_socket = None, tcp_outbound_socket_data = None, tcp_inbound_socket_data = None,
     tcp_outbound_callbacks_set = False, tcp_inbound_callbacks_set = False, outbound_timestamp = 0,
     inbound_timestamp = 0, inbound_source = Sa_unspec, inbound_dest = Sa_unspec,
     outbound_source = Sa_unspec, outbound_dest = Sa_unspec, p_partial_skb = None,
     p_expected_len = 0, p_received_len = 0, tcp_retry_scheduled = False,
     tcp_outbound_remove_scheduled = False, tcp_reconnect_requested = False, tcp_stopping = False,
     tcp_teardown_quarantined = False, tcp_outbound_remove_socket = None,
     tcp_roaming_connection_id = 0, tcp_inbound_remove_scheduled = False,
     tcp_inbound_remove_socket = None, tcp_established = False, tcp_pending = False,
     tcp_connecting = False, inbound_connected = False, outbound_connected = False,
     clean_outbound = False, clean_inbound = False, send_queue = [], tcp_read_wq = True,
     tcp_read_worker_scheduled = False, tcp_write_wq = True, tcp_write_worker_scheduled = False,
     tcp_bootstrap_socket = None, tcp_promotion_connection_id = 0,
     tcp_promotion_worker_scheduled = False, wk_retry = None, wk_outbound_remove = None,
     wk_inbound_remove = None, wk_read = None, wk_write = None, wk_bootstrap = None,
     wk_promotion = None\<rparr>"

definition demo_wr :: wr_state where
  "demo_wr = \<lparr>wr_peer = (fresh_peer 1)\<lparr>peer_socket := Some 7, outbound_socket := Some 7,
       tcp_established := True, outbound_connected := True\<rparr>,
     wr_kern = demo_kern, wr_test = production, wr_script = [], wr_wire = [], wr_cleanup = False\<rparr>"

lemma demo_wr_fair: "wr_fair demo_wr" "wr_stream demo_wr = []"
  by (simp_all add: wr_fair_def wr_stream_def demo_wr_def fresh_peer_def production_def)

theorem writer_stream_integrity_witness:
  "\<exists>st. fold (tx_step demo_dev) [Tx_enqueue [1, 2, 3], Tx_write [Takes 2]] (demo_wr, []) = (st, [[1, 2, 3]]) \<and>
     wr_wire st @ concat (send_queue (wr_peer st)) = [1, 2, 3]"
proof -
  obtain st where st: "fold (tx_step demo_dev) [Tx_enqueue [1, 2, 3], Tx_write [Takes 2]] (demo_wr, []) =
      (st, [[1, 2, 3]])"
    by (simp add: wg_tcp_enqueue_frame_def demo_wr_def demo_dev_def fresh_peer_def production_def
        wg_tcp_test_effective_queue_limit_def MAX_QUEUED_PACKETS_def)
  have "wr_wire st @ concat (send_queue (wr_peer st)) = concat [[1, 2, 3]]"
    by (rule writer_stream_integrity [OF _ demo_wr_fair(1) _ st]) (simp_all add: demo_wr_fair)
  with st show ?thesis by auto
qed

lemma write_loop_drains:
  assumes "wr_test st = production"
    and "\<forall>f\<in>set (send_queue (wr_peer st)). f \<noteq> [] \<and> length f \<le> n"
    and "wr_script st = replicate (length (send_queue (wr_peer st))) (Takes n)"
  shows "send_queue (wr_peer (write_loop wg s st)) = [] \<and>
    wr_wire (write_loop wg s st) = wr_wire st @ concat (send_queue (wr_peer st))"
  using assms
proof (induction wg s st rule: write_loop.induct)
  case (1 wg s st)
  show ?case
  proof (cases "send_queue (wr_peer st)")
    case Nil
    then show ?thesis by (simp add: write_loop.simps)
  next
    case (Cons skb q)
    let ?st1 = "st\<lparr>wr_peer := (wr_peer st)\<lparr>send_queue := q\<rparr>,
      wr_script := replicate (length q) (Takes n), wr_wire := wr_wire st @ skb\<rparr>"
    have r: "wr_round wg s skb (st\<lparr>wr_peer := (wr_peer st)\<lparr>send_queue := q\<rparr>\<rparr>) = (True, ?st1)"
      using 1(2-4) Cons
      by (auto simp: wr_round_def wg_tcp_send_frame_def wg_tcp_test_take_fatal_send_def
          wg_tcp_test_send_len_def production_def Let_def min.absorb2)
    have "write_loop wg s st = write_loop wg s ?st1"
      using Cons r by (subst write_loop.simps) simp
    with 1(1) [OF Cons r [symmetric]] 1(2-4) Cons show ?thesis by simp
  qed
qed

text \<open>C10. The send queue drains: a writer activation on a connected carrier whose socket
  takes every frame it is offered puts the whole queue on the wire, frame after frame,
  and leaves the queue empty.\<close>

theorem writer_drains_queue:
  assumes "carrier_up wg (wr_peer st)" "wr_test st = production"
    and "\<forall>f\<in>set (send_queue (wr_peer st)). f \<noteq> [] \<and> length f \<le> n"
    and "wr_script st = replicate (length (send_queue (wr_peer st))) (Takes n)"
  shows "send_queue (wr_peer (wg_tcp_write_worker wg (\<lambda>p. p) st)) = [] \<and>
    wr_wire (wg_tcp_write_worker wg (\<lambda>p. p) st) = wr_wire st @ concat (send_queue (wr_peer st))"
proof -
  obtain s where s: "peer_socket (wr_peer st) = Some s" using assms(1) by (auto simp: carrier_up_def)
  let ?st1 = "st\<lparr>wr_test := production, wr_peer := (wr_peer st)\<lparr>wk_write := None\<rparr>\<rparr>"
  have "wg_tcp_test_take_write_delay_ms production = (0, production)"
    by (simp add: wg_tcp_test_take_write_delay_ms_def production_def)
  then have "wg_tcp_write_worker wg (\<lambda>p. p) st =
      (let st2 = write_loop wg s ?st1
       in st2\<lparr>wr_peer := write_out wg (Some s) (wr_kern st2) (wr_peer st2)\<rparr>)"
    using assms(1,2) s
    by (simp add: wg_tcp_write_worker_def Let_def carrier_up_def tcp_alive_def no_removal_def)
  moreover have "send_queue (wr_peer (write_loop wg s ?st1)) = [] \<and>
      wr_wire (write_loop wg s ?st1) = wr_wire ?st1 @ concat (send_queue (wr_peer ?st1))"
    by (rule write_loop_drains) (use assms in auto)
  ultimately show ?thesis by (simp add: Let_def)
qed

theorem writer_drains_queue_witness:
  "wr_wire (wg_tcp_write_worker demo_dev (\<lambda>p. p)
     (demo_wr\<lparr>wr_peer := (wr_peer demo_wr)\<lparr>send_queue := [[1, 2], [3]]\<rparr>,
              wr_script := [Takes 9, Takes 9]\<rparr>)) = [1, 2, 3]"
  using writer_drains_queue [of demo_dev "demo_wr\<lparr>wr_peer := (wr_peer demo_wr)\<lparr>send_queue := [[1, 2], [3]]\<rparr>,
              wr_script := [Takes 9, Takes 9]\<rparr>" 9]
  by (simp add: demo_wr_def demo_dev_def fresh_peer_def carrier_up_def tcp_alive_def no_removal_def
      numeral_2_eq_2)





end
