(* ===== verification/Admission_Bounds.thy ===== *)
theory Admission_Bounds
  imports Tcp_Admission Tcp_Writer
begin

text \<open>
  What the admission code guarantees: the counters of provisional connections agree with
  the list and stay under their limits along every sequence of operations, cleanup takes
  exactly the stale connections, and a source gets at most 32 connections per window.
\<close>

section \<open>First-match updates\<close>

lemma find_split:
  assumes "List.find sel xs = Some x"
  obtains ys zs where "xs = ys @ x # zs" "sel x" "\<forall>y\<in>set ys. \<not> sel y"
    "\<And>f. update_first sel f xs = ys @ f x # zs" "remove_first sel xs = ys @ zs"
proof -
  have "\<exists>ys zs. xs = ys @ x # zs \<and> sel x \<and> (\<forall>y\<in>set ys. \<not> sel y)"
    using assms
  proof (induction xs)
    case (Cons a xs)
    show ?case
    proof (cases "sel a")
      case True
      with Cons.prems show ?thesis by (intro exI [of _ "[]"] exI [of _ xs]) auto
    next
      case False
      with Cons obtain ys zs where "xs = ys @ x # zs \<and> sel x \<and> (\<forall>y\<in>set ys. \<not> sel y)" by auto
      with False show ?thesis by (intro exI [of _ "a # ys"] exI [of _ zs]) auto
    qed
  qed simp
  then obtain ys zs where *: "xs = ys @ x # zs" "sel x" "\<forall>y\<in>set ys. \<not> sel y" by blast
  then have "update_first sel f xs = ys @ f x # zs" for f
    unfolding * (1) by (induction ys) auto
  moreover from * have "remove_first sel xs = ys @ zs"
    unfolding * (1) by (induction ys) auto
  ultimately show thesis using that * by blast
qed

lemma update_first_none: "List.find sel xs = None \<Longrightarrow> update_first sel f xs = xs"
  by (induction xs) (auto split: if_splits)

section \<open>The invariant of the connection list\<close>

definition counted :: "wg_tcp_socket_list_entry list \<Rightarrow> nat" where
  "counted es = length (filter e_admission_counted es)"

definition adm_inv :: "wg_device \<Rightarrow> bool" where
  "adm_inv wg \<longleftrightarrow>
     tcp_pending_connections wg = counted (tcp_connection_list wg) \<and>
     tcp_tracked_connections wg = length (tcp_connection_list wg) \<and>
     tcp_pending_connections wg \<le> WG_TCP_MAX_PENDING_CONNECTIONS \<and>
     tcp_tracked_connections wg \<le> WG_TCP_MAX_TRACKED_CONNECTIONS \<and>
     (\<forall>addr. wg_tcp_pending_from_source_locked wg addr \<le> WG_TCP_MAX_PENDING_PER_SOURCE) \<and>
     sorted_wrt (<) (map e_connection_id (tcp_connection_list wg)) \<and>
     (\<forall>e\<in>set (tcp_connection_list wg). e_connection_id e \<le> tcp_connection_sequence wg)"

lemma counted_simps [simp]:
  "counted [] = 0"
  "counted (e # es) = (if e_admission_counted e then Suc (counted es) else counted es)"
  "counted (es @ fs) = counted es + counted fs"
  by (auto simp: counted_def)

lemma same_host_trans:
  "wg_sockaddrs_same_host a x \<Longrightarrow> wg_sockaddrs_same_host a y \<longleftrightarrow> wg_sockaddrs_same_host x y"
  by (cases a; cases x; cases y) auto

lemma pending_from_source_cong:
  "wg_sockaddrs_same_host a x \<Longrightarrow>
   wg_tcp_pending_from_source_locked wg a = wg_tcp_pending_from_source_locked wg x"
  unfolding wg_tcp_pending_from_source_locked_def
  by (intro arg_cong [where f = length] filter_cong) (auto simp: same_host_trans [of a x])

lemma release_admission_entry [simp]:
  "e_connection_id (fst (wg_tcp_release_admission_locked e n)) = e_connection_id e"
  "e_src_addr (fst (wg_tcp_release_admission_locked e n)) = e_src_addr e"
  "\<not> e_admission_counted (fst (wg_tcp_release_admission_locked e n))"
  "snd (wg_tcp_release_admission_locked e n) = (if e_admission_counted e then n - 1 else n)"
  by (auto simp: wg_tcp_release_admission_locked_def)

text \<open>The operations on the list, as the events of one device.\<close>

inductive adm_step :: "wg_device \<Rightarrow> wg_device \<Rightarrow> bool" where
  Add: "tcp_connection_sequence wg \<noteq> - 1 \<Longrightarrow>
        wg_add_tcp_socket_to_list ok now name s t (wg, k) = (r, c, wg', k') \<Longrightarrow> adm_step wg wg'"
| Auth: "adm_step wg (wg_tcp_mark_connection_authenticated now cid wg)"
| Touch: "adm_step wg (wg_touch_tcp_connection now p wg)"
| Finish: "adm_step wg (fst (wg_finish_tcp_connection_init dead sk s wg))"
| Claim: "adm_step wg (snd (wg_claim_tcp_connection dead now ps co wg))"
| Cleanup: "adm_step wg (snd (wg_tcp_cleanup_worker dead now wg))"
| Destruct: "adm_step wg (snd (wg_destruct_tcp_connection_list dead now wg))"

inductive_cases adm_stepE: "adm_step wg wg'"

inductive adm_reach :: "wg_device \<Rightarrow> wg_device \<Rightarrow> bool" where
  Init: "adm_reach wg wg"
| Step: "adm_reach wg wg' \<Longrightarrow> adm_step wg' wg'' \<Longrightarrow> adm_reach wg wg''"

text \<open>A change of entries that only drops reservations or refreshes times keeps the invariant.\<close>

lemma adm_inv_replace:
  assumes inv: "adm_inv wg" and L: "tcp_connection_list wg = ys @ e # zs"
    and L': "tcp_connection_list wg' = ys @ e' # zs"
    and e': "e_connection_id e' = e_connection_id e" "e_src_addr e' = e_src_addr e"
      "e_admission_counted e' \<Longrightarrow> e_admission_counted e"
    and wg': "tcp_pending_connections wg' =
        (if e_admission_counted e \<and> \<not> e_admission_counted e'
         then tcp_pending_connections wg - 1 else tcp_pending_connections wg)"
      "tcp_tracked_connections wg' = tcp_tracked_connections wg"
      "tcp_connection_sequence wg' = tcp_connection_sequence wg"
  shows "adm_inv wg'"
proof -
  have "wg_tcp_pending_from_source_locked wg' addr \<le> wg_tcp_pending_from_source_locked wg addr" for addr
    using e' by (auto simp: wg_tcp_pending_from_source_locked_def L L')
  with inv show ?thesis
    unfolding adm_inv_def using e' wg' L L' by (auto intro: order_trans)
qed

lemma adm_inv_remove:
  assumes inv: "adm_inv wg" and L: "tcp_connection_list wg = ys @ e # zs"
    and wg': "tcp_connection_list wg' = ys @ zs"
      "tcp_pending_connections wg' =
        (if e_admission_counted e then tcp_pending_connections wg - 1 else tcp_pending_connections wg)"
      "tcp_tracked_connections wg' = tcp_tracked_connections wg - 1"
      "tcp_connection_sequence wg' = tcp_connection_sequence wg"
  shows "adm_inv wg'"
proof -
  have "wg_tcp_pending_from_source_locked wg' addr \<le> wg_tcp_pending_from_source_locked wg addr" for addr
    by (auto simp: wg_tcp_pending_from_source_locked_def L wg')
  with inv show ?thesis
    unfolding adm_inv_def using wg' L by (auto simp: sorted_wrt_append intro: order_trans split: if_splits)
qed

lemma uncounted_id [simp]: "\<not> e_admission_counted e \<Longrightarrow> e\<lparr>e_admission_counted := False\<rparr> = e"
  by (cases e) simp

lemma adm_inv_work [simp]: "adm_inv (wg\<lparr>wk_cleanup := w\<rparr>) = adm_inv wg"
  by (simp add: adm_inv_def wg_tcp_pending_from_source_locked_def)


lemma mark_authenticated_inv: "adm_inv wg \<Longrightarrow> adm_inv (wg_tcp_mark_connection_authenticated now cid wg)"
  unfolding wg_tcp_mark_connection_authenticated_def
  by (auto split: option.split elim!: find_split)
    (erule adm_inv_replace, assumption, simp, auto)+

lemma touch_inv: "adm_inv wg \<Longrightarrow> adm_inv (wg_touch_tcp_connection now p wg)"
proof (cases "List.find (\<lambda>e. e_temp_peer e = Some (p_id p)) (tcp_connection_list wg)")
  case None
  moreover assume "adm_inv wg"
  ultimately show ?thesis by (simp add: wg_touch_tcp_connection_def update_first_none)
next
  case (Some e)
  moreover assume "adm_inv wg"
  ultimately show ?thesis
    by (auto simp: wg_touch_tcp_connection_def elim!: find_split)
    (erule adm_inv_replace, assumption, simp, auto)+
qed

lemma finish_inv: "adm_inv wg \<Longrightarrow> adm_inv (fst (wg_finish_tcp_connection_init dead sk s wg))"
  by (auto simp: wg_finish_tcp_connection_init_def Let_def split: option.split
      elim!: find_split)
    (erule adm_inv_replace, assumption, simp, auto)+

lemma claim_cases:
  assumes "wg_claim_tcp_connection dead now ps co wg = (r, wg')"
  obtains (none) "r = None" "wg' = wg" "\<forall>e\<in>set (tcp_connection_list wg). \<not> claimable dead now ps co e"
  | (some) ys e zs where "tcp_connection_list wg = ys @ e # zs" "claimable dead now ps co e"
      "\<forall>y\<in>set ys. \<not> claimable dead now ps co y" "r = Some (e\<lparr>e_admission_counted := False\<rparr>)"
      "wg' = wg\<lparr>tcp_pending_connections :=
          (if e_admission_counted e then tcp_pending_connections wg - 1 else tcp_pending_connections wg),
        tcp_tracked_connections := tcp_tracked_connections wg - 1,
        tcp_connection_list := ys @ zs\<rparr>"
proof (cases "List.find (claimable dead now ps co) (tcp_connection_list wg)")
  case None
  with assms show thesis
    by (intro none) (auto simp: wg_claim_tcp_connection_def find_None_iff)
next
  case (Some e)
  from find_split [OF Some] obtain ys zs where *: "tcp_connection_list wg = ys @ e # zs"
    "claimable dead now ps co e" "\<forall>y\<in>set ys. \<not> claimable dead now ps co y"
    "remove_first (claimable dead now ps co) (tcp_connection_list wg) = ys @ zs"
    by metis
  from Some * (2,4) assms show thesis
    by (intro some [OF * (1-3)])
      (auto simp: wg_claim_tcp_connection_def wg_tcp_release_admission_locked_def split: if_splits)
qed

lemma claim_inv:
  assumes "adm_inv wg" "wg_claim_tcp_connection dead now ps co wg = (r, wg')"
  shows "adm_inv wg'"
  using assms(2)
proof (cases rule: claim_cases)
  case (some ys e zs)
  then show ?thesis by (intro adm_inv_remove [OF assms(1) some(1)]) auto
qed (use assms in simp)

lemma claim_all_inv: "adm_inv wg \<Longrightarrow> adm_inv (snd (claim_all dead now co wg))"
proof (induction dead now co wg rule: claim_all.induct)
  case (1 dead now co wg)
  obtain r wg' where c: "wg_claim_tcp_connection dead now None co wg = (r, wg')" by fastforce
  from claim_inv [OF 1(2) c] 1(1) [OF c [symmetric]] c show ?case
    by (subst claim_all.simps) (auto split: option.split prod.split)
qed

lemma claim_all_spec:
  "claim_all dead now co wg =
     (map (\<lambda>e. e\<lparr>e_admission_counted := False\<rparr>)
        (filter (claimable dead now None co) (tcp_connection_list wg)),
      wg\<lparr>tcp_pending_connections := tcp_pending_connections wg -
            counted (filter (claimable dead now None co) (tcp_connection_list wg)),
         tcp_tracked_connections := tcp_tracked_connections wg -
            length (filter (claimable dead now None co) (tcp_connection_list wg)),
         tcp_connection_list :=
            filter (\<lambda>e. \<not> claimable dead now None co e) (tcp_connection_list wg)\<rparr>)"
proof (induction dead now co wg rule: claim_all.induct)
  case (1 dead now co wg)
  obtain r wg' where c: "wg_claim_tcp_connection dead now None co wg = (r, wg')" by fastforce
  from c show ?case
  proof (cases rule: claim_cases)
    case none
    then show ?thesis by (subst claim_all.simps) (simp add: c filter_id_conv)
  next
    case (some ys e zs)
    have "filter (claimable dead now None co) ys = []" "filter (\<lambda>e. \<not> claimable dead now None co e) ys = ys"
      using some(3) by (auto simp: filter_empty_conv filter_id_conv)
    then show ?thesis
      using 1 [OF c [symmetric] some(4)] some
      by (subst claim_all.simps) (simp add: c)
  qed
qed

lemma word_less_succ: "q \<noteq> - 1 \<Longrightarrow> x \<le> q \<Longrightarrow> x < q + (1 :: 'a :: len word)"
  using unatSuc [of q]
  by (simp add: word_less_nat_alt word_le_nat_alt add.commute [of 1] add_eq_0_iff2)

lemma adm_inv_append:
  assumes inv: "adm_inv wg" and seq: "tcp_connection_sequence wg \<noteq> - 1"
    and room: "tcp_tracked_connections wg < WG_TCP_MAX_TRACKED_CONNECTIONS"
      "tcp_pending_connections wg < WG_TCP_MAX_PENDING_CONNECTIONS"
      "wg_tcp_pending_from_source_locked wg (e_src_addr e) < WG_TCP_MAX_PENDING_PER_SOURCE"
    and e: "e_admission_counted e" "e_connection_id e = tcp_connection_sequence wg + 1"
    and wg': "tcp_connection_list wg' = tcp_connection_list wg @ [e]"
      "tcp_pending_connections wg' = Suc (tcp_pending_connections wg)"
      "tcp_tracked_connections wg' = Suc (tcp_tracked_connections wg)"
      "tcp_connection_sequence wg' = tcp_connection_sequence wg + 1"
  shows "adm_inv wg'"
proof -
  have "wg_tcp_pending_from_source_locked wg' addr \<le> WG_TCP_MAX_PENDING_PER_SOURCE" for addr
  proof (cases "wg_sockaddrs_same_host addr (e_src_addr e)")
    case True
    then show ?thesis
      using room(3) e(1) pending_from_source_cong [OF True, of wg]
      by (simp add: wg_tcp_pending_from_source_locked_def wg')
  next
    case False
    then show ?thesis
      using inv by (simp add: adm_inv_def wg_tcp_pending_from_source_locked_def wg')
  qed
  with inv room e wg' show ?thesis
    by (auto simp: adm_inv_def sorted_wrt_append
        intro: word_less_succ [OF seq] less_imp_le [OF word_less_succ [OF seq]])
qed

lemma adm_inv_sequence:
  "adm_inv wg \<Longrightarrow> tcp_connection_sequence wg \<noteq> - 1 \<Longrightarrow>
   adm_inv (wg\<lparr>tcp_connection_sequence := tcp_connection_sequence wg + 1\<rparr>)"
  by (auto simp: adm_inv_def wg_tcp_pending_from_source_locked_def 
      intro: less_imp_le [OF word_less_succ])

lemma add_inv:
  assumes inv: "adm_inv wg" and seq: "tcp_connection_sequence wg \<noteq> - 1"
    and add: "wg_add_tcp_socket_to_list ok now name s t (wg, k) = (r, c, wg', k')"
  shows "adm_inv wg'"
proof (cases r)
  case None
  with add show ?thesis
    by (auto simp: wg_add_tcp_socket_to_list_def Let_def wg_tcp_pending_from_source_locked_def
        not_le intro!: adm_inv_append [OF inv seq] split: if_splits sum.splits prod.splits)
next
  case (Some err)
  with add adm_inv_sequence [OF inv seq] inv show ?thesis
    by (auto simp: wg_add_tcp_socket_to_list_def Let_def split: if_splits sum.splits prod.splits)
qed

lemma cleanup_inv: "adm_inv wg \<Longrightarrow> adm_inv (snd (wg_tcp_cleanup_worker dead now wg))"
  using claim_all_inv [of "wg\<lparr>wk_cleanup := None\<rparr>" dead now True]
  by (auto simp: wg_tcp_cleanup_worker_def split: prod.split)

lemma adm_step_inv: "adm_step wg wg' \<Longrightarrow> adm_inv wg \<Longrightarrow> adm_inv wg'"
  by (erule adm_stepE)
    (auto intro: add_inv mark_authenticated_inv touch_inv finish_inv claim_inv claim_all_inv
      cleanup_inv simp: wg_destruct_tcp_connection_list_def prod_eq_iff)

definition no_connections :: "wg_device \<Rightarrow> bool" where
  "no_connections wg \<longleftrightarrow> tcp_connection_list wg = [] \<and>
     tcp_pending_connections wg = 0 \<and> tcp_tracked_connections wg = 0"

lemma no_connections_inv: "no_connections wg \<Longrightarrow> adm_inv wg"
  by (simp add: no_connections_def adm_inv_def wg_tcp_pending_from_source_locked_def)

lemma adm_reach_inv: "adm_reach wg wg' \<Longrightarrow> adm_inv wg \<Longrightarrow> adm_inv wg'"
  by (induction rule: adm_reach.induct) (auto intro: adm_step_inv)

text \<open>C13. Along every sequence of insertions, authentications, refreshes, initialisations,
  claims and cleanup passes on a device that starts without connections, the two
  counters equal the number of reserved and of listed connections, at most 128
  connections are pending, at most 1024 are tracked, at most 8 are pending from one
  host, and the connection identities on the list are strictly increasing, so that no
  two listed connections share an identity.\<close>

theorem admission_limits_hold:
  assumes "adm_reach wg wg'" and "no_connections wg"
  shows "adm_inv wg'"
  using adm_reach_inv [OF assms(1)] no_connections_inv [OF assms(2)] by blast

section \<open>The cleanup pass\<close>

text \<open>C14. One cleanup pass takes exactly the connections that are due: those whose
  provisional peer is dead, and the unauthenticated ones idle for 5 s or older than 30 s,
  but none that is still initialising. All others stay listed in order, the counters drop
  by what was taken, and the pass is due again in one second exactly when connections
  remain and the device still cleans up, so that an unauthenticated connection cannot
  outlive its limits by more than one period.\<close>

theorem cleanup_takes_stale:
  assumes "adm_inv wg" and "wg_tcp_cleanup_worker dead now wg = (taken, wg')"
  shows "map e_connection_id taken =
           map e_connection_id (filter (claimable dead now None True) (tcp_connection_list wg)) \<and>
         tcp_connection_list wg' =
           filter (\<lambda>e. \<not> claimable dead now None True e) (tcp_connection_list wg) \<and>
         tcp_tracked_connections wg' = length (tcp_connection_list wg') \<and>
         tcp_pending_connections wg' = length (filter e_admission_counted (tcp_connection_list wg')) \<and>
         wk_cleanup wg' =
           (if tcp_connection_list wg' \<noteq> [] \<and> tcp_cleanup_scheduled wg
            then Some WG_TCP_CLEANUP_INTERVAL_MS else None)"
proof -
  have "adm_inv wg'" using cleanup_inv [OF assms(1), of dead now] assms(2) by simp
  then have counters: "tcp_tracked_connections wg' = length (tcp_connection_list wg')"
    "tcp_pending_connections wg' = length (filter e_admission_counted (tcp_connection_list wg'))"
    by (simp_all add: adm_inv_def counted_def)
  have lists: "map e_connection_id taken =
      map e_connection_id (filter (claimable dead now None True) (tcp_connection_list wg))"
    "tcp_connection_list wg' = filter (\<lambda>e. \<not> claimable dead now None True e) (tcp_connection_list wg)"
    "wk_cleanup wg' = (if tcp_connection_list wg' \<noteq> [] \<and> tcp_cleanup_scheduled wg
       then Some WG_TCP_CLEANUP_INTERVAL_MS else None)"
    using assms(2) by (auto simp: wg_tcp_cleanup_worker_def claim_all_spec comp_def)
  show ?thesis by (intro conjI counters lists)
qed

section \<open>The accept rate limiter\<close>

text \<open>A sequence of connection attempts from one address at the given times.\<close>

fun accept_run :: "u64 \<Rightarrow> sockaddr \<Rightarrow> u64 list \<Rightarrow> wg_device \<Rightarrow> bool list" where
  "accept_run hz addr [] wg = []"
| "accept_run hz addr (t # ts) wg =
     (case wg_tcp_accept_rate_allow hz t addr wg of (ok, wg') \<Rightarrow> ok # accept_run hz addr ts wg')"

definition slot_of :: "sockaddr \<Rightarrow> wg_tcp_accept_source \<Rightarrow> bool" where
  "slot_of addr c \<longleftrightarrow> as_family c \<noteq> 0 \<and> wg_tcp_accept_source_matches c addr"

lemma slot_of_counters [simp]:
  "slot_of addr (c\<lparr>as_accepts := a\<rparr>) = slot_of addr c"
  "slot_of addr (c\<lparr>as_last_seen := t\<rparr>) = slot_of addr c"
  by (cases addr; simp add: slot_of_def wg_tcp_accept_source_matches_def)+

lemma scan_none:
  "\<forall>c\<in>set cs. \<not> slot_of addr c \<Longrightarrow> fst (accept_scan addr i cs e oldest) = None"
  by (induction addr i cs e oldest rule: accept_scan.induct) (auto simp: slot_of_def)

lemma scan_some:
  assumes "j < length cs" "slot_of addr (cs ! j)" "\<forall>j'<length cs. j' \<noteq> j \<longrightarrow> \<not> slot_of addr (cs ! j')"
  shows "fst (accept_scan addr i cs e oldest) = Some (i + j)"
  using assms
proof (induction addr i cs e oldest arbitrary: j rule: accept_scan.induct)
  case (2 addr i c cs e oldest)
  show ?case
  proof (cases j)
    case 0
    with 2 show ?thesis by (auto simp: slot_of_def)
  next
    case (Suc j')
    then have "\<not> slot_of addr c" using 2(5) by (metis length_Cons nat.distinct(1) nth_Cons_0 zero_less_Suc)
    moreover have "\<forall>k<length cs. k \<noteq> j' \<longrightarrow> \<not> slot_of addr (cs ! k)" using 2(5) Suc by auto
    ultimately show ?thesis using 2(1,2) 2(3,4) Suc
      by (auto simp: slot_of_def)
  qed
qed simp

text \<open>Where a new source goes: a vacant slot, or else an occupied one.\<close>

definition place :: "nat option \<Rightarrow> (nat \<times> u64) option \<Rightarrow> nat" where
  "place vacant oldest =
     (case vacant of Some v \<Rightarrow> v | None \<Rightarrow> (case oldest of Some (j, _) \<Rightarrow> j | None \<Rightarrow> 0))"

lemma scan_place:
  assumes "accept_scan addr i cs v oldest = (None, v', oldest')"
    and "i + length cs \<le> n" "\<forall>k. v = Some k \<longrightarrow> k < n" "\<forall>k l. oldest = Some (k, l) \<longrightarrow> k < n"
    and "cs \<noteq> [] \<or> v \<noteq> None \<or> oldest \<noteq> None"
  shows "place v' oldest' < n"
  using assms
proof (induction addr i cs v oldest rule: accept_scan.induct)
  case (1 addr i v oldest)
  then show ?case by (auto simp: place_def split: option.split)
next
  case (2 addr i c cs v oldest)
  show ?case
  proof (cases "as_family c = 0")
    case True
    with 2 show ?thesis by auto
  next
    case False
    with 2(3) have "\<not> wg_tcp_accept_source_matches c addr" by auto
    with False 2 show ?thesis by (auto split: option.splits if_splits)
  qed
qed

text \<open>The table holds one slot for the host, opened at \<open>t0\<close> and used \<open>n\<close> times.\<close>

definition host_slot :: "sockaddr \<Rightarrow> u64 \<Rightarrow> nat \<Rightarrow> wg_device \<Rightarrow> bool" where
  "host_slot addr t0 n wg \<longleftrightarrow>
     (\<exists>i<length (tcp_accept_sources wg).
        slot_of addr (tcp_accept_sources wg ! i) \<and>
        as_window_started (tcp_accept_sources wg ! i) = t0 \<and>
        as_accepts (tcp_accept_sources wg ! i) = of_nat n \<and>
        (\<forall>j<length (tcp_accept_sources wg). j \<noteq> i \<longrightarrow> \<not> slot_of addr (tcp_accept_sources wg ! j)))"

definition inet :: "sockaddr \<Rightarrow> bool" where
  "inet addr \<longleftrightarrow> (case addr of Sa_in _ _ \<Rightarrow> True | Sa_in6 _ _ _ \<Rightarrow> True | _ \<Rightarrow> False)"

lemma inet_family: "inet addr \<Longrightarrow> ss_family addr = AF_INET \<or> ss_family addr = AF_INET6"
  by (cases addr) (auto simp: inet_def)

lemma slot_of_set: "inet addr \<Longrightarrow> slot_of addr (wg_tcp_accept_source_set addr now)"
  by (cases addr) (auto simp: slot_of_def wg_tcp_accept_source_matches_def wg_tcp_accept_source_set_def
      inet_def AF_INET_def AF_INET6_def)

lemma first_accept:
  assumes "inet addr" "tcp_accept_sources wg \<noteq> []" "\<forall>c\<in>set (tcp_accept_sources wg). \<not> slot_of addr c"
  shows "\<exists>wg'. wg_tcp_accept_rate_allow hz now addr wg = (True, wg') \<and> host_slot addr now 1 wg'"
proof -
  let ?tab = "tcp_accept_sources wg"
  obtain v oldest where scan: "accept_scan addr 0 ?tab None None = (None, v, oldest)"
    using scan_none [OF assms(3)] by (metis prod.collapse)
  have lt: "place v oldest < length ?tab"
    using scan_place [OF scan, of "length ?tab"] assms(2) by auto
  let ?wg = "wg\<lparr>tcp_accept_sources := ?tab[place v oldest := wg_tcp_accept_source_set addr now]\<rparr>"
  have "wg_tcp_accept_rate_allow hz now addr wg = (True, ?wg)"
    using inet_family [OF assms(1)] scan by (auto simp: wg_tcp_accept_rate_allow_def place_def)
  moreover have "host_slot addr now 1 ?wg"
    unfolding host_slot_def using lt assms(3) slot_of_set [OF assms(1)]
    by (intro exI [of _ "place v oldest"]) (auto simp: nth_list_update wg_tcp_accept_source_set_def)
  ultimately show ?thesis by blast
qed

lemma next_accept:
  assumes "inet addr" "host_slot addr t0 n wg" "n \<le> 32" "\<not> time_after_eq now (t0 + hz)"
  shows "\<exists>wg'. wg_tcp_accept_rate_allow hz now addr wg = (n < 32, wg') \<and>
    host_slot addr t0 (min 32 (Suc n)) wg'"
proof -
  let ?tab = "tcp_accept_sources wg"
  from assms(2) obtain i where i: "i < length ?tab" "slot_of addr (?tab ! i)"
    "as_window_started (?tab ! i) = t0" "as_accepts (?tab ! i) = of_nat n"
    "\<forall>j<length ?tab. j \<noteq> i \<longrightarrow> \<not> slot_of addr (?tab ! j)"
    unfolding host_slot_def by blast
  obtain v oldest where scan: "accept_scan addr 0 ?tab None None = (Some i, v, oldest)"
    using scan_some [OF i(1,2,5), of 0 None None] by (metis add_0 prod.collapse)
  let ?c = "(?tab ! i)\<lparr>as_accepts := of_nat (min 32 (Suc n)), as_last_seen := now\<rparr>"
  let ?wg = "wg\<lparr>tcp_accept_sources := ?tab[i := ?c]\<rparr>"
  have burst: "WG_TCP_ACCEPT_BURST \<le> as_accepts (?tab ! i) \<longleftrightarrow> \<not> n < 32"
    using assms(3) by (simp add: i(4) WG_TCP_ACCEPT_BURST_def word_le_nat_alt unat_of_nat)
  have fam: "\<not> (ss_family addr \<noteq> AF_INET \<and> ss_family addr \<noteq> AF_INET6)"
    using inet_family [OF assms(1)] by blast
  have m: "n < 32 \<Longrightarrow> min 32 (Suc n) = Suc n" "\<not> n < 32 \<Longrightarrow> min 32 (Suc n) = n"
    using assms(3) by auto
  have cnt: "n < 32 \<Longrightarrow> as_accepts (?tab ! i) + 1 = of_nat (min 32 (Suc n))"
    "\<not> n < 32 \<Longrightarrow> as_accepts (?tab ! i) = of_nat (min 32 (Suc n))"
    by (metis i(4) m(1) of_nat_Suc add.commute) (metis i(4) m(2))
  have same: "\<not> n < 32 \<Longrightarrow> (?tab ! i)\<lparr>as_last_seen := now\<rparr> = ?c"
    using cnt(2) by (metis (no_types) wg_tcp_accept_source.surjective wg_tcp_accept_source.update_convs(4,6))
  have "wg_tcp_accept_rate_allow hz now addr wg = (n < 32, ?wg)"
    unfolding wg_tcp_accept_rate_allow_def Let_def scan if_not_P [OF fam]
    using assms(4) by (cases "n < 32") (simp_all add: burst i(3) cnt(1) same)
  moreover have "host_slot addr t0 (min 32 (Suc n)) ?wg"
    unfolding host_slot_def using i
    by (intro exI [of _ i]) (auto simp: nth_list_update)
  ultimately show ?thesis by blast
qed

lemma accept_run_slot:
  assumes "inet addr" "host_slot addr t0 n wg" "n \<le> 32" "\<forall>t\<in>set ts. \<not> time_after_eq t (t0 + hz)"
  shows "accept_run hz addr ts wg = map (\<lambda>j. n + j < 32) [0..<length ts]"
  using assms
proof (induction ts arbitrary: n wg)
  case (Cons t ts)
  obtain wg' where *: "wg_tcp_accept_rate_allow hz t addr wg = (n < 32, wg')"
    "host_slot addr t0 (min 32 (Suc n)) wg'"
    using next_accept [OF Cons.prems(1-3), of t hz] Cons.prems(4) by auto
  have "accept_run hz addr ts wg' = map (\<lambda>j. min 32 (Suc n) + j < 32) [0..<length ts]"
    using Cons.IH [OF Cons.prems(1) * (2)] Cons.prems(4) by simp
  then show ?case
    using Cons.prems(3) by (auto simp: * (1) upt_conv_Cons simp flip: map_Suc_upt simp del: upt_Suc)
qed simp


section \<open>Concrete runs\<close>

definition demo_kern_in :: kern where
  "demo_kern_in = demo_kern\<lparr>socks := (socks demo_kern)(4 := demo_sock\<lparr>so_user_data := Some 9\<rparr>),
     sdata := [9 \<mapsto> \<lparr>sd_peer = 5, sd_socket = 4, sd_inbound = True, original_state_change = Cb_stack,
       original_write_space = Cb_stack, original_data_ready = Cb_stack\<rparr>]\<rparr>"

definition demo_added :: wg_device where
  "demo_added = fst (snd (snd (wg_add_tcp_socket_to_list True 0 (Inr (Sa_in 0x0a000002 40000, 16))
     4 5 (demo_dev, demo_kern_in))))"

lemmas demo_adm_defs = demo_added_def demo_kern_in_def demo_kern_def demo_dev_def demo_sock_def
  wg_add_tcp_socket_to_list_def Let_def wg_sockaddr_length_valid_def AF_INET_def
  wg_tcp_pending_from_source_locked_def admission_consts

lemma demo_added_reach: "adm_reach demo_dev demo_added"
proof (rule adm_reach.Step [OF adm_reach.Init], rule adm_step.Add)
  show "wg_add_tcp_socket_to_list True 0 (Inr (Sa_in 0x0a000002 40000, 16)) 4 5 (demo_dev, demo_kern_in) =
    (fst (wg_add_tcp_socket_to_list True 0 (Inr (Sa_in 0x0a000002 40000, 16)) 4 5 (demo_dev, demo_kern_in)),
     fst (snd (wg_add_tcp_socket_to_list True 0 (Inr (Sa_in 0x0a000002 40000, 16)) 4 5 (demo_dev, demo_kern_in))),
     demo_added,
     snd (snd (snd (wg_add_tcp_socket_to_list True 0 (Inr (Sa_in 0x0a000002 40000, 16)) 4 5 (demo_dev, demo_kern_in)))))"
    by (simp add: demo_added_def)
qed (simp add: demo_dev_def)

theorem admission_limits_hold_witness:
  "adm_reach demo_dev demo_added \<and> no_connections demo_dev \<and> adm_inv demo_added \<and>
   tcp_tracked_connections demo_added = 1"
  using admission_limits_hold [OF demo_added_reach] demo_added_reach
  by (simp add: no_connections_def) (simp add: demo_adm_defs)

definition demo_ready :: wg_device where
  "demo_ready = fst (wg_finish_tcp_connection_init (\<lambda>_. False) demo_sock 4 demo_added)"

theorem cleanup_takes_stale_witness:
  "map e_connection_id (fst (wg_tcp_cleanup_worker (\<lambda>_. False) 6000000000 demo_ready)) = [1] \<and>
   tcp_tracked_connections (snd (wg_tcp_cleanup_worker (\<lambda>_. False) 6000000000 demo_ready)) = 0"
proof -
  have "adm_inv demo_dev" by (simp add: no_connections_inv no_connections_def demo_dev_def)
  then have inv: "adm_inv demo_ready" unfolding demo_ready_def
    by (intro finish_inv adm_reach_inv [OF demo_added_reach])
  show ?thesis
    using cleanup_takes_stale [OF inv prod.collapse [symmetric], of "\<lambda>_. False" 6000000000]
    by (simp add: demo_ready_def wg_finish_tcp_connection_init_def demo_adm_defs claimable_def
        ktime_ms_delta_def)
qed


end
