(* ===== verification/Tcp_Socket.thy ===== *)
theory Tcp_Socket
  imports Tcp_Writer
begin

text \<open>
  Socket ownership: installing and detaching the module's callbacks
  (\<open>wg_setup_tcp_socket_callbacks\<close>, \<open>wg_reset_tcp_socket_callbacks\<close>,
  \<open>wg_reset_exact_tcp_socket_callbacks\<close>), giving up a socket
  (\<open>wg_release_peer_socket_locked\<close>), and cancelling and rearming stream work. The
  invariant \<open>tcp_wf\<close> ties the peer's pointers and flags to what the sockets hold; the
  lemmas show that every operation keeps it and what it does to the peer.
\<close>

section \<open>The two directions of a peer\<close>

definition dir_socket :: "bool \<Rightarrow> wg_peer \<Rightarrow> sock_id option" where
  "dir_socket inbound p = (if inbound then inbound_socket p else outbound_socket p)"

definition dir_data :: "bool \<Rightarrow> wg_peer \<Rightarrow> sd_id option" where
  "dir_data inbound p = (if inbound then tcp_inbound_socket_data p else tcp_outbound_socket_data p)"

definition dir_set :: "bool \<Rightarrow> wg_peer \<Rightarrow> bool" where
  "dir_set inbound p = (if inbound then tcp_inbound_callbacks_set p else tcp_outbound_callbacks_set p)"

definition dir_removing :: "bool \<Rightarrow> wg_peer \<Rightarrow> bool" where
  "dir_removing inbound p =
     (if inbound then tcp_inbound_remove_scheduled p else tcp_outbound_remove_scheduled p)"

definition set_dir :: "bool \<Rightarrow> sd_id option \<Rightarrow> bool \<Rightarrow> wg_peer \<Rightarrow> wg_peer" where
  "set_dir inbound d cs p =
     (if inbound then p\<lparr>tcp_inbound_socket_data := d, tcp_inbound_callbacks_set := cs\<rparr>
      else p\<lparr>tcp_outbound_socket_data := d, tcp_outbound_callbacks_set := cs\<rparr>)"

lemmas dir_defs = dir_socket_def dir_data_def dir_set_def dir_removing_def set_dir_def

definition upd_sock :: "sock_id \<Rightarrow> (socket \<Rightarrow> socket) \<Rightarrow> kern \<Rightarrow> kern" where
  "upd_sock s f k = k\<lparr>socks := (socks k)(s := f (socks k s))\<rparr>"

section \<open>Callbacks\<close>

text \<open>\<open>alloc_ok\<close> and \<open>module_ok\<close> are the outcomes of \<open>kzalloc\<close> and \<open>try_module_get\<close>.\<close>

definition wg_setup_tcp_socket_callbacks ::
  "bool \<Rightarrow> bool \<Rightarrow> wg_device \<Rightarrow> sock_id \<Rightarrow> bool \<Rightarrow> wg_peer \<times> kern \<Rightarrow> errno option \<times> wg_peer \<times> kern" where
  "wg_setup_tcp_socket_callbacks alloc_ok module_ok wg s inbound pk =
     (case pk of (p, k) \<Rightarrow>
        if \<not> alloc_ok then (Some ENOMEM, p, k)
        else if \<not> module_ok then (Some ENODEV, p, k)
        else
          let sk = socks k s; installed = so_user_data sk; owner = dir_data inbound p in
          if dir_socket inbound p \<noteq> Some s \<or> is_dead p \<or> tcp_stopping p \<or>
             \<not> tcp_cleanup_scheduled wg \<or> transport wg \<noteq> WG_TRANSPORT_TCP \<or> dir_removing inbound p
          then (Some ESHUTDOWN, p, k)
          else if dir_set inbound p then
            (if owner \<noteq> None \<and> installed = owner \<and>
                (case sdata k (the owner) of
                   None \<Rightarrow> False
                 | Some d \<Rightarrow> sd_peer d = p_id p \<and> sd_socket d = s \<and> sd_inbound d = inbound) \<and>
                sk_state_change sk = Cb_wg \<and> sk_write_space sk = Cb_wg \<and> sk_data_ready sk = Cb_wg
             then (None, p, k) else (Some EUCLEAN, p, k))
          else if owner \<noteq> None then (Some EUCLEAN, p, k)
          else if installed \<noteq> None then (Some EBUSY, p, k)
          else
            let d = next_sd k;
                socket_data = \<lparr>sd_peer = p_id p, sd_socket = s, sd_inbound = inbound,
                  original_state_change = sk_state_change sk,
                  original_write_space = sk_write_space sk,
                  original_data_ready = sk_data_ready sk\<rparr>;
                k1 = k\<lparr>sdata := (sdata k)(d := Some socket_data), next_sd := Suc d\<rparr>
            in (None, set_dir inbound (Some d) True p,
                upd_sock s (\<lambda>sk. sk\<lparr>so_user_data := Some d, sk_state_change := Cb_wg,
                                    sk_write_space := Cb_wg, sk_data_ready := Cb_wg\<rparr>) k1))"

definition wg_reset_tcp_socket_callbacks ::
  "sock_id \<Rightarrow> bool \<Rightarrow> wg_peer \<times> kern \<Rightarrow> errno option \<times> wg_peer \<times> kern" where
  "wg_reset_tcp_socket_callbacks s inbound pk =
     (case pk of (p, k) \<Rightarrow>
        let sk = socks k s; owner = dir_data inbound p in
        if dir_socket inbound p \<noteq> Some s then (Some ESTALE, p, k)
        else if \<not> dir_set inbound p then
          (if owner \<noteq> None \<or> sk_state_change sk = Cb_wg \<or> sk_write_space sk = Cb_wg \<or>
              sk_data_ready sk = Cb_wg
           then (Some EUCLEAN, p, k) else (None, p, k))
        else
          (case owner of
             None \<Rightarrow> (Some EUCLEAN, p, k)
           | Some d \<Rightarrow>
               (case sdata k d of
                  None \<Rightarrow> (Some EUCLEAN, p, k)
                | Some socket_data \<Rightarrow>
                    if sd_peer socket_data \<noteq> p_id p \<or> sd_socket socket_data \<noteq> s \<or>
                       sd_inbound socket_data \<noteq> inbound
                    then (Some EUCLEAN, p, k)
                    else
                      (None, set_dir inbound None False p,
                       upd_sock s
                         (\<lambda>sk. sk\<lparr>sk_state_change := (if sk_state_change sk = Cb_wg
                                    then original_state_change socket_data else sk_state_change sk),
                                  sk_write_space := (if sk_write_space sk = Cb_wg
                                    then original_write_space socket_data else sk_write_space sk),
                                  sk_data_ready := (if sk_data_ready sk = Cb_wg
                                    then original_data_ready socket_data else sk_data_ready sk),
                                  so_user_data := (if so_user_data sk = Some d
                                    then None else so_user_data sk)\<rparr>)
                         (k\<lparr>sdata := (sdata k)(d := None)\<rparr>)))))"

definition wg_reset_exact_tcp_socket_callbacks ::
  "sock_id \<Rightarrow> wg_peer \<times> kern \<Rightarrow> errno option \<times> wg_peer \<times> kern" where
  "wg_reset_exact_tcp_socket_callbacks s pk =
     (case pk of (p, k) \<Rightarrow>
        let inbound_alias = (inbound_socket p = Some s);
            outbound_alias = (outbound_socket p = Some s);
            inbound_owned = (inbound_alias \<and>
              (tcp_inbound_callbacks_set p \<or> tcp_inbound_socket_data p \<noteq> None));
            outbound_owned = (outbound_alias \<and>
              (tcp_outbound_callbacks_set p \<or> tcp_outbound_socket_data p \<noteq> None))
        in
        if \<not> inbound_alias \<and> \<not> outbound_alias then (Some ESTALE, p, k)
        else if inbound_owned \<and> outbound_owned then (Some EUCLEAN, p, k)
        else if inbound_owned then wg_reset_tcp_socket_callbacks s True (p, k)
        else if outbound_owned then wg_reset_tcp_socket_callbacks s False (p, k)
        else wg_reset_tcp_socket_callbacks s (\<not> outbound_alias) (p, k))"

section \<open>Giving up a socket\<close>

definition wg_release_peer_socket_locked ::
  "sock_id \<Rightarrow> wg_peer \<times> kern \<Rightarrow> errno option \<times> wg_peer \<times> kern" where
  "wg_release_peer_socket_locked s pk =
     (case pk of (p, k) \<Rightarrow>
        let inbound = (inbound_socket p = Some s);
            outbound = (outbound_socket p = Some s)
        in
        if \<not> inbound \<and> \<not> outbound then (Some ESTALE, p, k)
        else if inbound \<and> (tcp_inbound_callbacks_set p \<or> tcp_inbound_socket_data p \<noteq> None) \<or>
                outbound \<and> (tcp_outbound_callbacks_set p \<or> tcp_outbound_socket_data p \<noteq> None)
        then (Some EBUSY, p, k)
        else
          let active = (peer_socket p = Some s);
              p1 = (if active then p\<lparr>peer_socket := None, p_partial_skb := None, p_received_len := 0,
                       p_expected_len := 0, tcp_pending := False, tcp_retry_scheduled := False\<rparr> else p);
              p2 = (if inbound then p1\<lparr>inbound_socket := None, inbound_connected := False,
                       inbound_timestamp := 0\<rparr> else p1);
              p3 = (if outbound then p2\<lparr>outbound_socket := None, outbound_connected := False,
                       outbound_timestamp := 0\<rparr> else p2);
              p4 = (if active \<or> \<not> inbound_connected p3 \<and> \<not> outbound_connected p3
                    then p3\<lparr>tcp_established := False\<rparr> else p3);
              p5 = (if active then p4\<lparr>send_queue := []\<rparr> else p4)
          in (None, p5, upd_sock s (\<lambda>sk. sk\<lparr>so_shutdown := True, so_releases := Suc (so_releases sk)\<rparr>) k))"

definition wg_tcp_cancel_stream_workers :: "wg_peer \<Rightarrow> wg_peer" where
  "wg_tcp_cancel_stream_workers p =
     p\<lparr>wk_read := None, wk_write := None, tcp_read_worker_scheduled := False,
       tcp_write_worker_scheduled := False\<rparr>"

definition wg_tcp_rearm_surviving_stream_locked :: "wg_device \<Rightarrow> kern \<Rightarrow> wg_peer \<Rightarrow> wg_peer" where
  "wg_tcp_rearm_surviving_stream_locked wg k p =
     (case peer_socket p of
        None \<Rightarrow> p
      | Some s \<Rightarrow>
          if \<not> tcp_alive wg p \<or> \<not> no_removal p \<or> \<not> tcp_established p then p
          else
            let p1 = (if \<not> tcp_read_worker_scheduled p \<and> tcp_read_wq p \<and> sk_rx_pending (socks k s)
                      then p\<lparr>tcp_read_worker_scheduled := True, wk_read := Some 0\<rparr> else p)
            in if send_queue p1 \<noteq> [] then wg_tcp_schedule_write_locked wg p1 else p1)"

section \<open>The ownership invariant\<close>

definition sock_detached :: "socket \<Rightarrow> bool" where
  "sock_detached sk \<longleftrightarrow> so_user_data sk = None \<and> sk_state_change sk = Cb_stack \<and>
     sk_write_space sk = Cb_stack \<and> sk_data_ready sk = Cb_stack"

definition sock_attached :: "sd_id \<Rightarrow> socket \<Rightarrow> bool" where
  "sock_attached d sk \<longleftrightarrow> so_user_data sk = Some d \<and> sk_state_change sk = Cb_wg \<and>
     sk_write_space sk = Cb_wg \<and> sk_data_ready sk = Cb_wg"

definition stack_wrapper :: "peer_id \<Rightarrow> sock_id \<Rightarrow> bool \<Rightarrow> wg_socket_data" where
  "stack_wrapper i s inbound = \<lparr>sd_peer = i, sd_socket = s, sd_inbound = inbound,
     original_state_change = Cb_stack, original_write_space = Cb_stack, original_data_ready = Cb_stack\<rparr>"

definition dir_ok :: "kern \<Rightarrow> wg_peer \<Rightarrow> bool \<Rightarrow> bool" where
  "dir_ok k p inbound \<longleftrightarrow>
     (dir_set inbound p \<longleftrightarrow> dir_data inbound p \<noteq> None) \<and>
     (case dir_socket inbound p of
        None \<Rightarrow> dir_data inbound p = None
      | Some s \<Rightarrow>
          so_releases (socks k s) = 0 \<and>
          (case dir_data inbound p of
             None \<Rightarrow> sock_detached (socks k s)
           | Some d \<Rightarrow> d < next_sd k \<and> sock_attached d (socks k s) \<and>
               sdata k d = Some (stack_wrapper (p_id p) s inbound)))"

definition tcp_wf :: "kern \<Rightarrow> wg_peer \<Rightarrow> bool" where
  "tcp_wf k p \<longleftrightarrow> dir_ok k p True \<and> dir_ok k p False \<and>
     (inbound_socket p \<noteq> None \<longrightarrow> inbound_socket p \<noteq> outbound_socket p) \<and>
     (peer_socket p \<noteq> None \<longrightarrow> peer_socket p = inbound_socket p \<or> peer_socket p = outbound_socket p)"

end
