(* ===== verification/Tcp_Ownership.thy ===== *)
theory Tcp_Ownership
  imports Tcp_Socket
begin

text \<open>
  The ownership discipline of Tcp\_Socket: installing callbacks, detaching them and
  releasing a socket keep \<open>tcp_wf\<close>; under it the invariant failures that the code
  guards against (\<open>EUCLEAN\<close>, \<open>EBUSY\<close>) do not occur, and the sequence
  detach-then-release always succeeds and releases the socket exactly once.
\<close>

text \<open>The sequence every teardown path runs.\<close>

definition detach_and_release :: "sock_id \<Rightarrow> wg_peer \<times> kern \<Rightarrow> errno option \<times> wg_peer \<times> kern" where
  "detach_and_release s pk =
     (case wg_reset_exact_tcp_socket_callbacks s pk of
        (None, pk1) \<Rightarrow> wg_release_peer_socket_locked s pk1
      | (Some e, pk1) \<Rightarrow> (Some e, pk1))"

definition owns :: "wg_peer \<Rightarrow> sock_id \<Rightarrow> bool" where
  "owns p s \<longleftrightarrow> inbound_socket p = Some s \<or> outbound_socket p = Some s"

lemma upd_sock_simps [simp]:
  "socks (upd_sock s f k) t = (if t = s then f (socks k s) else socks k t)"
  "sdata (upd_sock s f k) = sdata k" "next_sd (upd_sock s f k) = next_sd k"
  by (simp_all add: upd_sock_def)

text \<open>The invariant looks only at the sockets the peer owns and at its wrappers.\<close>

lemma dir_ok_cong:
  assumes "dir_socket b p' = dir_socket b p" "dir_data b p' = dir_data b p"
    "dir_set b p' = dir_set b p" "p_id p' = p_id p"
  shows "dir_ok k p' b = dir_ok k p b"
  using assms by (simp add: dir_ok_def cong: option.case_cong)

lemma tcp_wf_cong:
  assumes "inbound_socket p' = inbound_socket p" "outbound_socket p' = outbound_socket p"
    "tcp_inbound_socket_data p' = tcp_inbound_socket_data p"
    "tcp_outbound_socket_data p' = tcp_outbound_socket_data p"
    "tcp_inbound_callbacks_set p' = tcp_inbound_callbacks_set p"
    "tcp_outbound_callbacks_set p' = tcp_outbound_callbacks_set p"
    "p_id p' = p_id p" "peer_socket p' = peer_socket p \<or> peer_socket p' = None"
  shows "tcp_wf k p \<Longrightarrow> tcp_wf k p'"
proof -
  have "dir_ok k p' b = dir_ok k p b" for b
    using assms by (intro dir_ok_cong) (simp_all add: dir_defs)
  then show "tcp_wf k p \<Longrightarrow> tcp_wf k p'" using assms by (auto simp: tcp_wf_def)
qed

lemma dir_ok_kern:
  assumes "dir_ok k p b"
    and "\<And>s. dir_socket b p = Some s \<Longrightarrow> socks k' s = socks k s"
    and "\<And>d. dir_data b p = Some d \<Longrightarrow> sdata k' d = sdata k d"
    and "next_sd k \<le> next_sd k'"
  shows "dir_ok k' p b"
  using assms by (fastforce simp: dir_ok_def split: option.splits)

section \<open>Installing callbacks\<close>

lemma setup_wf:
  assumes "tcp_wf k p" "wg_setup_tcp_socket_callbacks a m wg s b (p, k) = (r, p', k')"
  shows "tcp_wf k' p' \<and> (r = None \<longrightarrow> dir_data b p' \<noteq> None \<and> dir_socket b p = Some s) \<and>
    (\<exists>d c. p' = set_dir b d c p) \<and> (\<forall>t. t \<noteq> s \<longrightarrow> socks k' t = socks k t) \<and>
    so_releases (socks k' s) = so_releases (socks k s) \<and> so_state (socks k' s) = so_state (socks k s)"
proof (cases "r = None \<and> \<not> dir_set b p")
  case False
  with assms(2) have same: "p' = p" "k' = k" "r = None \<longrightarrow> dir_set b p \<and> dir_socket b p = Some s"
    by (auto simp: wg_setup_tcp_socket_callbacks_def Let_def split: if_splits)
  have "p = set_dir b (dir_data b p) (dir_set b p) p" by (cases b) (simp_all add: dir_defs)
  moreover have "dir_set b p = (dir_data b p \<noteq> None)"
    using assms(1) by (cases b) (simp_all add: tcp_wf_def dir_ok_def)
  ultimately show ?thesis using same assms(1) by auto
next
  case True
  let ?w = "\<lparr>sd_peer = p_id p, sd_socket = s, sd_inbound = b,
    original_state_change = sk_state_change (socks k s),
    original_write_space = sk_write_space (socks k s), original_data_ready = sk_data_ready (socks k s)\<rparr>"
  from True assms(2) have g: "dir_socket b p = Some s" "\<not> dir_set b p" "dir_data b p = None" "r = None"
      and p': "p' = set_dir b (Some (next_sd k)) True p"
      and k': "k' = upd_sock s (\<lambda>sk. sk\<lparr>so_user_data := Some (next_sd k), sk_state_change := Cb_wg,
          sk_write_space := Cb_wg, sk_data_ready := Cb_wg\<rparr>)
        (k\<lparr>sdata := (sdata k)(next_sd k := Some ?w), next_sd := Suc (next_sd k)\<rparr>)"
    by (auto simp: wg_setup_tcp_socket_callbacks_def Let_def split: if_splits)
  from assms(1) have ok: "dir_ok k p b" "dir_ok k p (\<not> b)" by (cases b; simp add: tcp_wf_def)+
  have "dir_ok k' p' b"
    using ok(1) g
    by (cases b) (auto simp: dir_ok_def p' k' dir_defs sock_detached_def sock_attached_def stack_wrapper_def)
  moreover have "dir_ok k' p' (\<not> b)"
  proof -
    have "dir_ok k' p (\<not> b)"
    proof (rule dir_ok_kern [OF ok(2)])
      show "socks k' t = socks k t" if "dir_socket (\<not> b) p = Some t" for t
        using that g(1) assms(1) by (cases b) (auto simp: k' dir_defs tcp_wf_def)
      show "sdata k' d = sdata k d" if "dir_data (\<not> b) p = Some d" for d
        using that ok(2) by (auto simp: k' dir_ok_def split: option.splits)
    qed (simp add: k')
    moreover have "dir_ok k' p' (\<not> b) = dir_ok k' p (\<not> b)"
      by (rule dir_ok_cong) (simp_all add: p' dir_defs)
    ultimately show ?thesis by simp
  qed
  ultimately have "tcp_wf k' p'"
    using assms(1) by (cases b) (auto simp: tcp_wf_def p' set_dir_def)
  moreover have "\<exists>d c. p' = set_dir b d c p" using p' by blast
  ultimately show ?thesis using g by (simp add: p' k' dir_defs)
qed

section \<open>Detaching callbacks\<close>

lemma reset_wf:
  assumes "tcp_wf k p" "dir_socket b p = Some s"
  obtains k' where "wg_reset_tcp_socket_callbacks s b (p, k) = (None, set_dir b None False p, k')"
    "tcp_wf k' (set_dir b None False p)" "sock_detached (socks k' s)"
    "\<And>t. t \<noteq> s \<Longrightarrow> socks k' t = socks k t" "so_releases (socks k' s) = 0"
    "next_sd k' = next_sd k"
    "\<And>d. dir_data b p \<noteq> Some d \<Longrightarrow> sdata k' d = sdata k d"
proof -
  from assms have ok: "dir_ok k p b" "dir_ok k p (\<not> b)" by (cases b; simp add: tcp_wf_def)+
  show thesis
  proof (cases "dir_data b p")
    case None
    then have "wg_reset_tcp_socket_callbacks s b (p, k) = (None, p, k)" "set_dir b None False p = p"
      using ok(1) assms(2)
      by (cases b; simp add: wg_reset_tcp_socket_callbacks_def dir_ok_def sock_detached_def dir_defs Let_def)+
    moreover have "sock_detached (socks k s)" "so_releases (socks k s) = 0"
      using ok(1) None assms(2) by (simp_all add: dir_ok_def)
    ultimately show thesis using assms(1) that [of k] by simp
  next
    case (Some d)
    let ?k' = "upd_sock s (\<lambda>sk. sk\<lparr>sk_state_change := Cb_stack, sk_write_space := Cb_stack,
        sk_data_ready := Cb_stack, so_user_data := None\<rparr>) (k\<lparr>sdata := (sdata k)(d := None)\<rparr>)"
    let ?p' = "set_dir b None False p"
    have r: "wg_reset_tcp_socket_callbacks s b (p, k) = (None, ?p', ?k')"
      using ok(1) Some assms(2)
      by (simp add: wg_reset_tcp_socket_callbacks_def dir_ok_def sock_attached_def stack_wrapper_def
          upd_sock_def Let_def)
    have "dir_ok ?k' ?p' b"
      using ok(1) Some assms(2)
      by (cases b) (auto simp: dir_ok_def dir_defs sock_detached_def)
    moreover have "dir_ok ?k' ?p' (\<not> b)"
    proof -
      have "dir_ok ?k' p (\<not> b)"
      proof (rule dir_ok_kern [OF ok(2)])
        show "socks ?k' t = socks k t" if "dir_socket (\<not> b) p = Some t" for t
          using that assms by (cases b) (auto simp: dir_defs tcp_wf_def)
        show "sdata ?k' e = sdata k e" if "dir_data (\<not> b) p = Some e" for e
          using that ok Some assms(2) by (auto simp: dir_ok_def stack_wrapper_def split: option.splits)
      qed simp
      moreover have "dir_ok ?k' ?p' (\<not> b) = dir_ok ?k' p (\<not> b)"
        by (rule dir_ok_cong) (simp_all add: dir_defs)
      ultimately show ?thesis by simp
    qed
    ultimately have "tcp_wf ?k' ?p'"
      using assms(1) by (cases b) (auto simp: tcp_wf_def set_dir_def)
    moreover have "so_releases (socks k s) = 0" using ok(1) assms(2) by (simp add: dir_ok_def)
    ultimately show thesis
      using r Some by (intro that [of ?k']) (auto simp: sock_detached_def)
  qed
qed

section \<open>Releasing a socket\<close>

text \<open>The peer after a socket of it is gone: the result of detach-then-release.\<close>

definition released :: "sock_id \<Rightarrow> wg_peer \<Rightarrow> wg_peer" where
  "released s p =
     (let b = (inbound_socket p = Some s); active = (peer_socket p = Some s);
          p0 = set_dir b None False p;
          p1 = (if active then p0\<lparr>peer_socket := None, p_partial_skb := None, p_received_len := 0,
                  p_expected_len := 0, tcp_pending := False, tcp_retry_scheduled := False\<rparr> else p0);
          p2 = (if b then p1\<lparr>inbound_socket := None, inbound_connected := False, inbound_timestamp := 0\<rparr>
                else p1\<lparr>outbound_socket := None, outbound_connected := False, outbound_timestamp := 0\<rparr>);
          p3 = (if active \<or> \<not> inbound_connected p2 \<and> \<not> outbound_connected p2
                then p2\<lparr>tcp_established := False\<rparr> else p2)
      in if active then p3\<lparr>send_queue := []\<rparr> else p3)"

lemma owns_dir: "owns p s \<Longrightarrow> dir_socket (inbound_socket p = Some s) p = Some s"
  by (auto simp: owns_def dir_socket_def)

lemma reset_exact_dir:
  assumes "tcp_wf k p" "owns p s"
  shows "wg_reset_exact_tcp_socket_callbacks s (p, k) =
    wg_reset_tcp_socket_callbacks s (inbound_socket p = Some s) (p, k)"
  using assms
  by (auto simp: wg_reset_exact_tcp_socket_callbacks_def owns_def tcp_wf_def Let_def)

lemma release_dir_ok:
  assumes "tcp_wf k p" "b = (inbound_socket p = Some s)" "dir_socket b p = Some s" "dir_data b p = None"
    and "k' = upd_sock s f k"
    and "inbound_socket p' = (if b then None else inbound_socket p)"
    "outbound_socket p' = (if b then outbound_socket p else None)"
    "tcp_inbound_socket_data p' = tcp_inbound_socket_data p"
    "tcp_outbound_socket_data p' = tcp_outbound_socket_data p"
    "tcp_inbound_callbacks_set p' = tcp_inbound_callbacks_set p"
    "tcp_outbound_callbacks_set p' = tcp_outbound_callbacks_set p"
    "p_id p' = p_id p" "peer_socket p' = (if peer_socket p = Some s then None else peer_socket p)"
  shows "tcp_wf k' p'"
proof -
  from assms(1) have ok: "dir_ok k p b" "dir_ok k p (\<not> b)" by (cases b; simp add: tcp_wf_def)+
  have "dir_ok k' p' b"
    using ok(1) assms(3,4,6-12) by (cases b) (auto simp: dir_ok_def dir_defs)
  moreover have "dir_ok k' p (\<not> b)"
    by (rule dir_ok_kern [OF ok(2)])
      (use assms(1,2,3,5) in \<open>cases b; auto simp: dir_defs tcp_wf_def\<close>)+
  then have "dir_ok k' p' (\<not> b)"
    using assms(6-12) by (subst dir_ok_cong [where p = p]) (cases b; simp add: dir_defs)+
  ultimately show ?thesis
    using assms(1-3,6,7,13) by (cases b) (auto simp: tcp_wf_def dir_defs)
qed

lemma release_unfold:
  assumes "owns p s" "inbound_socket p \<noteq> None \<longrightarrow> inbound_socket p \<noteq> outbound_socket p"
  shows "wg_release_peer_socket_locked s (set_dir (inbound_socket p = Some s) None False p, k) =
    (None, released s p,
     upd_sock s (\<lambda>sk. sk\<lparr>so_shutdown := True, so_releases := Suc (so_releases sk)\<rparr>) k)"
  using assms
  by (cases "inbound_socket p = Some s"; cases "peer_socket p = Some s")
    (auto simp: wg_release_peer_socket_locked_def released_def Let_def set_dir_def owns_def)

lemma released_fields:
  "inbound_socket (released s p) = (if inbound_socket p = Some s then None else inbound_socket p)"
  "outbound_socket (released s p) = (if inbound_socket p = Some s then outbound_socket p else None)"
  "tcp_inbound_socket_data (released s p) =
     (if inbound_socket p = Some s then None else tcp_inbound_socket_data p)"
  "tcp_outbound_socket_data (released s p) =
     (if inbound_socket p = Some s then tcp_outbound_socket_data p else None)"
  "tcp_inbound_callbacks_set (released s p) =
     (inbound_socket p \<noteq> Some s \<and> tcp_inbound_callbacks_set p)"
  "tcp_outbound_callbacks_set (released s p) =
     (inbound_socket p = Some s \<and> tcp_outbound_callbacks_set p)"
  "p_id (released s p) = p_id p"
  "peer_socket (released s p) = (if peer_socket p = Some s then None else peer_socket p)"
  "tcp_stopping (released s p) = tcp_stopping p" "is_dead (released s p) = is_dead p"
  "temp_peer (released s p) = temp_peer p"
  by (auto simp: released_def Let_def set_dir_def)

text \<open>Under the invariant teardown of an owned socket succeeds, and exactly once.\<close>

lemma detach_and_release_ok:
  assumes "tcp_wf k p" "owns p s"
  obtains k' where "detach_and_release s (p, k) = (None, released s p, k')" "tcp_wf k' (released s p)"
    "sock_detached (socks k' s)" "so_releases (socks k' s) = 1" "so_shutdown (socks k' s)"
    "\<And>t. t \<noteq> s \<Longrightarrow> socks k' t = socks k t"
proof -
  let ?b = "inbound_socket p = Some s" and ?f = "\<lambda>sk. sk\<lparr>so_shutdown := True, so_releases := Suc (so_releases sk)\<rparr>"
  obtain k1 where r: "wg_reset_tcp_socket_callbacks s ?b (p, k) = (None, set_dir ?b None False p, k1)"
      "tcp_wf k1 (set_dir ?b None False p)" "sock_detached (socks k1 s)"
      "\<And>t. t \<noteq> s \<Longrightarrow> socks k1 t = socks k t" "so_releases (socks k1 s) = 0"
    using reset_wf [OF assms(1) owns_dir [OF assms(2)]] by metis
  have sep: "inbound_socket p \<noteq> None \<longrightarrow> inbound_socket p \<noteq> outbound_socket p"
    using assms(1) by (simp add: tcp_wf_def)
  have "detach_and_release s (p, k) = (None, released s p, upd_sock s ?f k1)"
    using release_unfold [OF assms(2) sep] r(1)
    by (simp add: detach_and_release_def reset_exact_dir [OF assms])
  moreover have "tcp_wf (upd_sock s ?f k1) (released s p)"
    by (rule release_dir_ok [OF r(2), where b = ?b and f = ?f and s = s])
      (use assms(2) in \<open>auto simp: released_fields dir_defs owns_def\<close>)
  ultimately show thesis
    using r that [of "upd_sock s ?f k1"] by (simp add: sock_detached_def)
qed

lemma detach_and_release_stale:
  "\<not> owns p s \<Longrightarrow> detach_and_release s (p, k) = (Some ESTALE, p, k)"
  by (simp add: detach_and_release_def wg_reset_exact_tcp_socket_callbacks_def owns_def Let_def)

lemma cancel_stream_wf: "tcp_wf k p \<Longrightarrow> tcp_wf k (wg_tcp_cancel_stream_workers p)"
  by (rule tcp_wf_cong) (simp_all add: wg_tcp_cancel_stream_workers_def)

lemma schedule_write_wf: "tcp_wf k p \<Longrightarrow> tcp_wf k (wg_tcp_schedule_write_locked wg p)"
  by (rule tcp_wf_cong) (simp_all add: wg_tcp_schedule_write_locked_def)

lemma rearm_wf: "tcp_wf k p \<Longrightarrow> tcp_wf k (wg_tcp_rearm_surviving_stream_locked wg k' p)"
  by (rule tcp_wf_cong)
    (simp_all add: wg_tcp_rearm_surviving_stream_locked_def wg_tcp_schedule_write_locked_def Let_def
      split: option.splits)

end
