(* ===== verification/Tcp_Connect.thy ===== *)
theory Tcp_Connect
  imports Tcp_Ownership Tcp_Admission
begin

text \<open>
  The life of an outbound carrier: dialling (\<open>wg_tcp_connect\<close> with
  \<open>wg_tcp_connect_unwind\<close>), the carrier bootstrap, and the socket callbacks
  \<open>wg_tcp_state_change\<close>, \<open>wg_tcp_data_ready\<close> and \<open>wg_tcp_write_space\<close>.

  The state is the device, the peer and the sockets. Work that holds the mutex
  \<open>tcp_socket_lock\<close> is interleaved with everything that only takes spin locks: at each
  point where such a function holds no spin lock the model runs \<open>env n\<close>, an arbitrary
  interference for the n-th point. Running a work item clears its pending mark.
\<close>

type_synonym tcp_sys = "wg_device \<times> wg_peer \<times> kern"
type_synonym tcp_env = "nat \<Rightarrow> tcp_sys \<Rightarrow> tcp_sys"

section \<open>Bootstrap\<close>

definition wg_tcp_publish_outbound_established_locked :: "ktime \<Rightarrow> sock_id \<Rightarrow> wg_peer \<Rightarrow> bool \<times> wg_peer" where
  "wg_tcp_publish_outbound_established_locked now s p =
     (if peer_socket p \<noteq> Some s \<or> outbound_socket p \<noteq> Some s then (False, p)
      else
        let first_observation = (\<not> tcp_established p \<or> \<not> outbound_connected p);
            p1 = p\<lparr>tcp_pending := False, tcp_established := True, outbound_connected := True\<rparr>
        in (first_observation, if first_observation then p1\<lparr>outbound_timestamp := now\<rparr> else p1))"

text \<open>The result says whether the keepalive that bootstraps the carrier is sent.\<close>

definition wg_tcp_send_carrier_bootstrap :: "sock_id \<Rightarrow> wg_device \<Rightarrow> wg_peer \<Rightarrow> bool" where
  "wg_tcp_send_carrier_bootstrap s wg p =
     (tcp_alive wg p \<and> transport wg = WG_TRANSPORT_TCP \<and> netif_running wg \<and>
      \<not> tcp_outbound_remove_scheduled p \<and> peer_socket p = Some s \<and> outbound_socket p = Some s \<and>
      tcp_established p \<and> outbound_connected p)"

definition wg_tcp_queue_carrier_bootstrap :: "sock_id \<Rightarrow> wg_peer \<Rightarrow> wg_peer" where
  "wg_tcp_queue_carrier_bootstrap s p =
     (if \<not> is_dead p \<and> \<not> tcp_stopping p \<and> peer_socket p = Some s \<and> outbound_socket p = Some s
      then p\<lparr>tcp_bootstrap_socket := Some s, wk_bootstrap := Some 0\<rparr> else p)"

definition wg_tcp_bootstrap_worker :: "wg_device \<Rightarrow> wg_peer \<Rightarrow> bool \<times> wg_peer" where
  "wg_tcp_bootstrap_worker wg p =
     (let p1 = p\<lparr>wk_bootstrap := None, tcp_bootstrap_socket := None\<rparr>
      in case tcp_bootstrap_socket p of
           None \<Rightarrow> (False, p1)
         | Some s \<Rightarrow> (wg_tcp_send_carrier_bootstrap s wg p1, p1))"

section \<open>Requesting a reconnect\<close>

definition wg_tcp_peer_request_reconnect_after :: "nat \<Rightarrow> wg_device \<Rightarrow> wg_peer \<Rightarrow> wg_peer" where
  "wg_tcp_peer_request_reconnect_after delay wg p =
     (if \<not> tcp_alive wg p \<or> transport wg \<noteq> WG_TRANSPORT_TCP \<or> \<not> netif_running wg \<or>
         \<not> peer_endpoint_set p
      then p
      else
        let p1 = p\<lparr>tcp_reconnect_requested := True\<rparr> in
        if \<not> tcp_connecting p1 \<and> \<not> tcp_outbound_remove_scheduled p1
        then p1\<lparr>tcp_outbound_remove_scheduled := True, tcp_outbound_remove_socket := outbound_socket p1,
                wk_outbound_remove := Some delay\<rparr>
        else p1)"

definition wg_tcp_peer_request_reconnect :: "wg_device \<Rightarrow> wg_peer \<Rightarrow> wg_peer" where
  "wg_tcp_peer_request_reconnect wg p = wg_tcp_peer_request_reconnect_after 0 wg p"

section \<open>Callbacks\<close>

text \<open>The wrapper a callback on socket \<open>s\<close> finds, when it belongs to the peer \<open>p\<close>.\<close>

definition wrapper_of :: "sock_id \<Rightarrow> wg_peer \<Rightarrow> kern \<Rightarrow> wg_socket_data option" where
  "wrapper_of s p k =
     (case Option.bind (so_user_data (socks k s)) (sdata k) of
        None \<Rightarrow> None
      | Some w \<Rightarrow> if sd_peer w = p_id p then Some w else None)"

definition tcp_closing :: "tcp_state \<Rightarrow> bool" where
  "tcp_closing st \<longleftrightarrow>
     st \<in> {TCP_CLOSE, TCP_CLOSE_WAIT, TCP_CLOSING, TCP_FIN_WAIT1, TCP_FIN_WAIT2, TCP_LAST_ACK}"

text \<open>
  What \<open>wg_tcp_state_change\<close> does under \<open>tcp_lock\<close> when the carrier of one direction
  closes; the flag says that this call claimed the removal and has to queue it.
\<close>

definition sc_close_inbound :: "sock_id \<Rightarrow> wg_peer \<Rightarrow> bool \<times> wg_peer" where
  "sc_close_inbound s p =
     (if inbound_socket p \<noteq> Some s then (False, p)
      else
        let p1 = p\<lparr>inbound_timestamp := 0, inbound_connected := False\<rparr>;
            claim = (\<not> tcp_inbound_remove_scheduled p1);
            p2 = (if claim then p1\<lparr>tcp_inbound_remove_scheduled := True,
                                    tcp_inbound_remove_socket := inbound_socket p1\<rparr> else p1)
        in (claim, if \<not> inbound_connected p2 \<and> \<not> outbound_connected p2
                   then p2\<lparr>tcp_established := False\<rparr> else p2))"

definition sc_close_outbound :: "sock_id \<Rightarrow> wg_peer \<Rightarrow> bool \<times> wg_peer" where
  "sc_close_outbound s p =
     (if outbound_socket p \<noteq> Some s then (False, p)
      else
        let p1 = p\<lparr>outbound_timestamp := 0, outbound_connected := False, tcp_pending := False\<rparr> in
        if tcp_connecting p1 then (False, p1)
        else
          let p2 = p1\<lparr>tcp_reconnect_requested := True\<rparr>;
              claim = (\<not> tcp_outbound_remove_scheduled p2);
              p3 = (if claim then p2\<lparr>tcp_outbound_remove_scheduled := True,
                                      tcp_outbound_remove_socket := outbound_socket p2\<rparr> else p2)
          in (claim, if \<not> inbound_connected p3 \<and> \<not> outbound_connected p3
                     then p3\<lparr>tcp_established := False\<rparr> else p3))"

text \<open>The removal is queued after the original callback ran, if the claim still stands.\<close>

definition sc_queue_inbound :: "sock_id \<Rightarrow> wg_device \<Rightarrow> wg_peer \<Rightarrow> wg_peer" where
  "sc_queue_inbound s wg p =
     (if tcp_alive wg p \<and> tcp_inbound_remove_scheduled p \<and>
         tcp_inbound_remove_socket p = inbound_socket p \<and> inbound_socket p = Some s
      then p\<lparr>wk_inbound_remove := Some 0\<rparr> else p)"

definition sc_queue_outbound :: "sock_id \<Rightarrow> wg_device \<Rightarrow> wg_peer \<Rightarrow> wg_peer" where
  "sc_queue_outbound s wg p =
     (if tcp_alive wg p \<and> tcp_outbound_remove_scheduled p \<and>
         tcp_outbound_remove_socket p = outbound_socket p \<and> outbound_socket p = Some s
      then p\<lparr>wk_outbound_remove := Some 0\<rparr> else p)"

definition sc_established :: "ktime \<Rightarrow> sock_id \<Rightarrow> wg_peer \<Rightarrow> bool \<times> wg_peer" where
  "sc_established now s p =
     (if outbound_socket p \<noteq> Some s then (False, p)
      else
        let (first, p1) = wg_tcp_publish_outbound_established_locked now s p
        in (first, if tcp_retry_scheduled p1
                   then p1\<lparr>tcp_retry_scheduled := False, wk_retry := None\<rparr> else p1))"

text \<open>\<open>env 0\<close> is what runs between the critical section and the queueing that follows.\<close>

definition wg_tcp_state_change :: "tcp_env \<Rightarrow> ktime \<Rightarrow> sock_id \<Rightarrow> tcp_sys \<Rightarrow> tcp_sys" where
  "wg_tcp_state_change env now s sys =
     (case sys of (wg, p, k) \<Rightarrow>
        (case wrapper_of s p k of
           None \<Rightarrow> sys
         | Some w \<Rightarrow>
             if is_dead p \<or> \<not> sd_inbound w \<and> tcp_outbound_remove_scheduled p \<or>
                sd_inbound w \<and> tcp_inbound_remove_scheduled p
             then sys
             else if so_state (socks k s) = TCP_ESTABLISHED then
               (if temp_peer p \<or> sd_inbound w then sys
                else
                  let (first, p1) = sc_established now s p;
                      (wg2, p2, k2) = env 0 (wg, p1, k)
                  in (wg2, if first then wg_tcp_queue_carrier_bootstrap s p2 else p2, k2))
             else if tcp_closing (so_state (socks k s)) then
               (if temp_peer p then
                  (wg\<lparr>wk_cleanup := (if tcp_cleanup_scheduled wg then Some 0 else wk_cleanup wg)\<rparr>,
                   p\<lparr>is_dead := True\<rparr>, k)
                else if sd_inbound w then
                  let (claim, p1) = sc_close_inbound s p;
                      (wg2, p2, k2) = env 0 (wg, p1, k)
                  in (wg2, if claim then sc_queue_inbound s wg2 p2 else p2, k2)
                else
                  let (claim, p1) = sc_close_outbound s p;
                      (wg2, p2, k2) = env 0 (wg, p1, k)
                  in (wg2, if claim then sc_queue_outbound s wg2 p2 else p2, k2))
             else sys))"

definition wg_tcp_data_ready :: "ktime \<Rightarrow> sock_id \<Rightarrow> tcp_sys \<Rightarrow> tcp_sys" where
  "wg_tcp_data_ready now s sys =
     (case sys of (wg, p, k) \<Rightarrow>
        if wrapper_of s p k = None \<or> is_dead p then sys
        else
          let wg1 = (if temp_peer p then wg_touch_tcp_connection now p wg else wg) in
          if tcp_alive wg1 p \<and> no_removal p \<and> \<not> tcp_read_worker_scheduled p \<and> tcp_read_wq p
          then (wg1, p\<lparr>tcp_read_worker_scheduled := True, wk_read := Some 0\<rparr>, k)
          else (wg1, p, k))"

definition wg_tcp_write_space :: "sock_id \<Rightarrow> tcp_sys \<Rightarrow> tcp_sys" where
  "wg_tcp_write_space s sys =
     (case sys of (wg, p, k) \<Rightarrow>
        if wrapper_of s p k = None \<or> is_dead p \<or> \<not> tcp_write_wq p then sys
        else (wg, wg_tcp_schedule_write wg p, k))"

text \<open>
  The tail of \<open>wg_tcp_read_worker\<close>: the claim on the reader is given up, and taken again
  when the socket \<open>so\<close> it read from is still the active one and has more for it.
\<close>

definition read_out :: "wg_device \<Rightarrow> sock_id option \<Rightarrow> bool \<Rightarrow> kern \<Rightarrow> wg_peer \<Rightarrow> wg_peer" where
  "read_out wg so budget_exhausted k p =
     (let p1 = p\<lparr>tcp_read_worker_scheduled := False\<rparr> in
      case so of
        None \<Rightarrow> p1
      | Some s \<Rightarrow>
          if tcp_alive wg p1 \<and> no_removal p1 \<and> tcp_read_wq p1 \<and> peer_socket p1 = Some s \<and>
             (sk_rx_pending (socks k s) \<or>
              budget_exhausted \<and> p_partial_skb p1 \<noteq> None \<and> p_expected_len p1 = 0 \<and>
              p_received_len p1 \<ge> WG_TCP_ENCAP_HDR_LEN)
          then p1\<lparr>tcp_read_worker_scheduled := True, wk_read := Some 0\<rparr> else p1)"

section \<open>Dialling\<close>

text \<open>
  What the kernel answers to one dial: whether the namespace is alive, the socket that
  \<open>sock_create_kern\<close> makes, allocation and module reference of the callback set-up,
  the answer of \<open>kernel_connect\<close> with the tuple it selects and the state it leaves the
  socket in, the time, and the interference.
\<close>

record connect_env =
  ce_net_ok :: bool
  ce_create :: "errno + sock_id"
  ce_alloc_ok :: bool
  ce_module_ok :: bool
  ce_connect :: "errno option"
  ce_tuple :: inet_sock
  ce_state :: tcp_state
  ce_now :: ktime
  ce_env :: tcp_env

definition reconnect_wanted :: "wg_device \<Rightarrow> wg_peer \<Rightarrow> bool" where
  "reconnect_wanted wg p \<longleftrightarrow> tcp_reconnect_requested p \<and> \<not> tcp_stopping p \<and>
     tcp_cleanup_scheduled wg \<and> transport wg = WG_TRANSPORT_TCP"

text \<open>The last critical sections of the unwinding: publish the disconnected state, requeue a request.\<close>

definition unwind_publish :: "wg_device \<Rightarrow> wg_peer \<Rightarrow> bool \<times> wg_peer" where
  "unwind_publish wg p =
     (let p1 = p\<lparr>tcp_connecting := False, tcp_pending := False, tcp_established := False,
                 outbound_connected := False, tcp_outbound_remove_socket := None\<rparr>;
          queue = reconnect_wanted wg p1;
          p2 = (if queue then p1\<lparr>tcp_outbound_remove_scheduled := True\<rparr>
                else if \<not> tcp_stopping p1 then p1\<lparr>tcp_outbound_remove_scheduled := False\<rparr> else p1)
      in (queue, p2\<lparr>clean_outbound := False, outbound_timestamp := 0\<rparr>))"

definition unwind_queue :: "wg_peer \<Rightarrow> wg_peer" where
  "unwind_queue p =
     (if \<not> tcp_stopping p \<and> tcp_reconnect_requested p \<and> tcp_outbound_remove_scheduled p
      then p\<lparr>wk_outbound_remove := Some 0\<rparr> else p)"

definition sock_release :: "sock_id \<Rightarrow> kern \<Rightarrow> kern" where
  "sock_release s k = upd_sock s (\<lambda>sk. sk\<lparr>so_releases := Suc (so_releases sk)\<rparr>) k"

definition wg_tcp_connect_unwind :: "tcp_env \<Rightarrow> sock_id option \<Rightarrow> tcp_sys \<Rightarrow> tcp_sys" where
  "wg_tcp_connect_unwind env so sys =
     (case sys of (wg, p, k) \<Rightarrow>
        let owns_socket = (so \<noteq> None \<and> (peer_socket p = so \<or> outbound_socket p = so));
            p1 = (if owns_socket then p\<lparr>tcp_outbound_remove_scheduled := True,
                                         tcp_outbound_remove_socket := so\<rparr> else p);
            (wg2, p2, k2) = env 4 (wg, p1, k);
            (detach_ret, p3, k3) =
              (if owns_socket then detach_and_release (the so) (wg_tcp_cancel_stream_workers p2, k2)
               else (None, p2, k2))
        in
        if detach_ret \<noteq> None then (wg2, p3\<lparr>tcp_connecting := False\<rparr>, k3)
        else
          let (wg4, p4, k4) = env 5 (wg2, p3, k3);
              (queue_reconnect, p5) = unwind_publish wg4 p4;
              k5 = (if so \<noteq> None \<and> \<not> owns_socket then sock_release (the so) k4 else k4);
              (wg6, p6, k6) = env 6 (wg4, p5, k5)
          in (wg6, if queue_reconnect then unwind_queue p6 else p6, k6))"

text \<open>The claim of the attempt: \<open>Inl ret\<close> when it is refused with that answer.\<close>

definition connect_claim :: "wg_device \<Rightarrow> wg_peer \<Rightarrow> errno option + wg_peer" where
  "connect_claim wg p =
     (if \<not> tcp_alive wg p \<or> transport wg \<noteq> WG_TRANSPORT_TCP \<or> \<not> netif_running wg \<or>
         tcp_established p \<or> tcp_pending p \<or> inbound_connected p \<or> outbound_connected p \<or>
         tcp_outbound_remove_scheduled p
      then Inl None
      else if peer_socket p \<noteq> None \<or> outbound_socket p \<noteq> None then Inl (Some EALREADY)
      else Inr (p\<lparr>tcp_connecting := True, tcp_pending := True, tcp_established := False,
                  outbound_connected := False, tcp_outbound_callbacks_set := False,
                  outbound_timestamp := 0\<rparr>))"

definition connect_publish :: "sock_id \<Rightarrow> wg_device \<Rightarrow> wg_peer \<Rightarrow> errno + wg_peer" where
  "connect_publish s wg p =
     (if \<not> tcp_alive wg p \<or> transport wg \<noteq> WG_TRANSPORT_TCP \<or> \<not> netif_running wg \<or>
         \<not> tcp_connecting p \<or> \<not> tcp_pending p \<or> peer_socket p \<noteq> None \<or> outbound_socket p \<noteq> None
      then Inl ESHUTDOWN
      else Inr (p\<lparr>peer_socket := Some s, outbound_socket := Some s\<rparr>))"

text \<open>\<open>inet_sk\<close> after \<open>kernel_connect\<close>: the cached source and destination of the carrier.\<close>

definition connect_tuple :: "endpoint \<Rightarrow> inet_sock \<Rightarrow> wg_peer \<Rightarrow> wg_peer" where
  "connect_tuple target sk p =
     (if ep_family target = AF_INET
      then p\<lparr>outbound_source := Sa_in (inet_saddr sk) (inet_sport sk),
             outbound_dest := Sa_in (inet_daddr sk) (inet_dport sk)\<rparr>
      else p\<lparr>outbound_source := Sa_in6 (sk_v6_saddr sk) (inet_sport sk) 0,
             outbound_dest := Sa_in6 (sk_v6_daddr sk) (inet_dport sk) (sin6_scope_id (ep_sockaddr target))\<rparr>)"

definition connect_finish ::
  "ktime \<Rightarrow> sock_id \<Rightarrow> tcp_state \<Rightarrow> wg_device \<Rightarrow> wg_peer \<Rightarrow> errno + bool \<times> wg_peer" where
  "connect_finish now s st wg p =
     (if \<not> tcp_alive wg p \<or> transport wg \<noteq> WG_TRANSPORT_TCP \<or> \<not> netif_running wg \<or>
         peer_socket p \<noteq> Some s \<or> outbound_socket p \<noteq> Some s \<or>
         st \<notin> {TCP_SYN_SENT, TCP_SYN_RECV, TCP_ESTABLISHED}
      then Inl ECONNABORTED
      else
        let p1 = p\<lparr>tcp_connecting := False\<rparr>;
            (first, p2) = (if st = TCP_ESTABLISHED
                           then wg_tcp_publish_outbound_established_locked now s p1 else (False, p1))
        in Inr (first,
             if tcp_reconnect_requested p2 \<and> \<not> tcp_stopping p2 \<and> \<not> tcp_outbound_remove_scheduled p2
             then p2\<lparr>tcp_outbound_remove_scheduled := True, tcp_outbound_remove_socket := Some s,
                     wk_outbound_remove := Some 0\<rparr>
             else if tcp_pending p2 \<and> \<not> tcp_retry_scheduled p2
             then p2\<lparr>tcp_retry_scheduled := True, wk_retry := Some 10000\<rparr> else p2))"

definition kernel_connect :: "connect_env \<Rightarrow> sock_id \<Rightarrow> kern \<Rightarrow> kern" where
  "kernel_connect c s k = upd_sock s (\<lambda>sk. sk\<lparr>so_sk := ce_tuple c, so_state := ce_state c\<rparr>) k"

definition connect_fail :: "connect_env \<Rightarrow> errno \<Rightarrow> sock_id option \<Rightarrow> tcp_sys \<Rightarrow> errno option \<times> tcp_sys" where
  "connect_fail c e so sys = (Some e, wg_tcp_connect_unwind (ce_env c) so sys)"

text \<open>The final check; when this dial saw the carrier up first it queues the bootstrap.\<close>

definition connect_end :: "connect_env \<Rightarrow> endpoint \<Rightarrow> sock_id \<Rightarrow> tcp_sys \<Rightarrow> errno option \<times> tcp_sys" where
  "connect_end c target s sys =
     (case sys of (wg, p, k) \<Rightarrow>
        let p1 = connect_tuple target (so_sk (socks k s)) p in
        (case connect_finish (ce_now c) s (so_state (socks k s)) wg p1 of
           Inl e \<Rightarrow> connect_fail c e (Some s) (wg, p1, k)
         | Inr (bootstrap, p2) \<Rightarrow>
             (case ce_env c 3 (wg, p2, k) of (wg3, p3, k3) \<Rightarrow>
                (None, wg3, if bootstrap then wg_tcp_queue_carrier_bootstrap s p3 else p3, k3))))"

text \<open>From the published socket on: callbacks, the non-blocking connect, the final check.\<close>

definition connect_dial :: "connect_env \<Rightarrow> endpoint \<Rightarrow> sock_id \<Rightarrow> tcp_sys \<Rightarrow> errno option \<times> tcp_sys" where
  "connect_dial c target s sys =
     (case ce_env c 1 sys of (wg, p, k) \<Rightarrow>
        (case wg_setup_tcp_socket_callbacks (ce_alloc_ok c) (ce_module_ok c) wg s False (p, k) of
           (Some e, p1, k1) \<Rightarrow> connect_fail c e (Some s) (wg, p1, k1)
         | (None, p1, k1) \<Rightarrow>
             (case ce_env c 2 (wg, p1, kernel_connect c s k1) of (wg2, p2, k2) \<Rightarrow>
                if ce_connect c \<noteq> None \<and> ce_connect c \<noteq> Some EINPROGRESS
                then connect_fail c (the (ce_connect c)) (Some s) (wg2, p2, k2)
                else connect_end c target s (wg2, p2, k2))))"

definition wg_tcp_connect :: "connect_env \<Rightarrow> tcp_sys \<Rightarrow> errno option \<times> tcp_sys" where
  "wg_tcp_connect c sys =
     (case sys of (wg, p, k) \<Rightarrow>
        let target = (if peer_endpoint_set p then peer_endpoint p else Ep_unspec) in
        if transport wg \<noteq> WG_TRANSPORT_TCP then (Some EINVAL, sys)
        else if ep_family target \<noteq> AF_INET \<and> ep_family target \<noteq> AF_INET6 then (Some EAFNOSUPPORT, sys)
        else
          (case connect_claim wg p of
             Inl ret \<Rightarrow> (ret, sys)
           | Inr p1 \<Rightarrow>
               (case ce_env c 0 (wg, p1, k) of (wg2, p2, k2) \<Rightarrow>
                  if \<not> (creating_net wg2 \<and> ce_net_ok c) then connect_fail c ENONET None (wg2, p2, k2)
                  else
                    (case ce_create c of
                       Inl e \<Rightarrow> connect_fail c e None (wg2, p2, k2)
                     | Inr s \<Rightarrow>
                         let k3 = upd_sock s (\<lambda>sk. sk\<lparr>sk_mark := fwmark wg2\<rparr>) k2 in
                         (case connect_publish s wg2 p2 of
                            Inl e \<Rightarrow> connect_fail c e (Some s) (wg2, p2, k3)
                          | Inr p3 \<Rightarrow> connect_dial c target s (wg2, p3, k3))))))"

definition wg_release_peer_tcp_connection :: "wg_peer \<times> kern \<Rightarrow> wg_peer \<times> kern" where
  "wg_release_peer_tcp_connection pk =
     (case peer_socket (fst pk) of
        None \<Rightarrow> pk
      | Some s \<Rightarrow> snd (detach_and_release s pk))"

section \<open>Retrying\<close>

definition retry_after :: "nat \<Rightarrow> wg_peer \<Rightarrow> wg_peer" where
  "retry_after delay p =
     (if \<not> tcp_stopping p \<and> \<not> tcp_retry_scheduled p
      then p\<lparr>tcp_retry_scheduled := True, wk_retry := Some delay\<rparr> else p)"

text \<open>Dial again, and retry in half a minute when that fails.\<close>

definition redial :: "connect_env \<Rightarrow> tcp_sys \<Rightarrow> tcp_sys" where
  "redial c sys =
     (case wg_tcp_connect c sys of
        (None, sys1) \<Rightarrow> sys1
      | (Some e, sys1) \<Rightarrow>
          (case ce_env c 7 sys1 of (wg, p, k) \<Rightarrow> (wg, retry_after 30000 p, k)))"

definition retry_claim :: "wg_peer \<Rightarrow> wg_peer" where
  "retry_claim p =
     (if \<not> tcp_established p \<and> tcp_pending p then
        let p1 = p\<lparr>tcp_reconnect_requested := True\<rparr> in
        if \<not> tcp_outbound_remove_scheduled p1
        then p1\<lparr>tcp_outbound_remove_scheduled := True, tcp_outbound_remove_socket := outbound_socket p1,
                wk_outbound_remove := Some 0\<rparr>
        else p1
      else p)"

definition wg_tcp_retry_worker :: "tcp_env \<Rightarrow> connect_env \<Rightarrow> tcp_sys \<Rightarrow> tcp_sys" where
  "wg_tcp_retry_worker env c sys =
     (case sys of (wg, p, k) \<Rightarrow>
        let p1 = p\<lparr>wk_retry := None, tcp_retry_scheduled := False\<rparr> in
        if \<not> tcp_alive wg p1 \<or> transport wg \<noteq> WG_TRANSPORT_TCP then (wg, p1, k)
        else
          let p2 = retry_claim p1 in
          if tcp_outbound_remove_scheduled p2 then (wg, p2, k)
          else redial c (env 0 (wg, p2, k)))"

section \<open>Removing a carrier\<close>

text \<open>
  The part the two removal workers share: the claimed socket is torn down only if it is
  still the peer's; the first result says whether the claim was clean, the second
  whether detaching failed.
\<close>

definition remove_claimed ::
  "tcp_env \<Rightarrow> bool \<Rightarrow> tcp_sys \<Rightarrow> bool \<times> bool \<times> tcp_sys" where
  "remove_claimed env inbound sys =
     (case sys of (wg, p, k) \<Rightarrow>
        let socket = (if inbound then tcp_inbound_remove_socket p else tcp_outbound_remove_socket p);
            clean_claim = (dir_socket inbound p = socket);
            active = (clean_claim \<and> socket \<noteq> None \<and> peer_socket p = socket);
            (wg1, p1, k1) = env 1 (wg, if inbound then p else p\<lparr>tcp_retry_scheduled := False\<rparr>, k);
            p2 = (if active then wg_tcp_cancel_stream_workers p1 else p1)
        in (case (if clean_claim then socket else None) of
              None \<Rightarrow> (clean_claim, False, wg1, p2, k1)
            | Some s \<Rightarrow>
                (case detach_and_release s (p2, k1) of
                   (ret, p3, k3) \<Rightarrow> (True, ret \<noteq> None, wg1, p3, k3))))"

definition wg_tcp_outbound_remove_worker :: "tcp_env \<Rightarrow> connect_env \<Rightarrow> tcp_sys \<Rightarrow> tcp_sys" where
  "wg_tcp_outbound_remove_worker env c sys =
     (case sys of (wg, p, k) \<Rightarrow>
        let retry_needed = (tcp_retry_scheduled p \<or> wk_retry p \<noteq> None);
            (clean_claim, detach_failed, sys1) =
              remove_claimed env False (env 0 (wg, p\<lparr>wk_outbound_remove := None, wk_retry := None\<rparr>, k));
            (wg2, p2, k2) = env 2 sys1;
            reconnect = tcp_reconnect_requested p2;
            stopping = tcp_stopping p2
        in
        if detach_failed then (wg2, p2, k2)
        else
          let p3 = p2\<lparr>tcp_reconnect_requested := False, tcp_outbound_remove_scheduled := False,
                     tcp_outbound_remove_socket := None\<rparr>;
              (wg4, p4, k4) = env 3 (wg2, p3, k2);
              p5 = wg_tcp_rearm_surviving_stream_locked wg4 k4 p4;
              (wg6, p6, k6) = env 4 (wg4, p5, k4)
          in
          if stopping \<or> is_dead p6 \<or> \<not> tcp_cleanup_scheduled wg6 \<or> transport wg6 \<noteq> WG_TRANSPORT_TCP
          then (wg6, p6, k6)
          else if \<not> clean_claim then (wg6, wg_tcp_peer_request_reconnect wg6 p6, k6)
          else if reconnect then redial c (wg6, p6, k6)
          else if retry_needed then (wg6, retry_after 10000 p6, k6)
          else (wg6, p6, k6))"

definition wg_tcp_inbound_remove_worker :: "tcp_env \<Rightarrow> tcp_sys \<Rightarrow> tcp_sys" where
  "wg_tcp_inbound_remove_worker env sys =
     (case sys of (wg, p, k) \<Rightarrow>
        if temp_peer p then
          (wg\<lparr>wk_cleanup := (if tcp_cleanup_scheduled wg then Some 0 else wk_cleanup wg)\<rparr>,
           p\<lparr>wk_inbound_remove := None, is_dead := True\<rparr>, k)
        else
          let (clean_claim, detach_failed, sys1) =
                remove_claimed env True (env 0 (wg, p\<lparr>wk_inbound_remove := None\<rparr>, k));
              (wg2, p2, k2) = env 2 sys1
          in
          if detach_failed then (wg2, p2, k2)
          else
            let (wg3, p3, k3) = env 3 (wg2, p2\<lparr>tcp_inbound_remove_scheduled := False,
                                                tcp_inbound_remove_socket := None\<rparr>, k2)
            in (wg3, wg_tcp_rearm_surviving_stream_locked wg3 k3 p3, k3))"

end
