(* ===== verification/Tcp_Endpoint.thy ===== *)
theory Tcp_Endpoint
  imports Tcp_Connect
begin

text \<open>
  Endpoints of a peer (kernel/wg\_tcp.c and kernel/socket.c): the observed tuple
  \<open>endpoint\<close>, the dial target \<open>peer_endpoint\<close> with the configured listen port, and
  roaming: which authenticated carrier may move the dial target.
\<close>

section \<open>Comparing endpoints\<close>

fun endpoint_eq :: "endpoint \<Rightarrow> endpoint \<Rightarrow> bool" where
  "endpoint_eq (Ep4 a p s i) (Ep4 a' p' s' i') = (p = p' \<and> a = a' \<and> s = s' \<and> i = i')"
| "endpoint_eq (Ep6 a p sc s) (Ep6 a' p' sc' s') = (p = p' \<and> a = a' \<and> sc = sc' \<and> s = s')"
| "endpoint_eq a b = (ep_family a = 0 \<and> ep_family b = 0)"

fun wg_tcp_dial_target_eq :: "endpoint \<Rightarrow> endpoint \<Rightarrow> bool" where
  "wg_tcp_dial_target_eq (Ep4 a p _ _) (Ep4 a' p' _ _) = (p = p' \<and> a = a')"
| "wg_tcp_dial_target_eq (Ep6 a p sc _) (Ep6 a' p' sc' _) = (p = p' \<and> a = a' \<and> sc = sc')"
| "wg_tcp_dial_target_eq _ _ = False"

fun ep_port :: "endpoint \<Rightarrow> u16" where
  "ep_port (Ep4 _ p _ _) = p" | "ep_port (Ep6 _ p _ _) = p" | "ep_port _ = 0"

section \<open>Setting endpoints\<close>

text \<open>
  The part under \<open>endpoint_lock\<close>: \<open>None\<close> when there is nothing to change or the family is
  not supported; otherwise whether a configured dial target changed.
\<close>

definition set_endpoint_locked ::
  "endpoint \<Rightarrow> bool \<Rightarrow> wg_device \<Rightarrow> wg_peer \<Rightarrow> (bool \<times> wg_peer) option" where
  "set_endpoint_locked ep configured wg p =
     (if endpoint_eq ep (endpoint p) \<and>
         (\<not> configured \<or> transport wg \<noteq> WG_TRANSPORT_TCP \<or>
          peer_endpoint_set p \<and> endpoint_eq ep (peer_endpoint p))
      then None
      else if (case ep of Ep4 _ _ _ _ \<Rightarrow> False | Ep6 _ _ _ _ \<Rightarrow> False | _ \<Rightarrow> True) then None
      else
        let p1 = p\<lparr>endpoint := ep\<rparr> in
        if transport wg \<noteq> WG_TRANSPORT_TCP then Some (False, p1)
        else
          let p2 = p1\<lparr>tcp_reply_endpoint := ep\<rparr> in
          if \<not> configured then Some (False, p2)
          else Some (peer_endpoint_set p \<and> \<not> endpoint_eq (peer_endpoint p) ep,
                     p2\<lparr>peer_endpoint := ep, tcp_peer_listen_port := ep_port ep,
                        peer_endpoint_set := True\<rparr>))"

definition wg_socket_set_peer_endpoint_internal ::
  "tcp_env \<Rightarrow> connect_env \<Rightarrow> endpoint \<Rightarrow> bool \<Rightarrow> tcp_sys \<Rightarrow> tcp_sys" where
  "wg_socket_set_peer_endpoint_internal env c ep configured sys =
     (case sys of (wg, p, k) \<Rightarrow>
        (case set_endpoint_locked ep configured wg p of
           None \<Rightarrow> sys
         | Some (tcp_target_changed, p1) \<Rightarrow>
             if transport wg \<noteq> WG_TRANSPORT_TCP \<or> \<not> configured then (wg, p1, k)
             else
               (case env 0 (wg, p1, k) of (wg2, p2, k2) \<Rightarrow>
                  if tcp_target_changed then (wg2, wg_tcp_peer_request_reconnect wg2 p2, k2)
                  else if netif_running wg2 \<and> \<not> tcp_established p2
                  then snd (wg_tcp_connect c (wg2, p2, k2))
                  else (wg2, p2, k2))))"

text \<open>An observed endpoint never dials, so the arguments for dialling are not needed.\<close>

definition wg_socket_set_peer_endpoint :: "endpoint \<Rightarrow> wg_device \<Rightarrow> wg_peer \<Rightarrow> wg_peer" where
  "wg_socket_set_peer_endpoint ep wg p =
     (case set_endpoint_locked ep False wg p of None \<Rightarrow> p | Some (_, p1) \<Rightarrow> p1)"

definition wg_socket_set_peer_endpoint_configured ::
  "tcp_env \<Rightarrow> connect_env \<Rightarrow> endpoint \<Rightarrow> tcp_sys \<Rightarrow> tcp_sys" where
  "wg_socket_set_peer_endpoint_configured env c ep sys =
     wg_socket_set_peer_endpoint_internal env c ep True sys"

lemma set_endpoint_observed:
  "wg_socket_set_peer_endpoint_internal env c ep False (wg, p, k) =
    (wg, wg_socket_set_peer_endpoint ep wg p, k)"
  by (simp add: wg_socket_set_peer_endpoint_internal_def wg_socket_set_peer_endpoint_def
      split: option.split)

text \<open>The claim of a carrier for promotion, under \<open>tcp_lock\<close>.\<close>

definition request_promotion :: "u64 \<Rightarrow> wg_peer \<Rightarrow> wg_peer" where
  "request_promotion connection_id p =
     (if \<not> is_dead p \<and> \<not> tcp_stopping p \<and> connection_id > tcp_promotion_connection_id p then
        let p1 = p\<lparr>tcp_promotion_connection_id := connection_id\<rparr> in
        if \<not> tcp_promotion_worker_scheduled p1
        then p1\<lparr>tcp_promotion_worker_scheduled := True, wk_promotion := Some 0\<rparr> else p1
      else p)"

text \<open>The address of an authenticated carrier with the configured port: what to dial next.\<close>

fun roam_target :: "u16 \<Rightarrow> endpoint \<Rightarrow> endpoint option" where
  "roam_target port (Ep4 a _ _ _) = Some (Ep4 a port 0 0)"
| "roam_target port (Ep6 a _ sc _) = Some (Ep6 a port sc 0)"
| "roam_target port _ = None"

definition roam_locked :: "endpoint \<Rightarrow> u64 \<Rightarrow> wg_peer \<Rightarrow> bool \<times> wg_peer" where
  "roam_locked ep connection_id p =
     (if \<not> peer_endpoint_set p \<or> connection_id = 0 \<or> connection_id < tcp_roaming_connection_id p
      then (False, p)
      else
        (case roam_target (tcp_peer_listen_port p) ep of
           None \<Rightarrow> (False, p)
         | Some target \<Rightarrow>
             let p1 = p\<lparr>tcp_roaming_connection_id := connection_id\<rparr> in
             if wg_tcp_dial_target_eq (peer_endpoint p1) target then (False, p1)
             else (True, p1\<lparr>peer_endpoint := target\<rparr>)))"

definition wg_socket_set_peer_endpoint_authenticated ::
  "tcp_env \<Rightarrow> ktime \<Rightarrow> endpoint \<Rightarrow> u64 \<Rightarrow> tcp_sys \<Rightarrow> tcp_sys" where
  "wg_socket_set_peer_endpoint_authenticated env now ep connection_id sys =
     (case sys of (wg, p, k) \<Rightarrow>
        let p1 = wg_socket_set_peer_endpoint ep wg p in
        if transport wg \<noteq> WG_TRANSPORT_TCP then (wg, p1, k)
        else
          (case env 0 (wg, p1, k) of (wg2, p2, k2) \<Rightarrow>
             let (wg3, p3) =
                   (if connection_id \<noteq> 0
                    then (wg_tcp_mark_connection_authenticated now connection_id wg2,
                          request_promotion connection_id p2)
                    else (wg2, p2))
             in
             (case env 1 (wg3, p3, k2) of (wg4, p4, k4) \<Rightarrow>
                let (target_changed, p5) = roam_locked ep connection_id p4 in
                (case env 2 (wg4, p5, k4) of (wg6, p6, k6) \<Rightarrow>
                   (wg6, if target_changed \<and> \<not> temp_peer p6
                         then wg_tcp_peer_request_reconnect_after 100 wg6 p6 else p6, k6)))))"

fun clear_src :: "endpoint \<Rightarrow> endpoint" where
  "clear_src (Ep4 a p _ _) = Ep4 a p 0 0" | "clear_src (Ep6 a p sc _) = Ep6 a p sc 0" | "clear_src e = e"

definition wg_socket_clear_peer_endpoint_src :: "wg_peer \<Rightarrow> wg_peer" where
  "wg_socket_clear_peer_endpoint_src p = p\<lparr>endpoint := clear_src (endpoint p)\<rparr>"

section \<open>Endpoints of sockets\<close>

definition ipv6_linklocal :: "addr6 \<Rightarrow> bool" where
  "ipv6_linklocal a \<longleftrightarrow> drop_bit 118 a = 0x3FA"

definition wg_extract_endpoint_from_sock :: "inet_sock \<Rightarrow> endpoint" where
  "wg_extract_endpoint_from_sock sk =
     (if sk_family sk = AF_INET then Ep4 (inet_daddr sk) (inet_dport sk) 0 0
      else if sk_family sk = AF_INET6 then
        Ep6 (sk_v6_daddr sk) (inet_dport sk)
          (if ipv6_linklocal (sk_v6_daddr sk) then sk_bound_dev_if sk else 0) 0
      else Ep_unspec)"

text \<open>
  The addresses of an accepted socket. \<open>local\<close> and \<open>remote\<close> are what \<open>kernel_getsockname\<close>
  and \<open>kernel_getpeername\<close> answer: an error, or an address and its length.
\<close>

definition copy_sock_addresses ::
  "errno + sockaddr \<times> int \<Rightarrow> errno + sockaddr \<times> int \<Rightarrow> errno + sockaddr \<times> sockaddr" where
  "copy_sock_addresses local remote =
     (case local of
        Inl e \<Rightarrow> Inl e
      | Inr (src, llen) \<Rightarrow>
          if \<not> wg_sockaddr_length_valid src llen then Inl EINVAL
          else
            (case remote of
               Inl e \<Rightarrow> Inl e
             | Inr (dst, rlen) \<Rightarrow>
                 if \<not> wg_sockaddr_length_valid dst rlen then Inl EINVAL
                 else if ss_family src \<noteq> ss_family dst then Inl EAFNOSUPPORT
                 else Inr (src, dst)))"

definition wg_find_peer_by_endpoints :: "endpoint \<Rightarrow> wg_peer list \<Rightarrow> wg_peer option" where
  "wg_find_peer_by_endpoints ep ps =
     List.find (\<lambda>p. endpoint_eq (endpoint p) ep \<or> endpoint_eq (peer_endpoint p) ep \<or>
                    endpoint_eq (tcp_reply_endpoint p) ep) ps"

text \<open>The reply endpoint of an accepted socket; \<open>ep\<close> is what the peer had before.\<close>

definition wg_get_endpoint_from_socket :: "inet_sock \<Rightarrow> endpoint \<Rightarrow> endpoint" where
  "wg_get_endpoint_from_socket sk ep =
     (if sk_family sk = AF_INET then
        (if inet_daddr sk = 0 \<or> inet_dport sk = 0 then ep
         else Ep4 (inet_daddr sk) (inet_dport sk) (inet_saddr sk) (uint (sk_bound_dev_if sk)))
      else if sk_family sk = AF_INET6 then
        (if sk_v6_daddr sk = 0 \<or> inet_dport sk = 0 then ep
         else Ep6 (sk_v6_daddr sk) (inet_dport sk)
                (if ipv6_linklocal (sk_v6_saddr sk) then sk_bound_dev_if sk else 0) (sk_v6_saddr sk))
      else ep)"

section \<open>What is dialled\<close>

text \<open>
  The critical sections that write endpoints; every interleaving of the functions above
  is a sequence of them.
\<close>

datatype ep_op = Configure endpoint | Observe endpoint | Roam endpoint u64 | Clear_src

fun ep_step :: "wg_device \<Rightarrow> ep_op \<Rightarrow> wg_peer \<Rightarrow> wg_peer" where
  "ep_step wg (Configure ep) p = (case set_endpoint_locked ep True wg p of None \<Rightarrow> p | Some (_, p1) \<Rightarrow> p1)"
| "ep_step wg (Observe ep) p = wg_socket_set_peer_endpoint ep wg p"
| "ep_step wg (Roam ep cid) p = snd (roam_locked ep cid p)"
| "ep_step wg Clear_src p = wg_socket_clear_peer_endpoint_src p"

text \<open>What a reader of the documentation expects: the host and port to dial, and the newest carrier.\<close>

datatype host = Host4 u32 | Host6 addr6 u32

fun ep_host :: "endpoint \<Rightarrow> host option" where
  "ep_host (Ep4 a _ _ _) = Some (Host4 a)" | "ep_host (Ep6 a _ sc _) = Some (Host6 a sc)" | "ep_host _ = None"

record dial =
  dial_to :: "(host \<times> u16) option"
  newest :: u64

fun dial_step :: "ep_op \<Rightarrow> dial \<Rightarrow> dial" where
  "dial_step (Configure ep) d =
     (case ep_host ep of None \<Rightarrow> d | Some h \<Rightarrow> d\<lparr>dial_to := Some (h, ep_port ep)\<rparr>)"
| "dial_step (Roam ep cid) d =
     (case (ep_host ep, dial_to d) of
        (Some h, Some (_, port)) \<Rightarrow>
          if cid \<noteq> 0 \<and> newest d \<le> cid then \<lparr>dial_to = Some (h, port), newest = cid\<rparr> else d
      | _ \<Rightarrow> d)"
| "dial_step _ d = d"

definition dial_abs :: "wg_peer \<Rightarrow> dial" where
  "dial_abs p = \<lparr>dial_to = (if peer_endpoint_set p
                           then map_option (\<lambda>h. (h, ep_port (peer_endpoint p))) (ep_host (peer_endpoint p))
                           else None),
                newest = tcp_roaming_connection_id p\<rparr>"

definition dial_ok :: "wg_peer \<Rightarrow> bool" where
  "dial_ok p \<longleftrightarrow> (peer_endpoint_set p \<longrightarrow>
     ep_host (peer_endpoint p) \<noteq> None \<and> ep_port (peer_endpoint p) = tcp_peer_listen_port p)"

lemma endpoint_eq_same:
  "endpoint_eq a b \<Longrightarrow> ep_host a \<noteq> None \<Longrightarrow> a = b"
  by (cases a; cases b) (auto simp: AF_INET_def AF_INET6_def)

lemma configure_refines:
  assumes "dial_ok p" "transport wg = WG_TRANSPORT_TCP"
  shows "dial_ok (ep_step wg (Configure ep) p) \<and>
    dial_abs (ep_step wg (Configure ep) p) = dial_step (Configure ep) (dial_abs p)"
proof (cases "ep_host ep")
  case None
  then have "ep_step wg (Configure ep) p = p"
    by (cases ep) (auto simp: set_endpoint_locked_def)
  then show ?thesis using assms None by simp
next
  case (Some h)
  then have kind: "\<not> (case ep of Ep4 _ _ _ _ \<Rightarrow> False | Ep6 _ _ _ _ \<Rightarrow> False | _ \<Rightarrow> True)"
    by (cases ep) auto
  show ?thesis
    using assms Some kind endpoint_eq_same [of ep "peer_endpoint p"]
    by (auto simp: set_endpoint_locked_def dial_ok_def dial_abs_def Let_def)
qed

lemma roam_refines:
  assumes "dial_ok p"
  shows "dial_ok (ep_step wg (Roam ep cid) p) \<and>
    dial_abs (ep_step wg (Roam ep cid) p) = dial_step (Roam ep cid) (dial_abs p)"
  using assms
  by (cases ep; cases "peer_endpoint p")
    (auto simp: roam_locked_def dial_ok_def dial_abs_def Let_def not_less)

lemma other_refines:
  "dial_ok p \<Longrightarrow> dial_ok (ep_step wg (Observe ep) p) \<and> dial_abs (ep_step wg (Observe ep) p) = dial_abs p"
  "dial_ok p \<Longrightarrow> dial_ok (ep_step wg Clear_src p) \<and> dial_abs (ep_step wg Clear_src p) = dial_abs p"
  by (auto simp: wg_socket_set_peer_endpoint_def set_endpoint_locked_def dial_ok_def dial_abs_def
      wg_socket_clear_peer_endpoint_src_def Let_def split: option.split)

lemma ep_step_refines:
  assumes "dial_ok p" "transport wg = WG_TRANSPORT_TCP"
  shows "dial_ok (ep_step wg e p) \<and> dial_abs (ep_step wg e p) = dial_step e (dial_abs p)"
proof (cases e)
  case (Configure ep)
  then show ?thesis using configure_refines [OF assms] by blast
next
  case (Observe ep)
  then show ?thesis using other_refines(1) [OF assms(1), of wg ep] by (simp del: ep_step.simps)
next
  case (Roam ep cid)
  then show ?thesis using roam_refines [OF assms(1), of wg ep cid] by (simp del: ep_step.simps dial_step.simps)
next
  case Clear_src
  then show ?thesis using other_refines(2) [OF assms(1), of wg] by (simp del: ep_step.simps)
qed

text \<open>C27. What a peer dials is determined by configuration and authentication alone: along
  every sequence of the critical sections that write endpoints, the dial target is the
  host of the last configured endpoint or of the newest authenticated accepted carrier
  since, always with the last configured port. An ephemeral source port never
  replaces the listen port, an observed tuple never moves the target, and a carrier
  older than the newest one never does.\<close>

theorem dial_target_refines:
  assumes "transport wg = WG_TRANSPORT_TCP" "dial_ok p"
  shows "dial_abs (fold (ep_step wg) ops p) = fold dial_step ops (dial_abs p) \<and>
    dial_ok (fold (ep_step wg) ops p)"
  using assms(2)
proof (induction ops arbitrary: p)
  case (Cons e ops)
  then show ?case
    using ep_step_refines [OF Cons.prems assms(1), of e] Cons.IH [of "ep_step wg e p"]
    by (simp del: ep_step.simps dial_step.simps)
qed simp

text \<open>Configured, then roamed by carrier 5, observed with an ephemeral port, and a late older carrier.\<close>

definition demo_moves :: "ep_op list" where
  "demo_moves =
     [Configure (Ep4 0x0A000001 51820 0 0), Roam (Ep4 0x0A000009 40001 0 0) 5,
      Observe (Ep4 0x0A000009 40001 0x0A000002 3), Roam (Ep4 0x0A000007 40002 0 0) 4, Clear_src]"

theorem dial_target_refines_witness:
  "peer_endpoint (fold (ep_step demo_dev) demo_moves (fresh_peer 1)) = Ep4 0x0A000009 51820 0 0 \<and>
   dial_abs (fold (ep_step demo_dev) demo_moves (fresh_peer 1)) =
     \<lparr>dial_to = Some (Host4 0x0A000009, 51820), newest = 5\<rparr>"
proof
  have ok: "dial_ok (fresh_peer 1)" "transport demo_dev = WG_TRANSPORT_TCP"
    by (simp_all add: dial_ok_def fresh_peer_def demo_dev_def)
  have "fold dial_step demo_moves (dial_abs (fresh_peer 1)) = \<lparr>dial_to = Some (Host4 0x0A000009, 51820), newest = 5\<rparr>"
    by (simp add: demo_moves_def dial_abs_def fresh_peer_def)
  then show "dial_abs (fold (ep_step demo_dev) demo_moves (fresh_peer 1)) =
     \<lparr>dial_to = Some (Host4 0x0A000009, 51820), newest = 5\<rparr>"
    using dial_target_refines [OF ok(2,1), of demo_moves] by simp
  show "peer_endpoint (fold (ep_step demo_dev) demo_moves (fresh_peer 1)) = Ep4 0x0A000009 51820 0 0"
    by (simp add: demo_moves_def fresh_peer_def demo_dev_def set_endpoint_locked_def roam_locked_def
        wg_socket_set_peer_endpoint_def wg_socket_clear_peer_endpoint_src_def Let_def)
qed

end
