(* ===== verification/Tcp_Lifecycle.thy ===== *)
theory Tcp_Lifecycle
  imports Tcp_Endpoint
begin

text \<open>
  Every way a configured peer's carriers change, as one transition system: the work
  items and functions that hold \<open>tcp_socket_lock\<close>, interleaved with everything that
  only takes spin locks. The theorems: the ownership invariant holds throughout, no
  socket is released twice, and stopping a peer is final.
\<close>

section \<open>Stopping a peer\<close>

text \<open>The first critical section of \<open>wg_tcp_peer_stop\<close>, then the rest under the mutex.\<close>

definition peer_stop_claim :: "wg_peer \<Rightarrow> wg_peer" where
  "peer_stop_claim p =
     p\<lparr>tcp_stopping := True, tcp_reconnect_requested := False,
       tcp_outbound_remove_scheduled := True, tcp_outbound_remove_socket := outbound_socket p,
       tcp_inbound_remove_scheduled := True, tcp_inbound_remove_socket := inbound_socket p\<rparr>"

definition peer_cancel_works :: "wg_peer \<Rightarrow> wg_peer" where
  "peer_cancel_works p =
     p\<lparr>wk_retry := None, wk_outbound_remove := None, wk_inbound_remove := None,
       wk_bootstrap := None, wk_promotion := None\<rparr>"

definition peer_stop_drain :: "wg_peer \<Rightarrow> wg_peer" where
  "peer_stop_drain p =
     p\<lparr>wk_read := None, wk_write := None, tcp_retry_scheduled := False,
       tcp_read_worker_scheduled := False, tcp_write_worker_scheduled := False, send_queue := []\<rparr>"

text \<open>Teardown of one snapshot socket; the flag accumulates failures.\<close>

definition stop_release :: "sock_id option \<Rightarrow> bool \<times> wg_peer \<times> kern \<Rightarrow> bool \<times> wg_peer \<times> kern" where
  "stop_release so st =
     (case (so, st) of
        (None, _) \<Rightarrow> st
      | (Some s, failed, pk) \<Rightarrow>
          (case detach_and_release s pk of (ret, pk1) \<Rightarrow> (failed \<or> ret \<noteq> None, pk1)))"

definition peer_stop_finish :: "tcp_env \<Rightarrow> tcp_sys \<Rightarrow> tcp_sys" where
  "peer_stop_finish env sys =
     (case sys of (wg, p, k) \<Rightarrow>
        let (wg1, p1, k1) = env 0 (wg, peer_cancel_works p, k);
            p2 = p1\<lparr>tcp_outbound_remove_scheduled := True, tcp_outbound_remove_socket := outbound_socket p1,
                    tcp_inbound_remove_scheduled := True, tcp_inbound_remove_socket := inbound_socket p1\<rparr>;
            outbound = outbound_socket p2;
            inbound = inbound_socket p2;
            (wg3, p3, k3) = env 1 (wg1, p2, k1);
            st4 = stop_release outbound (False, peer_stop_drain p3, k3);
            (failed, p5, k5) = (if inbound \<noteq> outbound then stop_release inbound st4 else st4);
            (wg6, p6, k6) = env 2 (wg3, p5, k5)
        in if failed then (wg6, p6\<lparr>tcp_teardown_quarantined := True\<rparr>, k6)
           else (wg6, p6\<lparr>tcp_established := False, tcp_pending := False, tcp_connecting := False,
                         tcp_reconnect_requested := False, inbound_connected := False,
                         outbound_connected := False, tcp_outbound_remove_scheduled := False,
                         tcp_outbound_remove_socket := None, tcp_inbound_remove_scheduled := False,
                         tcp_inbound_remove_socket := None\<rparr>, k6))"

definition wg_tcp_peer_stop :: "tcp_env \<Rightarrow> tcp_sys \<Rightarrow> tcp_sys" where
  "wg_tcp_peer_stop env sys =
     (case sys of (wg, p, k) \<Rightarrow> peer_stop_finish env (wg, peer_stop_claim p, k))"

section \<open>Interference\<close>

text \<open>What ownership consists of, on the side of the peer and of a socket; the work items.\<close>

definition peer_own :: "wg_peer \<Rightarrow> (peer_id \<times> bool \<times> sock_id option \<times> sock_id option \<times> sock_id option) \<times>
    sd_id option \<times> sd_id option \<times> bool \<times> bool" where
  "peer_own p = ((p_id p, temp_peer p, peer_socket p, inbound_socket p, outbound_socket p),
     tcp_inbound_socket_data p, tcp_outbound_socket_data p,
     tcp_inbound_callbacks_set p, tcp_outbound_callbacks_set p)"

definition sock_own :: "socket \<Rightarrow> sd_id option \<times> callback \<times> callback \<times> callback \<times> nat" where
  "sock_own sk = (so_user_data sk, sk_state_change sk, sk_write_space sk, sk_data_ready sk, so_releases sk)"

definition works :: "wg_peer \<Rightarrow> work list" where
  "works p = [wk_retry p, wk_outbound_remove p, wk_inbound_remove p, wk_read p, wk_write p,
     wk_bootstrap p, wk_promotion p]"

definition no_new_work :: "wg_peer \<Rightarrow> wg_peer \<Rightarrow> bool" where
  "no_new_work p p' \<longleftrightarrow> list_all2 (\<lambda>w w'. w' = None \<or> w' = w) (works p) (works p')"

text \<open>A quiet change: ownership stays, a stopping peer keeps stopping and gets no new work.\<close>

definition quiet_peer :: "wg_peer \<Rightarrow> wg_peer \<Rightarrow> bool" where
  "quiet_peer p p' \<longleftrightarrow> peer_own p' = peer_own p \<and>
     (tcp_stopping p \<longrightarrow> tcp_stopping p' \<and> no_new_work p p')"

definition quiet_kern :: "kern \<Rightarrow> kern \<Rightarrow> bool" where
  "quiet_kern k k' \<longleftrightarrow> sdata k' = sdata k \<and> next_sd k' = next_sd k \<and>
     (\<forall>s. sock_own (socks k' s) = sock_own (socks k s))"

definition quiet :: "tcp_sys \<Rightarrow> tcp_sys \<Rightarrow> bool" where
  "quiet x y \<longleftrightarrow> quiet_peer (fst (snd x)) (fst (snd y)) \<and> quiet_kern (snd (snd x)) (snd (snd y))"

text \<open>
  Interference: everything that runs without \<open>tcp_socket_lock\<close>. Callbacks may
  themselves be interrupted; the stack changes sockets and the device changes in any
  way that does not concern ownership.
\<close>

inductive interf :: "tcp_sys \<Rightarrow> tcp_sys \<Rightarrow> bool" where
  interf_refl: "interf sys sys"
| interf_state: "interf sys sys1 \<Longrightarrow> (\<And>n x. interf x (env n x)) \<Longrightarrow>
    interf sys (wg_tcp_state_change env now s sys1)"
| interf_data: "interf sys sys1 \<Longrightarrow> interf sys (wg_tcp_data_ready now s sys1)"
| interf_space: "interf sys sys1 \<Longrightarrow> interf sys (wg_tcp_write_space s sys1)"
| interf_send: "interf sys (wg, p, k) \<Longrightarrow>
    interf sys (wg, snd (wg_socket_send_skb_to_peer t a c u wg skb p), k)"
| interf_write: "interf sys (wg, p, k) \<Longrightarrow> wr_peer st = p \<Longrightarrow> wr_kern st = k \<Longrightarrow>
    st' = wg_tcp_write_worker wg (\<lambda>p. p) st \<Longrightarrow> interf sys (wg, wr_peer st', wr_kern st')"
| interf_read: "interf sys (wg, p, k) \<Longrightarrow>
    interf sys (wg, read_out wg so b k (p\<lparr>wk_read := None, p_partial_skb := q, p_expected_len := e,
                                        p_received_len := r\<rparr>), k)"
| interf_reconnect: "interf sys (wg, p, k) \<Longrightarrow>
    interf sys (wg, wg_tcp_peer_request_reconnect_after d wg p, k)"
| interf_endpoint: "interf sys (wg, p, k) \<Longrightarrow> interf sys (wg, ep_step wg e p, k)"
| interf_auth: "interf sys sys1 \<Longrightarrow> (\<And>n x. interf x (env n x)) \<Longrightarrow>
    interf sys (wg_socket_set_peer_endpoint_authenticated env now ep cid sys1)"
| interf_stop: "interf sys (wg, p, k) \<Longrightarrow> interf sys (wg, peer_stop_claim p, k)"
| interf_dead: "interf sys (wg, p, k) \<Longrightarrow> interf sys (wg, p\<lparr>is_dead := True\<rparr>, k)"
| interf_device: "interf sys (wg, p, k) \<Longrightarrow> interf sys (wg', p, k)"
| interf_kernel: "interf sys (wg, p, k) \<Longrightarrow> quiet_kern k k' \<Longrightarrow> interf sys (wg, p, k')"

named_theorems quiet_intros \<open>operations that are quiet\<close>

lemmas quiet_defs = quiet_peer_def peer_own_def no_new_work_def works_def

lemma quiet_peer_refl [simp, intro]: "quiet_peer p p"
  by (simp add: quiet_defs)

lemma quiet_kern_refl [simp, intro]: "quiet_kern k k"
  by (simp add: quiet_kern_def)

lemma quiet_refl [simp, intro]: "quiet x x"
  by (simp add: quiet_def)

lemma no_new_work_trans: "no_new_work p q \<Longrightarrow> no_new_work q r \<Longrightarrow> no_new_work p r"
  unfolding no_new_work_def by (rule list_all2_trans) auto

lemma quiet_peer_trans: "quiet_peer p q \<Longrightarrow> quiet_peer q r \<Longrightarrow> quiet_peer p r"
  by (auto simp: quiet_peer_def intro: no_new_work_trans)

lemma quiet_kern_trans: "quiet_kern k l \<Longrightarrow> quiet_kern l m \<Longrightarrow> quiet_kern k m"
  by (simp add: quiet_kern_def)

lemma quiet_trans [trans]: "quiet x y \<Longrightarrow> quiet y z \<Longrightarrow> quiet x z"
  by (auto simp: quiet_def intro: quiet_peer_trans quiet_kern_trans)

lemma quiet_pair [simp]: "quiet (wg, p, k) (wg', p', k') \<longleftrightarrow> quiet_peer p p' \<and> quiet_kern k k'"
  by (simp add: quiet_def)

lemma quiet_schedule_write [quiet_intros]: "quiet_peer p (wg_tcp_schedule_write_locked wg p)"
  by (simp add: quiet_defs wg_tcp_schedule_write_locked_def tcp_alive_def)

lemma quiet_bootstrap [quiet_intros]: "quiet_peer p (wg_tcp_queue_carrier_bootstrap s p)"
  by (simp add: quiet_defs wg_tcp_queue_carrier_bootstrap_def)

lemma quiet_publish [quiet_intros]:
  "quiet_peer p (snd (wg_tcp_publish_outbound_established_locked now s p))"
  by (simp add: quiet_defs wg_tcp_publish_outbound_established_locked_def Let_def)

lemma quiet_established [quiet_intros]: "quiet_peer p (snd (sc_established now s p))"
  by (simp add: quiet_defs sc_established_def wg_tcp_publish_outbound_established_locked_def Let_def)

lemma quiet_close [quiet_intros]:
  "quiet_peer p (snd (sc_close_inbound s p))" "quiet_peer p (snd (sc_close_outbound s p))"
  by (simp_all add: quiet_defs sc_close_inbound_def sc_close_outbound_def Let_def)

lemma quiet_queue [quiet_intros]:
  "quiet_peer p (sc_queue_inbound s wg p)" "quiet_peer p (sc_queue_outbound s wg p)"
  by (simp_all add: quiet_defs sc_queue_inbound_def sc_queue_outbound_def tcp_alive_def)

lemma quiet_reconnect [quiet_intros]: "quiet_peer p (wg_tcp_peer_request_reconnect_after d wg p)"
  by (simp add: quiet_defs wg_tcp_peer_request_reconnect_after_def tcp_alive_def Let_def)

lemma quiet_enqueue [quiet_intros]: "quiet_peer p (snd (wg_tcp_enqueue_frame t wg f p))"
  by (simp add: quiet_defs wg_tcp_enqueue_frame_def wg_tcp_schedule_write_locked_def tcp_alive_def)

lemma quiet_send [quiet_intros]:
  "quiet_peer p (snd (wg_socket_send_skb_to_peer t a c u wg skb p))"
proof -
  have tx: "quiet_peer p q \<Longrightarrow> quiet_peer p (q\<lparr>tx_bytes := n\<rparr>)" for q n
    by (simp add: quiet_defs)
  have en: "wg_tcp_enqueue_frame t wg f p = (r, q) \<Longrightarrow> quiet_peer p q" for f r q
    using quiet_enqueue [of p t wg f] by simp
  have re: "tcp_alive wg p \<Longrightarrow> quiet_peer p (p\<lparr>tcp_retry_scheduled := True, wk_retry := w\<rparr>)" for w
    by (simp add: quiet_defs tcp_alive_def)
  show ?thesis
    by (auto simp: wg_socket_send_skb_to_peer_def Let_def intro!: tx re dest: en
        split: option.splits prod.splits sum.splits)
qed

lemma quiet_endpoint [quiet_intros]: "quiet_peer p (ep_step wg e p)"
  by (cases e) (auto simp: quiet_defs set_endpoint_locked_def wg_socket_set_peer_endpoint_def
      wg_socket_clear_peer_endpoint_src_def roam_locked_def Let_def split: option.splits if_splits)

lemma quiet_promotion [quiet_intros]: "quiet_peer p (request_promotion cid p)"
  by (simp add: quiet_defs request_promotion_def Let_def)

lemma quiet_stop_claim [quiet_intros]: "quiet_peer p (peer_stop_claim p)"
  by (simp add: quiet_defs peer_stop_claim_def)

lemma quiet_state_change:
  assumes "\<And>n x. quiet x (env n x)"
  shows "quiet sys (wg_tcp_state_change env now s sys)"
proof -
  obtain wg p k where sys: "sys = (wg, p, k)" by (cases sys)
  have via: "quiet (wg, p, k) (wg2, f p2, k2)"
    if "quiet_peer p p1" "env 0 (wg, p1, k) = (wg2, p2, k2)" "\<And>q. quiet_peer q (f q)" for p1 p2 f wg2 k2
    using assms [of "(wg, p1, k)" 0] that by (auto intro: quiet_peer_trans)
  have queue: "quiet (wg, p, k)
      (let (c, p1) = step; (wg2, p2, k2) = env 0 (wg, p1, k) in (wg2, if c then f wg2 p2 else p2, k2))"
    if "quiet_peer p (snd step)" "\<And>w q. quiet_peer q (f w q)" for step :: "bool \<times> wg_peer" and f
    using that via [OF that(1), of _ _ _ "\<lambda>q. q"] via [OF that(1), of _ _ _ "f _"]
    by (cases step; cases "env 0 (wg, snd step, k)") (auto simp: Let_def)
  have dead: "quiet_peer p (p\<lparr>is_dead := True\<rparr>)"
    by (simp add: quiet_defs)
  show ?thesis
    using queue [OF quiet_established, of "\<lambda>_. wg_tcp_queue_carrier_bootstrap s" now s]
      queue [OF quiet_close(1), of "sc_queue_inbound s" s]
      queue [OF quiet_close(2), of "sc_queue_outbound s" s]
    unfolding sys wg_tcp_state_change_def prod.case Let_def
    by (simp add: quiet_intros dead split: option.split)
qed

lemma quiet_data_ready: "quiet sys (wg_tcp_data_ready now s sys)"
  by (cases sys) (simp add: wg_tcp_data_ready_def Let_def quiet_defs tcp_alive_def)

lemma quiet_write_space: "quiet sys (wg_tcp_write_space s sys)"
  by (cases sys) (simp add: wg_tcp_write_space_def wg_tcp_schedule_write_def quiet_schedule_write)

lemma quiet_fail_exact: "quiet_peer p (fst (wg_tcp_fail_exact_socket wg s p))"
  by (simp add: quiet_defs wg_tcp_fail_exact_socket_def Let_def)

lemma quiet_arm: "quiet_kern k (wg_tcp_arm_write_space s k)"
  by (simp add: quiet_kern_def sock_own_def wg_tcp_arm_write_space_def)

lemma quiet_wr_round:
  assumes "wr_round wg s skb st = (b, st')"
  shows "quiet_peer (wr_peer st) (wr_peer st') \<and> quiet_kern (wr_kern st) (wr_kern st')"
proof -
  have rq: "quiet_peer p (p\<lparr>send_queue := q\<rparr>)" for p q
    by (simp add: quiet_defs)
  show ?thesis
    using assms quiet_fail_exact [of "wr_peer st" wg s]
    by (auto simp: wr_round_def wr_fail_def wr_requeue_def Let_def rq quiet_arm
        split: prod.splits send_result.splits if_splits)
qed

lemma quiet_write_loop:
  "quiet_peer (wr_peer st) (wr_peer (write_loop wg s st)) \<and> quiet_kern (wr_kern st) (wr_kern (write_loop wg s st))"
proof (induction wg s st rule: write_loop.induct)
  case (1 wg s st)
  show ?case
  proof (cases "send_queue (wr_peer st)")
    case Nil
    then show ?thesis by (simp add: write_loop.simps)
  next
    case (Cons skb q)
    let ?st = "st\<lparr>wr_peer := (wr_peer st)\<lparr>send_queue := q\<rparr>\<rparr>"
    obtain b st' where r: "wr_round wg s skb ?st = (b, st')" by fastforce
    have pop: "quiet_peer (wr_peer st) ((wr_peer st)\<lparr>send_queue := q\<rparr>)"
      by (simp add: quiet_defs)
    have st': "quiet_peer (wr_peer st) (wr_peer st')" "quiet_kern (wr_kern st) (wr_kern st')"
      using quiet_wr_round [OF r] pop by (auto intro: quiet_peer_trans)
    show ?thesis
    proof (cases b)
      case True
      then show ?thesis
        using "1.IH" [OF Cons r [symmetric]] st' r Cons
        by (auto simp: write_loop.simps [of wg s st] intro: quiet_peer_trans quiet_kern_trans)
    next
      case False
      then show ?thesis using st' r Cons by (simp add: write_loop.simps [of wg s st])
    qed
  qed
qed

lemma quiet_write_out: "quiet_peer p (write_out wg so k p)"
  by (auto simp: quiet_defs write_out_def tcp_alive_def Let_def split: option.split)

lemma quiet_write_worker:
  "quiet (wg, wr_peer st, wr_kern st)
     (wg, wr_peer (wg_tcp_write_worker wg (\<lambda>p. p) st), wr_kern (wg_tcp_write_worker wg (\<lambda>p. p) st))"
proof -
  have deq: "quiet_peer p (p\<lparr>wk_write := None\<rparr>)" for p
    by (simp add: quiet_defs)
  have out: "quiet_peer p (write_out wg so k (p\<lparr>wk_write := None\<rparr>))" for p so k
    using deq quiet_write_out by (rule quiet_peer_trans)
  have loop: "quiet_peer p (write_out wg (Some s) k (wr_peer (write_loop wg s u)))"
    "quiet_kern (wr_kern st) (wr_kern (write_loop wg s u))"
    if "wr_peer u = p\<lparr>wk_write := None\<rparr>" "wr_kern u = wr_kern st" for p s k u
    using quiet_write_loop [of u wg s] quiet_write_out deq that by (metis quiet_peer_trans)+
  show ?thesis
    using loop [where p = "wr_peer st"]
    by (auto simp: wg_tcp_write_worker_def Let_def out split: option.split prod.split)
qed

lemma quiet_authenticated:
  assumes "\<And>n x. quiet x (env n x)"
  shows "quiet sys (wg_socket_set_peer_endpoint_authenticated env now ep cid sys)"
proof -
  obtain wg p k where sys: "sys = (wg, p, k)" by (cases sys)
  have obs: "quiet_peer p (wg_socket_set_peer_endpoint ep wg p)"
    using quiet_endpoint [of p wg "Observe ep"] by simp
  obtain wg2 p2 k2 where e0: "env 0 (wg, wg_socket_set_peer_endpoint ep wg p, k) = (wg2, p2, k2)"
    by (cases "env 0 (wg, wg_socket_set_peer_endpoint ep wg p, k)")
  define wg3 where "wg3 = (if cid \<noteq> 0 then wg_tcp_mark_connection_authenticated now cid wg2 else wg2)"
  define p3 where "p3 = (if cid \<noteq> 0 then request_promotion cid p2 else p2)"
  obtain wg4 p4 k4 where e1: "env 1 (wg3, p3, k2) = (wg4, p4, k4)" by (cases "env 1 (wg3, p3, k2)")
  obtain b p5 where rl: "roam_locked ep cid p4 = (b, p5)" by fastforce
  obtain wg6 p6 k6 where e2: "env 2 (wg4, p5, k4) = (wg6, p6, k6)" by (cases "env 2 (wg4, p5, k4)")
  have q0: "quiet_peer p p2" "quiet_kern k k2"
    using assms [of "(wg, wg_socket_set_peer_endpoint ep wg p, k)" 0] obs unfolding e0
    by (auto intro: quiet_peer_trans)
  have q1: "quiet_peer p3 p4" "quiet_kern k2 k4"
    using assms [of "(wg3, p3, k2)" 1] unfolding e1 by auto
  have q2: "quiet_peer p5 p6" "quiet_kern k4 k6"
    using assms [of "(wg4, p5, k4)" 2] unfolding e2 by auto
  have q3: "quiet_peer p2 p3" "quiet_peer p4 p5"
    using quiet_promotion [of p2 cid] quiet_endpoint [of p4 wg "Roam ep cid"] by (auto simp: p3_def rl)
  have all: "quiet_peer p p6" "quiet_kern k k6"
    using q0 q1 q2 q3 by (metis quiet_peer_trans, metis quiet_kern_trans)
  have "wg_socket_set_peer_endpoint_authenticated env now ep cid sys =
      (if transport wg \<noteq> WG_TRANSPORT_TCP then (wg, wg_socket_set_peer_endpoint ep wg p, k)
       else (wg6, if b \<and> \<not> temp_peer p6 then wg_tcp_peer_request_reconnect_after 100 wg6 p6 else p6, k6))"
    using e1 rl e2 unfolding wg_socket_set_peer_endpoint_authenticated_def sys wg3_def p3_def
    by (cases "cid = 0") (simp_all add: Let_def e0)
  then show ?thesis
    using all obs quiet_reconnect [of p6 100 wg6] by (auto simp: sys intro: quiet_peer_trans)
qed

lemma quiet_read [quiet_intros]:
  "quiet_peer p (read_out wg so b k (p\<lparr>wk_read := None, p_partial_skb := q, p_expected_len := e,
     p_received_len := r\<rparr>))"
  by (simp add: quiet_defs read_out_def tcp_alive_def Let_def split: option.split)

lemma interf_quiet: "interf x y \<Longrightarrow> quiet x y"
proof (induction rule: interf.induct)
  case (interf_state sys sys1 env now s)
  show ?case using interf_state.IH(1) quiet_state_change [of env sys1 now s] interf_state.IH(2) by (blast intro: quiet_trans)
next
  case (interf_auth sys sys1 env now ep cid)
  show ?case using interf_auth.IH(1) quiet_authenticated [of env sys1 now ep cid] interf_auth.IH(2)
    by (blast intro: quiet_trans)
next
  case (interf_data sys sys1 now s)
  then show ?case using quiet_data_ready quiet_trans by blast
next
  case (interf_space sys sys1 s)
  then show ?case using quiet_write_space quiet_trans by blast
next
  case (interf_send sys wg p k t a c u skb)
  have "quiet (wg, p, k) (wg, snd (wg_socket_send_skb_to_peer t a c u wg skb p), k)"
    by (simp add: quiet_intros)
  then show ?case using interf_send.IH quiet_trans by blast
next
  case (interf_write sys wg p k st st')
  then show ?case using quiet_write_worker [of wg st] quiet_trans by metis
next
  case (interf_read sys wg p k so b r e q)
  have "quiet (wg, p, k) (wg, read_out wg so b k (p\<lparr>wk_read := None, p_partial_skb := q,
      p_expected_len := e, p_received_len := r\<rparr>), k)"
    by (simp add: quiet_intros)
  then show ?case using interf_read.IH quiet_trans by blast
next
  case (interf_reconnect sys wg p k d)
  have "quiet (wg, p, k) (wg, wg_tcp_peer_request_reconnect_after d wg p, k)"
    by (simp add: quiet_intros)
  then show ?case using interf_reconnect.IH quiet_trans by blast
next
  case (interf_endpoint sys wg p k e)
  have "quiet (wg, p, k) (wg, ep_step wg e p, k)"
    by (simp add: quiet_intros del: ep_step.simps)
  then show ?case using interf_endpoint.IH quiet_trans by blast
next
  case (interf_stop sys wg p k)
  have "quiet (wg, p, k) (wg, peer_stop_claim p, k)"
    by (simp add: quiet_intros)
  then show ?case using interf_stop.IH quiet_trans by blast
next
  case (interf_dead sys wg p k)
  have "quiet (wg, p, k) (wg, p\<lparr>is_dead := True\<rparr>, k)"
    by (simp add: quiet_defs)
  then show ?case using interf_dead.IH quiet_trans by blast
next
  case (interf_device sys wg p k wg')
  then show ?case by (auto simp: quiet_def)
next
  case (interf_kernel sys wg p k k')
  then have "quiet (wg, p, k) (wg, p, k')" by simp
  then show ?case using interf_kernel.IH quiet_trans by blast
qed simp

lemma dir_ok_quiet:
  assumes "quiet_peer p p'" "quiet_kern k k'"
  shows "dir_ok k' p' b = dir_ok k p b"
proof -
  have p: "dir_socket b p' = dir_socket b p" "dir_data b p' = dir_data b p" "dir_set b p' = dir_set b p"
    "p_id p' = p_id p"
    using assms(1) by (simp_all add: quiet_peer_def peer_own_def dir_defs)
  have sk: "so_releases (socks k' s) = so_releases (socks k s)" "sock_detached (socks k' s) = sock_detached (socks k s)"
    "sock_attached d (socks k' s) = sock_attached d (socks k s)" for s d
    using assms(2) by (simp_all add: quiet_kern_def sock_own_def sock_detached_def sock_attached_def)
  show ?thesis
    using assms(2) by (simp add: dir_ok_def p sk quiet_kern_def cong: option.case_cong)
qed

lemma quiet_wf: "quiet (wg, p, k) (wg', p', k') \<Longrightarrow> tcp_wf k' p' = tcp_wf k p"
  using dir_ok_quiet [of p p' k k'] by (auto simp: tcp_wf_def quiet_peer_def peer_own_def)

section \<open>The invariant of a peer's carriers\<close>

definition tcp_inv :: "tcp_sys \<Rightarrow> bool" where
  "tcp_inv x \<longleftrightarrow> (case x of (wg, p, k) \<Rightarrow> tcp_wf k p \<and> (\<forall>s. so_releases (socks k s) \<le> 1))"

text \<open>A socket nobody uses, as \<open>sock_create_kern\<close> returns it.\<close>

definition unused :: "tcp_sys \<Rightarrow> sock_id \<Rightarrow> bool" where
  "unused x s \<longleftrightarrow> (case x of (wg, p, k) \<Rightarrow>
     \<not> owns p s \<and> sock_own (socks k s) = (None, Cb_stack, Cb_stack, Cb_stack, 0))"

definition barrier :: "tcp_sys \<Rightarrow> tcp_sys \<Rightarrow> bool" where
  "barrier x y \<longleftrightarrow> (tcp_stopping (fst (snd x)) \<longrightarrow>
     tcp_stopping (fst (snd y)) \<and> no_new_work (fst (snd x)) (fst (snd y)))"

text \<open>
  A safe step keeps the invariant and respects the stop barrier; a local step also
  leaves unused sockets alone. Functions are sequences of such steps.
\<close>

definition safe :: "tcp_sys \<Rightarrow> tcp_sys \<Rightarrow> bool" where
  "safe x y \<longleftrightarrow> (tcp_inv x \<longrightarrow> tcp_inv y \<and> barrier x y)"

definition local_step :: "tcp_sys \<Rightarrow> tcp_sys \<Rightarrow> bool" where
  "local_step x y \<longleftrightarrow> safe x y \<and> (tcp_inv x \<longrightarrow> (\<forall>s. unused x s \<longrightarrow> unused y s))"

lemma no_new_work_refl [simp]: "no_new_work p p"
  by (simp add: no_new_work_def list_all2_refl)

lemma safe_refl [simp]: "safe x x"
  by (simp add: safe_def barrier_def)

lemma barrier_trans: "barrier x y \<Longrightarrow> barrier y z \<Longrightarrow> barrier x z"
  by (auto simp: barrier_def intro: no_new_work_trans)

lemma safe_trans: "safe x y \<Longrightarrow> safe y z \<Longrightarrow> safe x z"
  by (auto simp: safe_def intro: barrier_trans)

lemma local_refl [simp]: "local_step x x"
  by (simp add: local_step_def)

lemma local_trans: "local_step x y \<Longrightarrow> local_step y z \<Longrightarrow> local_step x z"
  unfolding local_step_def safe_def by (blast intro: barrier_trans)

lemma local_safe: "local_step x y \<Longrightarrow> safe x y"
  by (simp add: local_step_def)

lemma quiet_local: "quiet x y \<Longrightarrow> local_step x y"
proof -
  assume q: "quiet x y"
  obtain wg p k wg' p' k' where xy: "x = (wg, p, k)" "y = (wg', p', k')" by (metis prod_cases3)
  have "so_releases (socks k' s) = so_releases (socks k s)" "owns p' s = owns p s"
    "sock_own (socks k' s) = sock_own (socks k s)" for s
    using q by (auto simp: xy quiet_kern_def sock_own_def quiet_peer_def peer_own_def owns_def)
  then show ?thesis
    using q quiet_wf [of wg p k wg' p' k']
    by (auto simp: local_step_def safe_def barrier_def tcp_inv_def unused_def quiet_peer_def xy)
qed

lemma quiet_peer_local: "quiet_peer p p' \<Longrightarrow> local_step (wg, p, k) (wg', p', k)"
  by (rule quiet_local) simp

definition interfering :: "tcp_env \<Rightarrow> bool" where
  "interfering env \<longleftrightarrow> (\<forall>n x. interf x (env n x))"

lemma env_local: "interfering env \<Longrightarrow> local_step x (env n x)"
  unfolding interfering_def by (blast intro: interf_quiet quiet_local)

lemma env_localD: "interfering env \<Longrightarrow> env n x = y \<Longrightarrow> local_step x y"
  using env_local by blast

lemma works_released [simp]: "works (released s p) = works p"
  by (simp add: works_def released_def set_dir_def Let_def)

lemma works_set_dir [simp]: "works (set_dir b d c p) = works p" "tcp_stopping (set_dir b d c p) = tcp_stopping p"
  "owns (set_dir b d c p) s = owns p s"
  by (simp_all add: works_def set_dir_def owns_def)

text \<open>The steps of ownership: teardown, installing callbacks, releasing an unpublished socket.\<close>

lemma detach_owned:
  assumes "tcp_inv (wg, p, k)" "owns p s"
  obtains k' where "detach_and_release s (p, k) = (None, released s p, k')"
    "tcp_inv (wg, released s p, k')" "so_releases (socks k' s) = 1" "\<And>t. t \<noteq> s \<Longrightarrow> socks k' t = socks k t"
proof -
  obtain k1 where k1: "detach_and_release s (p, k) = (None, released s p, k1)"
      "tcp_wf k1 (released s p)" "so_releases (socks k1 s) = 1" "\<And>t. t \<noteq> s \<Longrightarrow> socks k1 t = socks k t"
    by (rule detach_and_release_ok [of k p s]) (use assms in \<open>auto simp: tcp_inv_def\<close>)
  have "so_releases (socks k1 t) \<le> 1" for t
    using assms k1(3) k1(4) [of t] by (cases "t = s") (auto simp: tcp_inv_def)
  then show thesis using that k1 by (simp add: tcp_inv_def)
qed

lemma detach_local:
  assumes "detach_and_release s (p, k) = (r, p', k')"
  shows "local_step (wg, p, k) (wg', p', k')"
proof (cases "owns p s \<and> tcp_inv (wg, p, k)")
  case True
  then obtain k1 where k1: "detach_and_release s (p, k) = (None, released s p, k1)"
      "tcp_inv (wg, released s p, k1)" "\<And>t. t \<noteq> s \<Longrightarrow> socks k1 t = socks k t"
    using detach_owned by metis
  have un: "unused (wg', released s p, k1) t" if "unused (wg, p, k) t" for t
  proof -
    have "t \<noteq> s" using that True by (auto simp: unused_def)
    then show ?thesis
      using that k1(3) [of t] by (auto simp: unused_def owns_def released_fields split: if_splits)
  qed
  then show ?thesis
    using k1 assms
    by (auto simp: local_step_def safe_def barrier_def tcp_inv_def no_new_work_def released_fields list_all2_refl)
next
  case False
  have quiet: "local_step (wg, p, k) (wg', p, k)" by (rule quiet_local) simp
  show ?thesis
  proof (cases "owns p s")
    case True
    then show ?thesis using False by (simp add: local_step_def safe_def)
  next
    case False
    then show ?thesis using assms detach_and_release_stale [of p s k] quiet by auto
  qed
qed

lemma setup_local:
  assumes "wg_setup_tcp_socket_callbacks a m wg s b (p, k) = (r, p', k')"
  shows "local_step (wg, p, k) (wg', p', k')"
proof (cases "tcp_inv (wg, p, k)")
  case True
  then have "tcp_wf k p" by (simp add: tcp_inv_def)
  note st = setup_wf [OF this assms]
  then obtain d c where p': "p' = set_dir b d c p" by blast
  have rel: "so_releases (socks k' t) = so_releases (socks k t)" for t
    using st by (cases "t = s") auto
  have un: "unused (wg', p', k') t" if "unused (wg, p, k) t" for t
  proof (cases "t = s")
    case True
    then have "dir_socket b p \<noteq> Some s" using that by (auto simp: unused_def owns_def dir_socket_def split: if_splits)
    then have "k' = k"
      using assms by (auto simp: wg_setup_tcp_socket_callbacks_def Let_def split: if_splits)
    then show ?thesis using that p' by (simp add: unused_def)
  next
    case False
    then show ?thesis using that st p' by (simp add: unused_def)
  qed
  show ?thesis
    using True st rel un p' by (auto simp: local_step_def safe_def barrier_def tcp_inv_def no_new_work_def list_all2_refl)
qed (simp add: local_step_def safe_def)

lemma wf_unowned:
  assumes "tcp_wf k p" "\<not> owns p s"
  shows "tcp_wf (upd_sock s f k) p"
proof -
  have "dir_ok (upd_sock s f k) p b" for b
    by (rule dir_ok_kern [of k]) (use assms in \<open>cases b; auto simp: tcp_wf_def owns_def dir_defs\<close>)+
  then show ?thesis using assms(1) by (simp add: tcp_wf_def)
qed

lemma sock_release_safe:
  assumes "tcp_inv (wg, p, k) \<longrightarrow> unused (wg, p, k) s"
  shows "safe (wg, p, k) (wg, p, sock_release s k)"
  using assms wf_unowned [of k p s]
  by (auto simp: safe_def tcp_inv_def unused_def barrier_def sock_release_def sock_own_def)

lemma quiet_unwind:
  "quiet_peer p (snd (unwind_publish wg p))" "quiet_peer p (unwind_queue p)"
  "quiet_peer p (wg_tcp_cancel_stream_workers p)" "quiet_peer p (p\<lparr>tcp_connecting := False\<rparr>)"
  by (simp_all add: quiet_defs unwind_publish_def unwind_queue_def wg_tcp_cancel_stream_workers_def Let_def)

lemma unwind_safe:
  assumes env: "interfering env"
    and so: "\<And>s. so = Some s \<Longrightarrow> tcp_inv (wg, p, k) \<Longrightarrow>
      peer_socket p = so \<or> outbound_socket p = so \<or> unused (wg, p, k) s"
  shows "safe (wg, p, k) (wg_tcp_connect_unwind env so (wg, p, k))"
proof -
  define own where "own \<longleftrightarrow> so \<noteq> None \<and> (peer_socket p = so \<or> outbound_socket p = so)"
  define p1 where "p1 = (if own then p\<lparr>tcp_outbound_remove_scheduled := True, tcp_outbound_remove_socket := so\<rparr> else p)"
  obtain wg2 p2 k2 where e4: "env 4 (wg, p1, k) = (wg2, p2, k2)" by (cases "env 4 (wg, p1, k)")
  obtain r p3 k3 where d: "(if own then detach_and_release (the so) (wg_tcp_cancel_stream_workers p2, k2)
      else (None, p2, k2)) = (r, p3, k3)"
    by (cases "if own then detach_and_release (the so) (wg_tcp_cancel_stream_workers p2, k2) else (None, p2, k2)")
  obtain wg4 p4 k4 where e5: "env 5 (wg2, p3, k3) = (wg4, p4, k4)" by (cases "env 5 (wg2, p3, k3)")
  obtain q p5 where u: "unwind_publish wg4 p4 = (q, p5)" by fastforce
  define k5 where "k5 = (if so \<noteq> None \<and> \<not> own then sock_release (the so) k4 else k4)"
  obtain wg6 p6 k6 where e6: "env 6 (wg4, p5, k5) = (wg6, p6, k6)" by (cases "env 6 (wg4, p5, k5)")
  have "quiet_peer p p1" by (simp add: p1_def quiet_defs)
  then have "local_step (wg, p, k) (wg2, p2, k2)"
    by (rule local_trans [OF quiet_peer_local env_localD [OF env e4]])
  moreover have "local_step (wg2, p2, k2) (wg2, p3, k3)"
    using d detach_local [of "the so" "wg_tcp_cancel_stream_workers p2" k2 r p3 k3 wg2 wg2]
      quiet_peer_local [OF quiet_unwind(3), of wg2 p2 k2 wg2] by (auto split: if_splits intro: local_trans)
  ultimately have l3: "local_step (wg, p, k) (wg2, p3, k3)" by (rule local_trans)
  have l5: "local_step (wg, p, k) (wg4, p5, k4)"
    using local_trans [OF local_trans [OF l3 env_localD [OF env e5]] quiet_peer_local [OF quiet_unwind(1) [where wg = wg4]]] u
    by simp
  have "safe (wg4, p5, k4) (wg4, p5, k5) \<or> \<not> tcp_inv (wg, p, k)"
  proof (cases "so \<noteq> None \<and> \<not> own \<and> tcp_inv (wg, p, k)")
    case True
    then obtain s where s: "so = Some s" by blast
    then have "unused (wg, p, k) s" using so [of s] True by (auto simp: own_def)
    then have "unused (wg4, p5, k4) s" using l5 True by (simp add: local_step_def)
    then show ?thesis using sock_release_safe [of wg4 p5 k4 s] s True by (simp add: k5_def)
  qed (auto simp: k5_def)
  then have s5: "safe (wg, p, k) (wg4, p5, k5)"
    using l5 safe_trans by (auto simp: safe_def local_step_def intro: barrier_trans)
  have s6: "safe (wg, p, k) (wg6, if q then unwind_queue p6 else p6, k6)"
    using safe_trans [OF s5 local_safe [OF env_localD [OF env e6]]]
      local_safe [OF quiet_peer_local [OF quiet_unwind(2) [of p6]], of wg6 k6 wg6]
    by (auto intro: safe_trans)
  have s3: "safe (wg, p, k) (wg2, p3\<lparr>tcp_connecting := False\<rparr>, k3)"
    by (rule local_safe [OF local_trans [OF l3 quiet_peer_local [OF quiet_unwind(4)]]])
  have "wg_tcp_connect_unwind env so (wg, p, k) =
      (if r \<noteq> None then (wg2, p3\<lparr>tcp_connecting := False\<rparr>, k3)
       else (wg6, if q then unwind_queue p6 else p6, k6))"
    using d e4 e6 unfolding wg_tcp_connect_unwind_def own_def p1_def k5_def
    by (simp add: Let_def e5 u)
  then show ?thesis using s3 s6 by simp
qed

section \<open>Dialling is safe\<close>

lemma env_quiet: "interfering env \<Longrightarrow> env n x = y \<Longrightarrow> quiet x y"
  using interf_quiet unfolding interfering_def by blast

lemma env_outbound:
  "interfering env \<Longrightarrow> env n (wg, p, k) = (wg', p', k') \<Longrightarrow> outbound_socket p' = outbound_socket p"
  using env_quiet [of env n "(wg, p, k)" "(wg', p', k')"] by (simp add: quiet_peer_def peer_own_def)

lemma fail_safe:
  assumes "interfering (ce_env c)" "so = None \<or> outbound_socket p = so"
  shows "safe (wg, p, k) (snd (connect_fail c e so (wg, p, k)))"
  using unwind_safe [OF assms(1), of so wg p k] assms(2) by (auto simp: connect_fail_def)

lemma quiet_finish:
  "connect_finish now s st wg p = Inr (b, p') \<Longrightarrow> quiet_peer p p'"
  by (auto simp: connect_finish_def wg_tcp_publish_outbound_established_locked_def quiet_defs tcp_alive_def
      Let_def split: if_splits)

lemma quiet_tuple: "quiet_peer p (connect_tuple target sk p)"
  by (simp add: connect_tuple_def quiet_defs)

lemma end_safe:
  assumes env: "interfering (ce_env c)" and out: "outbound_socket p = Some s"
  shows "safe (wg, p, k) (snd (connect_end c target s (wg, p, k)))"
proof -
  let ?p1 = "connect_tuple target (so_sk (socks k s)) p"
  have l1: "local_step (wg, p, k) (wg, ?p1, k)" by (rule quiet_peer_local [OF quiet_tuple])
  show ?thesis
  proof (cases "connect_finish (ce_now c) s (so_state (socks k s)) wg ?p1")
    case (Inl e)
    have "safe (wg, ?p1, k) (snd (connect_fail c e (Some s) (wg, ?p1, k)))"
      by (rule fail_safe [OF env]) (simp add: out connect_tuple_def)
    then show ?thesis
      using safe_trans [OF local_safe [OF l1]] Inl by (simp add: connect_end_def Let_def)
  next
    case (Inr bp)
    obtain b p2 where bp: "bp = (b, p2)" by fastforce
    obtain wg3 p3 k3 where e3: "ce_env c 3 (wg, p2, k) = (wg3, p3, k3)" by (cases "ce_env c 3 (wg, p2, k)")
    have "local_step (wg, p, k) (wg3, p3, k3)"
      using local_trans [OF l1 quiet_peer_local [OF quiet_finish [OF Inr [unfolded bp]]]]
        env_localD [OF env e3] by (rule local_trans)
    then show ?thesis
      using local_trans [OF _ quiet_peer_local [OF quiet_bootstrap [of p3 s]], of _ wg3 k3 wg3] Inr bp e3
      by (auto simp: connect_end_def Let_def intro: local_safe)
  qed
qed

lemma dial_safe:
  assumes env: "interfering (ce_env c)" and out: "outbound_socket p = Some s"
  shows "safe (wg, p, k) (snd (connect_dial c target s (wg, p, k)))"
proof -
  obtain wg1 p1 k1 where e1: "ce_env c 1 (wg, p, k) = (wg1, p1, k1)" by (cases "ce_env c 1 (wg, p, k)")
  obtain r p2 k2 where st: "wg_setup_tcp_socket_callbacks (ce_alloc_ok c) (ce_module_ok c) wg1 s False (p1, k1) = (r, p2, k2)"
    by (metis prod_cases3)
  have l2: "local_step (wg, p, k) (wg1, p2, k2)"
    using env_localD [OF env e1] setup_local [OF st] by (rule local_trans)
  have out1: "outbound_socket p1 = Some s" using env_outbound [OF env e1] out by simp
  have out2: "outbound_socket p2 = Some s"
    using st out1 by (auto simp: wg_setup_tcp_socket_callbacks_def set_dir_def Let_def split: if_splits)
  obtain wg3 p3 k3 where e2: "ce_env c 2 (wg1, p2, kernel_connect c s k2) = (wg3, p3, k3)"
    by (cases "ce_env c 2 (wg1, p2, kernel_connect c s k2)")
  have "quiet_kern k2 (kernel_connect c s k2)"
    by (simp add: quiet_kern_def kernel_connect_def sock_own_def upd_sock_def)
  then have l3: "local_step (wg, p, k) (wg3, p3, k3)"
    using local_trans [OF local_trans [OF l2 quiet_local] env_localD [OF env e2]] by simp
  have out3: "outbound_socket p3 = Some s" using env_outbound [OF env e2] out2 by simp
  have eq: "snd (connect_dial c target s (wg, p, k)) =
      (case r of Some e \<Rightarrow> snd (connect_fail c e (Some s) (wg1, p2, k2))
       | None \<Rightarrow> if ce_connect c \<noteq> None \<and> ce_connect c \<noteq> Some EINPROGRESS
                 then snd (connect_fail c (the (ce_connect c)) (Some s) (wg3, p3, k3))
                 else snd (connect_end c target s (wg3, p3, k3)))"
    unfolding connect_dial_def e1 prod.case st e2 by (auto split: option.split)
  have "safe (wg1, p2, k2) (snd (connect_fail c e (Some s) (wg1, p2, k2)))"
    "safe (wg3, p3, k3) (snd (connect_fail c e (Some s) (wg3, p3, k3)))"
    "safe (wg3, p3, k3) (snd (connect_end c target s (wg3, p3, k3)))" for e
    by (simp_all add: fail_safe [OF env] end_safe [OF env] out2 out3)
  then show ?thesis
    unfolding eq using safe_trans [OF local_safe [OF l2]] safe_trans [OF local_safe [OF l3]]
    by (auto split: option.split)
qed

lemma claim_local:
  assumes "connect_claim wg p = Inr p1"
  shows "local_step (wg, p, k) (wg', p1, k)"
proof (cases "tcp_inv (wg, p, k)")
  case True
  have "outbound_socket p = None"
    using assms by (auto simp: connect_claim_def split: if_splits)
  then have "\<not> tcp_outbound_callbacks_set p"
    using True by (simp add: tcp_inv_def tcp_wf_def dir_ok_def dir_defs)
  then have "quiet_peer p p1"
    using assms by (auto simp: connect_claim_def quiet_defs split: if_splits)
  then show ?thesis by (rule quiet_peer_local)
qed (simp add: local_step_def safe_def)

lemma publish_safe:
  assumes "connect_publish s wg p = Inr p'" "tcp_inv (wg, p, k) \<longrightarrow> unused (wg, p, k) s"
  shows "safe (wg, p, k) (wg, p', upd_sock s (\<lambda>sk. sk\<lparr>sk_mark := m\<rparr>) k)"
proof -
  have none: "peer_socket p = None" "outbound_socket p = None"
    and p': "p' = p\<lparr>peer_socket := Some s, outbound_socket := Some s\<rparr>"
    using assms(1) by (auto simp: connect_publish_def split: if_splits)
  let ?k = "upd_sock s (\<lambda>sk. sk\<lparr>sk_mark := m\<rparr>) k"
  have "tcp_wf ?k p'" if wf: "tcp_wf k p" and un: "unused (wg, p, k) s"
  proof -
    have wf': "tcp_wf ?k p" using wf un by (intro wf_unowned) (auto simp: unused_def)
    have "dir_ok ?k p' True"
      using wf' unfolding tcp_wf_def by (subst dir_ok_cong [of True p' p]) (auto simp: p' dir_defs)
    moreover have "dir_ok ?k p' False"
      using wf' un none by (auto simp: tcp_wf_def dir_ok_def dir_defs p' unused_def sock_own_def sock_detached_def)
    ultimately show ?thesis
      using wf' un by (auto simp: tcp_wf_def p' unused_def owns_def)
  qed
  then show ?thesis
    using assms(2) by (auto simp: safe_def tcp_inv_def barrier_def p' no_new_work_def works_def)
qed

definition connect_ok :: "connect_env \<Rightarrow> tcp_sys \<Rightarrow> bool" where
  "connect_ok c x \<longleftrightarrow> interfering (ce_env c) \<and> (\<forall>s. ce_create c = Inr s \<longrightarrow> unused x s)"

lemma connect_ok_local: "local_step x y \<Longrightarrow> tcp_inv x \<Longrightarrow> connect_ok c x \<Longrightarrow> connect_ok c y"
  by (simp add: connect_ok_def local_step_def)

lemma connect_safe:
  assumes "connect_ok c (wg, p, k)"
  shows "safe (wg, p, k) (snd (wg_tcp_connect c (wg, p, k)))"
proof (cases "tcp_inv (wg, p, k)")
  case inv: True
  have env: "interfering (ce_env c)" using assms by (simp add: connect_ok_def)
  let ?t = "if peer_endpoint_set p then peer_endpoint p else Ep_unspec"
  consider (refused) "snd (wg_tcp_connect c (wg, p, k)) = (wg, p, k)"
    | (claimed) p1 where "connect_claim wg p = Inr p1"
    by (cases "connect_claim wg p") (auto simp: wg_tcp_connect_def Let_def)
  then show ?thesis
  proof cases
    case refused
    then show ?thesis by simp
  next
    case claimed
    obtain wg2 p2 k2 where e0: "ce_env c 0 (wg, p1, k) = (wg2, p2, k2)" by (cases "ce_env c 0 (wg, p1, k)")
    have l2: "local_step (wg, p, k) (wg2, p2, k2)"
      using claim_local [OF claimed] env_localD [OF env e0] by (rule local_trans)
    have fail: "safe (wg2, p2, k2) (snd (connect_fail c e None (wg2, p2, k2)))" for e
      by (rule fail_safe [OF env]) simp
    have unused2: "unused (wg2, p2, k2) s" if "ce_create c = Inr s" for s
      using that assms l2 inv by (auto simp: connect_ok_def local_step_def)
    let ?k3 = "\<lambda>s. upd_sock s (\<lambda>sk. sk\<lparr>sk_mark := fwmark wg2\<rparr>) k2"
    have mark: "local_step (wg2, p2, k2) (wg2, p2, ?k3 s)" for s
      by (rule quiet_local) (simp add: quiet_kern_def sock_own_def)
    have late: "safe (wg2, p2, k2) (snd (connect_fail c e (Some s) (wg2, p2, ?k3 s)))"
      if "ce_create c = Inr s" for e s
    proof -
      have "unused (wg2, p2, ?k3 s) s" using unused2 [OF that] by (simp add: unused_def sock_own_def)
      then have "safe (wg2, p2, ?k3 s) (snd (connect_fail c e (Some s) (wg2, p2, ?k3 s)))"
        using unwind_safe [OF env, of "Some s" wg2 p2 "?k3 s"] by (simp add: connect_fail_def)
      then show ?thesis by (rule safe_trans [OF local_safe [OF mark]])
    qed
    have dial: "safe (wg2, p2, k2) (snd (connect_dial c t s (wg2, p3, ?k3 s)))"
      if "ce_create c = Inr s" "connect_publish s wg2 p2 = Inr p3" for s p3 t
    proof -
      have "outbound_socket p3 = Some s" using that(2) by (auto simp: connect_publish_def split: if_splits)
      then show ?thesis
        using safe_trans [OF publish_safe [OF that(2)] dial_safe [OF env]] unused2 [OF that(1)] by blast
    qed
    have "safe (wg2, p2, k2) (snd (wg_tcp_connect c (wg, p, k))) \<or> snd (wg_tcp_connect c (wg, p, k)) = (wg, p, k)"
      using fail late dial claimed
      by (auto simp: wg_tcp_connect_def Let_def e0 split: sum.split)
    then show ?thesis using safe_trans [OF local_safe [OF l2]] safe_refl by metis
  qed
qed (simp add: safe_def)

section \<open>The workers are safe\<close>

lemma quiet_retry:
  "quiet_peer p (retry_after d p)" "quiet_peer p (p\<lparr>wk_retry := None, tcp_retry_scheduled := False\<rparr>)"
  "tcp_alive wg p \<Longrightarrow> quiet_peer p (retry_claim p)"
  by (simp_all add: quiet_defs retry_after_def retry_claim_def tcp_alive_def Let_def)

lemma redial_safe:
  assumes "connect_ok c x"
  shows "safe x (redial c x)"
proof -
  obtain wg p k where x: "x = (wg, p, k)" by (cases x)
  obtain r y where y: "wg_tcp_connect c x = (r, y)" by (cases "wg_tcp_connect c x")
  have sy: "safe x y" using connect_safe assms y by (metis snd_conv x)
  obtain wg2 p2 k2 where e: "ce_env c 7 y = (wg2, p2, k2)" by (cases "ce_env c 7 y")
  have "interfering (ce_env c)" using assms by (simp add: connect_ok_def)
  then have "local_step y (wg2, retry_after 30000 p2, k2)"
    using e by (auto intro: local_trans [OF env_localD quiet_peer_local] quiet_retry)
  then have "safe x (wg2, retry_after 30000 p2, k2)"
    using sy by (blast intro: safe_trans local_safe)
  then show ?thesis using sy by (simp add: redial_def y e split: option.split)
qed

lemma connect_after_local:
  assumes "local_step x y" "connect_ok c x" "\<And>y. connect_ok c y \<Longrightarrow> safe y (f y)"
  shows "safe x (f y)"
proof (cases "tcp_inv x")
  case True
  then have "connect_ok c y" using assms(1,2) connect_ok_local by blast
  then show ?thesis using assms(1,3) by (blast intro: safe_trans local_safe)
qed (simp add: safe_def)

lemma retry_worker_safe:
  assumes env: "interfering env" and c: "connect_ok c x"
  shows "safe x (wg_tcp_retry_worker env c x)"
proof -
  obtain wg p k where x: "x = (wg, p, k)" by (cases x)
  let ?p1 = "p\<lparr>wk_retry := None, tcp_retry_scheduled := False\<rparr>"
  have l1: "local_step x (wg, ?p1, k)" unfolding x by (rule quiet_peer_local [OF quiet_retry(2)])
  show ?thesis
  proof (cases "tcp_alive wg ?p1 \<and> transport wg = WG_TRANSPORT_TCP")
    case True
    then have l2: "local_step x (wg, retry_claim ?p1, k)"
      using local_trans [OF l1 quiet_peer_local [OF quiet_retry(3)]] by blast
    then have "safe x (redial c (env 0 (wg, retry_claim ?p1, k)))"
      by (intro connect_after_local [OF local_trans [OF l2 env_local [OF env]] c] redial_safe)
    then show ?thesis using True l2 by (simp add: wg_tcp_retry_worker_def x Let_def local_safe)
  next
    case False
    then show ?thesis using l1 by (simp add: wg_tcp_retry_worker_def x Let_def local_safe)
  qed
qed

lemma quiet_misc:
  "quiet_peer p (p\<lparr>tcp_retry_scheduled := False\<rparr>)"
  "quiet_peer p (p\<lparr>wk_outbound_remove := None, wk_retry := None\<rparr>)"
  "quiet_peer p (p\<lparr>wk_inbound_remove := None\<rparr>)"
  "quiet_peer p (p\<lparr>wk_inbound_remove := None, is_dead := True\<rparr>)"
  "quiet_peer p (p\<lparr>tcp_reconnect_requested := False, tcp_outbound_remove_scheduled := False, tcp_outbound_remove_socket := None\<rparr>)"
  "quiet_peer p (p\<lparr>tcp_inbound_remove_scheduled := False, tcp_inbound_remove_socket := None\<rparr>)"
  "quiet_peer p (wg_tcp_rearm_surviving_stream_locked wg k p)"
  by (simp_all add: quiet_defs wg_tcp_rearm_surviving_stream_locked_def wg_tcp_schedule_write_locked_def
      tcp_alive_def Let_def split: option.split)

lemma remove_claimed_local:
  assumes env: "interfering env" and r: "remove_claimed env b x = (cc, df, y)"
  shows "local_step x y"
proof -
  obtain wg p k where x: "x = (wg, p, k)" by (cases x)
  define so where "so = (if b then tcp_inbound_remove_socket p else tcp_outbound_remove_socket p)"
  define p0 where "p0 = (if b then p else p\<lparr>tcp_retry_scheduled := False\<rparr>)"
  obtain wg1 p1 k1 where e: "env 1 (wg, p0, k) = (wg1, p1, k1)" by (cases "env 1 (wg, p0, k)")
  define p2 where "p2 = (if dir_socket b p = so \<and> so \<noteq> None \<and> peer_socket p = so
    then wg_tcp_cancel_stream_workers p1 else p1)"
  have "quiet_peer p p0" by (simp add: p0_def quiet_misc)
  moreover have "quiet_peer p1 p2" by (simp add: p2_def quiet_unwind)
  ultimately have l2: "local_step x (wg1, p2, k1)"
    using local_trans [OF local_trans [OF quiet_peer_local env_localD [OF env e]] quiet_peer_local] by (simp add: x)
  have y: "y = (case (if dir_socket b p = so then so else None) of
      None \<Rightarrow> (wg1, p2, k1)
    | Some s \<Rightarrow> (case detach_and_release s (p2, k1) of (ret, p3, k3) \<Rightarrow> (wg1, p3, k3)))"
    using r e unfolding remove_claimed_def x p0_def so_def p2_def
    by (auto simp: Let_def split: option.splits prod.splits if_splits)
  have "local_step (wg1, p2, k1) (case detach_and_release s (p2, k1) of (ret, p3, k3) \<Rightarrow> (wg1, p3, k3))" for s
    using detach_local by (auto split: prod.split)
  then show ?thesis using l2 unfolding y by (auto intro: local_trans split: option.split)
qed

lemma outbound_remove_safe:
  assumes env: "interfering env" and c: "connect_ok c x"
  shows "safe x (wg_tcp_outbound_remove_worker env c x)"
proof -
  obtain wg p k where x: "x = (wg, p, k)" by (cases x)
  let ?p0 = "p\<lparr>wk_outbound_remove := None, wk_retry := None\<rparr>"
  obtain cc df y where rc: "remove_claimed env False (env 0 (wg, ?p0, k)) = (cc, df, y)"
    by (metis prod_cases3)
  obtain wg2 p2 k2 where e2: "env 2 y = (wg2, p2, k2)" by (cases "env 2 y")
  let ?p3 = "p2\<lparr>tcp_reconnect_requested := False, tcp_outbound_remove_scheduled := False,
      tcp_outbound_remove_socket := None\<rparr>"
  obtain wg4 p4 k4 where e3: "env 3 (wg2, ?p3, k2) = (wg4, p4, k4)" by (cases "env 3 (wg2, ?p3, k2)")
  let ?p5 = "wg_tcp_rearm_surviving_stream_locked wg4 k4 p4"
  obtain wg6 p6 k6 where e4: "env 4 (wg4, ?p5, k4) = (wg6, p6, k6)" by (cases "env 4 (wg4, ?p5, k4)")
  have l0: "local_step x (env 0 (wg, ?p0, k))"
    unfolding x by (rule local_trans [OF quiet_peer_local [OF quiet_misc(2)] env_local [OF env]])
  have l2: "local_step x (wg2, p2, k2)"
    by (rule local_trans [OF local_trans [OF l0 remove_claimed_local [OF env rc]] env_localD [OF env e2]])
  have l4: "local_step x (wg4, p4, k4)"
    by (rule local_trans [OF local_trans [OF l2 quiet_peer_local [OF quiet_misc(5)]] env_localD [OF env e3]])
  have l6: "local_step x (wg6, p6, k6)"
    by (rule local_trans [OF local_trans [OF l4 quiet_peer_local [OF quiet_misc(7)]] env_localD [OF env e4]])
  have ends: "safe x (wg6, wg_tcp_peer_request_reconnect wg6 p6, k6)" "safe x (wg6, retry_after 10000 p6, k6)"
    unfolding wg_tcp_peer_request_reconnect_def
    by (rule local_safe [OF local_trans [OF l6 quiet_peer_local]], rule quiet_intros quiet_retry)+
  have "safe x (redial c (wg6, p6, k6))"
    by (intro connect_after_local [OF l6 c] redial_safe)
  then show ?thesis
    using ends local_safe [OF l2] local_safe [OF l6]
    by (simp add: wg_tcp_outbound_remove_worker_def x Let_def rc e2 e3 e4)
qed

lemma inbound_remove_safe:
  assumes env: "interfering env"
  shows "safe x (wg_tcp_inbound_remove_worker env x)"
proof -
  obtain wg p k where x: "x = (wg, p, k)" by (cases x)
  obtain cc df y where rc: "remove_claimed env True (env 0 (wg, p\<lparr>wk_inbound_remove := None\<rparr>, k)) = (cc, df, y)"
    by (metis prod_cases3)
  obtain wg2 p2 k2 where e2: "env 2 y = (wg2, p2, k2)" by (cases "env 2 y")
  let ?p3 = "p2\<lparr>tcp_inbound_remove_scheduled := False, tcp_inbound_remove_socket := None\<rparr>"
  obtain wg4 p4 k4 where e3: "env 3 (wg2, ?p3, k2) = (wg4, p4, k4)" by (cases "env 3 (wg2, ?p3, k2)")
  have l0: "local_step x (env 0 (wg, p\<lparr>wk_inbound_remove := None\<rparr>, k))"
    unfolding x by (rule local_trans [OF quiet_peer_local [OF quiet_misc(3)] env_local [OF env]])
  have l2: "local_step x (wg2, p2, k2)"
    by (rule local_trans [OF local_trans [OF l0 remove_claimed_local [OF env rc]] env_localD [OF env e2]])
  have l4: "local_step x (wg4, wg_tcp_rearm_surviving_stream_locked wg4 k4 p4, k4)"
    by (rule local_trans [OF local_trans [OF local_trans [OF l2 quiet_peer_local [OF quiet_misc(6)]]
          env_localD [OF env e3]] quiet_peer_local [OF quiet_misc(7)]])
  have "safe x (w, p\<lparr>wk_inbound_remove := None, is_dead := True\<rparr>, k)" for w
    unfolding x by (rule local_safe [OF quiet_peer_local [OF quiet_misc(4)]])
  then show ?thesis
    using local_safe [OF l2] local_safe [OF l4]
    by (simp add: wg_tcp_inbound_remove_worker_def x Let_def rc e2 e3)
qed

lemma configured_safe:
  assumes env: "interfering env" and c: "connect_ok c x"
  shows "safe x (wg_socket_set_peer_endpoint_configured env c ep x)"
proof -
  obtain wg p k where x: "x = (wg, p, k)" by (cases x)
  show ?thesis
  proof (cases "set_endpoint_locked ep True wg p")
    case None
    then show ?thesis
      by (simp add: wg_socket_set_peer_endpoint_configured_def wg_socket_set_peer_endpoint_internal_def x)
  next
    case (Some bp)
    obtain b p1 where bp: "bp = (b, p1)" by fastforce
    obtain wg2 p2 k2 where e: "env 0 (wg, p1, k) = (wg2, p2, k2)" by (cases "env 0 (wg, p1, k)")
    have "quiet_peer p p1" using quiet_endpoint [of p wg "Configure ep"] Some bp by simp
    then have l1: "local_step x (wg, p1, k)" unfolding x by (rule quiet_peer_local)
    have l2: "local_step x (wg2, p2, k2)" by (rule local_trans [OF l1 env_localD [OF env e]])
    have "safe x (wg2, wg_tcp_peer_request_reconnect wg2 p2, k2)"
      unfolding wg_tcp_peer_request_reconnect_def
      by (rule local_safe [OF local_trans [OF l2 quiet_peer_local [OF quiet_reconnect]]])
    moreover have "safe x (snd (wg_tcp_connect c (wg2, p2, k2)))"
      by (rule connect_after_local [OF l2 c, where f = "\<lambda>y. snd (wg_tcp_connect c y)"])
        (metis connect_safe prod_cases3)
    ultimately show ?thesis
      using Some bp local_safe [OF l1] local_safe [OF l2]
      by (simp add: wg_socket_set_peer_endpoint_configured_def wg_socket_set_peer_endpoint_internal_def x e)
  qed
qed

end
