(* ===== verification/Tcp_Promotion.thy ===== *)
theory Tcp_Promotion
  imports Tcp_Lifecycle
begin

text \<open>
  Promotion: an accepted socket is owned by a provisional peer until its first
  authenticated packet, and then handed over to the configured peer
  (\<open>wg_tcp_promote_authenticated_carrier\<close>), replacing that peer's older carriers. Also
  the creation and the destruction of provisional peers. \<open>env\<close> is the interference on
  the configured peer and \<open>tenv\<close> that on the provisional one.
\<close>

section \<open>Provisional peers\<close>

text \<open>\<open>wg_temp_peer_create\<close>: zeroed memory, the flags spelled out, and the shared work queue.\<close>

definition wg_temp_peer_create :: "bool \<Rightarrow> peer_id \<Rightarrow> wg_device \<Rightarrow> wg_peer result" where
  "wg_temp_peer_create alloc_ok i wg =
     (if \<not> alloc_ok then Inl ENOMEM
      else if \<not> tcp_auth_wq wg then Inl ENOMEM
      else Inr ((fresh_peer i)\<lparr>temp_peer := True, tcp_read_wq := tcp_auth_wq wg, tcp_write_wq := tcp_auth_wq wg\<rparr>))"

text \<open>The first section of \<open>wg_destroy_temp_peer\<close>, and what the cancellations drain.\<close>

definition temp_claim :: "wg_peer \<Rightarrow> wg_peer" where
  "temp_claim t =
     t\<lparr>is_dead := True, tcp_stopping := True,
       tcp_inbound_remove_scheduled := True, tcp_inbound_remove_socket := inbound_socket t,
       tcp_outbound_remove_scheduled := True, tcp_outbound_remove_socket := outbound_socket t\<rparr>"

text \<open>The result: the peer, unless it was freed, and the sockets.\<close>

definition wg_destroy_temp_peer :: "tcp_env \<Rightarrow> wg_device \<Rightarrow> wg_peer \<times> kern \<Rightarrow> wg_peer option \<times> kern" where
  "wg_destroy_temp_peer tenv wg tk =
     (case tk of (t, k) \<Rightarrow>
        let (_, t1, k1) = tenv 8 (wg, temp_claim t, k);
            t2 = wg_tcp_cancel_stream_workers
                   (t1\<lparr>wk_retry := None, wk_outbound_remove := None, wk_inbound_remove := None\<rparr>)
        in (case inbound_socket t2 of
              None \<Rightarrow> (None, k1)
            | Some s \<Rightarrow>
                (case detach_and_release s (t2, k1) of
                   (None, _, k3) \<Rightarrow> (None, k3)
                 | (Some e, t3, k3) \<Rightarrow> (Some t3, k3))))"

text \<open>
  \<open>wg_destroy_tcp_connection_entry\<close>; \<open>temp\<close> is the entry's provisional peer, if it has one.
\<close>

definition wg_destroy_tcp_connection_entry ::
  "tcp_env \<Rightarrow> wg_device \<Rightarrow> sock_id option \<Rightarrow> wg_peer option \<Rightarrow> kern \<Rightarrow> wg_peer option \<times> kern" where
  "wg_destroy_tcp_connection_entry tenv wg socket temp k =
     (case temp of
        Some t \<Rightarrow> wg_destroy_temp_peer tenv wg (t, k)
      | None \<Rightarrow>
          (case socket of
             None \<Rightarrow> (None, k)
           | Some s \<Rightarrow> (None, sock_release s (upd_sock s (\<lambda>sk. sk\<lparr>so_shutdown := True\<rparr>) k))))"

section \<open>Handing over\<close>

text \<open>The entry of the carrier is marked and, unless it is stale or still being set up, claimed.\<close>

definition promote_claim ::
  "ktime \<Rightarrow> u64 \<Rightarrow> bool \<Rightarrow> wg_device \<Rightarrow> wg_tcp_socket_list_entry option \<times> wg_device" where
  "promote_claim now connection_id stale wg =
     (let sel = (\<lambda>e. e_connection_id e = connection_id) in
      case List.find sel (tcp_connection_list wg) of
        None \<Rightarrow> (None, wg)
      | Some entry \<Rightarrow>
          let (entry1, pending) = wg_tcp_release_admission_locked (entry\<lparr>e_authenticated := True\<rparr>)
                                    (tcp_pending_connections wg);
              entry2 = entry1\<lparr>e_timestamp := now\<rparr>
          in if \<not> stale \<and> \<not> e_initializing entry2
             then (Some entry2,
                   wg\<lparr>tcp_pending_connections := pending,
                      tcp_tracked_connections := (if tcp_tracked_connections wg = 0 then 0
                                                  else tcp_tracked_connections wg - 1),
                      tcp_connection_list := remove_first sel (tcp_connection_list wg)\<rparr>)
             else (None,
                   wg\<lparr>tcp_pending_connections := pending,
                      tcp_connection_list := update_first sel (\<lambda>_. entry2) (tcp_connection_list wg)\<rparr>))"

text \<open>The provisional peer gives the socket up: \<open>Inl\<close> with the error and the peer as it is left.\<close>

definition promote_detach ::
  "tcp_env \<Rightarrow> u64 \<Rightarrow> sock_id \<Rightarrow> wg_device \<Rightarrow> wg_peer \<times> kern \<Rightarrow> (errno \<times> wg_peer + wg_peer) \<times> kern" where
  "promote_detach tenv connection_id s wg tk =
     (case tk of (t, k) \<Rightarrow>
        if inbound_socket t \<noteq> Some s \<or> peer_socket t \<noteq> Some s \<or> tcp_connection_id t \<noteq> connection_id
        then (Inl (ESTALE, t), k)
        else
          let t1 = t\<lparr>is_dead := True, tcp_stopping := True, tcp_inbound_remove_scheduled := True,
                     tcp_inbound_remove_socket := Some s\<rparr>;
              (_, t2, k2) = tenv 0 (wg, t1, k)
          in (case wg_reset_exact_tcp_socket_callbacks s (wg_tcp_cancel_stream_workers t2, k2) of
                (Some e, t3, k3) \<Rightarrow> (Inl (e, t3), k3)
              | (None, t3, k3) \<Rightarrow>
                  (Inr (t3\<lparr>peer_socket := None, inbound_socket := None, inbound_connected := False,
                           tcp_established := False, tcp_inbound_remove_scheduled := False,
                           tcp_inbound_remove_socket := None\<rparr>), k3)))"

text \<open>The configured peer's own carriers go: the first error, if any.\<close>

definition release_old ::
  "tcp_env \<Rightarrow> tcp_sys \<Rightarrow> errno option \<times> tcp_sys" where
  "release_old env sys =
     (case sys of (wg, p, k) \<Rightarrow>
        let old_in = inbound_socket p; old_out = outbound_socket p;
            p1 = p\<lparr>tcp_inbound_remove_scheduled := (old_in \<noteq> None), tcp_inbound_remove_socket := old_in,
                   tcp_outbound_remove_scheduled := (old_out \<noteq> None), tcp_outbound_remove_socket := old_out\<rparr>;
            (wg2, p2, k2) = env 1 (wg, p1, k);
            p3 = (if old_in \<noteq> None \<or> old_out \<noteq> None then wg_tcp_cancel_stream_workers p2 else p2);
            (ret, p4, k4) = (case old_in of None \<Rightarrow> (None, p3, k2) | Some s \<Rightarrow> detach_and_release s (p3, k2))
        in if ret \<noteq> None then (ret, wg2, p4, k4)
           else
             (case (if old_out \<noteq> old_in then old_out else None) of
                None \<Rightarrow> (None, wg2, p4, k4)
              | Some s \<Rightarrow> (case detach_and_release s (p4, k4) of (ret', p5, k5) \<Rightarrow> (ret', wg2, p5, k5))))"

definition promote_publish :: "ktime \<Rightarrow> sock_id \<Rightarrow> wg_peer \<Rightarrow> wg_peer \<Rightarrow> wg_peer" where
  "promote_publish now s t p =
     p\<lparr>inbound_source := inbound_source t, inbound_dest := inbound_dest t,
       peer_socket := Some s, inbound_socket := Some s, tcp_established := True, tcp_pending := False,
       tcp_connecting := False, inbound_connected := True, outbound_connected := False,
       inbound_timestamp := now, tcp_inbound_remove_scheduled := False, tcp_inbound_remove_socket := None,
       tcp_outbound_remove_scheduled := False, tcp_outbound_remove_socket := None,
       tcp_reconnect_requested := False\<rparr>"

text \<open>The new owner installs its callbacks, or releases the socket when it may not.\<close>

definition promote_install ::
  "tcp_env \<Rightarrow> bool \<Rightarrow> bool \<Rightarrow> sock_id \<Rightarrow> tcp_sys \<Rightarrow> errno option \<times> tcp_sys" where
  "promote_install env alloc_ok module_ok s sys =
     (case env 2 sys of (wg, p, k) \<Rightarrow>
        (case wg_setup_tcp_socket_callbacks alloc_ok module_ok wg s True (p, k) of
           (Some e, p1, k1) \<Rightarrow>
             (case wg_release_peer_socket_locked s
                     (p1\<lparr>tcp_inbound_callbacks_set := False, tcp_inbound_socket_data := None\<rparr>, k1) of
                (_, p2, k2) \<Rightarrow> (Some e, wg, p2, k2))
         | (None, p1, k1) \<Rightarrow>
             (case env 3 (wg, p1, k1) of (wg2, p2, k2) \<Rightarrow>
                (None, wg2, wg_tcp_rearm_surviving_stream_locked wg2 k2 p2, k2))))"

record promote_env =
  pe_env :: tcp_env
  pe_tenv :: tcp_env
  pe_now :: ktime
  pe_alloc_ok :: bool
  pe_module_ok :: bool

text \<open>
  What happens to a claimed entry. The result: success, the system, and the
  provisional peer if it is still there.
\<close>

definition promote_entry ::
  "promote_env \<Rightarrow> u64 \<Rightarrow> sock_id \<Rightarrow> wg_peer \<Rightarrow> tcp_sys \<Rightarrow> bool \<times> tcp_sys \<times> wg_peer option" where
  "promote_entry pe connection_id s t sys =
     (case pe_env pe 0 sys of (wg, p, k) \<Rightarrow>
        if connection_id < tcp_roaming_connection_id p then
          (case wg_destroy_temp_peer (pe_tenv pe) wg (t, k) of (t', k') \<Rightarrow> (False, (wg, p, k'), t'))
        else
          let p1 = p\<lparr>tcp_roaming_connection_id := connection_id\<rparr> in
          (case promote_detach (pe_tenv pe) connection_id s wg (t, k) of
             (Inl (e, t1), k1) \<Rightarrow>
               (case wg_destroy_temp_peer (pe_tenv pe) wg (t1, k1) of (t', k') \<Rightarrow> (False, (wg, p1, k'), t'))
           | (Inr t1, k1) \<Rightarrow>
               (case release_old (pe_env pe) (wg, p1, k1) of
                  (Some e, wg2, p2, k2) \<Rightarrow>
                    (False, (wg2, p2, sock_release s (upd_sock s (\<lambda>sk. sk\<lparr>so_shutdown := True\<rparr>) k2)), None)
                | (None, wg2, p2, k2) \<Rightarrow>
                    (case promote_install (pe_env pe) (pe_alloc_ok pe) (pe_module_ok pe) s
                            (wg2, promote_publish (pe_now pe) s t1 p2, k2) of
                       (ret, sys3) \<Rightarrow> (ret = None, sys3, None)))))"

text \<open>\<open>temps\<close> are the provisional peers by identity.\<close>

definition wg_tcp_promote_authenticated_carrier ::
  "promote_env \<Rightarrow> u64 \<Rightarrow> (peer_id \<Rightarrow> wg_peer) \<Rightarrow> tcp_sys \<Rightarrow> bool \<times> tcp_sys" where
  "wg_tcp_promote_authenticated_carrier pe connection_id temps sys =
     (case sys of (wg, p, k) \<Rightarrow>
        if connection_id = 0 \<or> transport wg \<noteq> WG_TRANSPORT_TCP then (False, sys)
        else
          (case promote_claim (pe_now pe) connection_id (connection_id < tcp_roaming_connection_id p) wg of
             (None, wg1) \<Rightarrow> (False, wg1, p, k)
           | (Some entry, wg1) \<Rightarrow>
               (case (e_temp_peer entry, e_tcp_socket entry) of
                  (Some i, Some s) \<Rightarrow>
                    (case promote_entry pe connection_id s (temps i) (wg1, p, k) of (b, sys', _) \<Rightarrow> (b, sys'))
                | (ti, so) \<Rightarrow>
                    (case wg_destroy_tcp_connection_entry (pe_tenv pe) wg1 so (map_option temps ti) k of
                       (_, k') \<Rightarrow> (False, wg1, p, k')))))"

text \<open>
  \<open>wg_tcp_promotion_worker\<close>: one element of the list per carrier it gets to see. The work
  item counts as pending until the loop ends; the scheduled flag keeps it from being
  queued twice.
\<close>

fun wg_tcp_promotion_worker ::
  "(promote_env \<times> (peer_id \<Rightarrow> wg_peer)) list \<Rightarrow> tcp_sys \<Rightarrow> tcp_sys" where
  "wg_tcp_promotion_worker script (wg, p, k) =
     (if tcp_promotion_connection_id p = 0
      then (wg, p\<lparr>wk_promotion := None, tcp_promotion_worker_scheduled := False\<rparr>, k)
      else
        (case script of
           [] \<Rightarrow> (wg, p, k)
         | (pe, temps) # rest \<Rightarrow>
             wg_tcp_promotion_worker rest
               (snd (wg_tcp_promote_authenticated_carrier pe (tcp_promotion_connection_id p) temps
                       (wg, p\<lparr>tcp_promotion_connection_id := 0\<rparr>, k)))))"

section \<open>Two owners\<close>

text \<open>The configured peer and a provisional one share no socket.\<close>

definition apart :: "wg_peer \<Rightarrow> wg_peer \<Rightarrow> bool" where
  "apart p t \<longleftrightarrow> p_id p \<noteq> p_id t \<and> (\<forall>s. owns p s \<longrightarrow> \<not> owns t s)"

lemma reset_other:
  assumes wf: "tcp_wf k p" "tcp_wf k t" "apart p t" "owns t s"
    and r: "wg_reset_exact_tcp_socket_callbacks s (t, k) = (r, t', k')"
  shows "r = None \<and> t' = set_dir (inbound_socket t = Some s) None False t \<and> tcp_wf k' p \<and> tcp_wf k' t' \<and>
    sock_detached (socks k' s) \<and> so_releases (socks k' s) = 0 \<and> (\<forall>u. u \<noteq> s \<longrightarrow> socks k' u = socks k u)"
proof -
  let ?b = "inbound_socket t = Some s"
  obtain k1 where k1: "wg_reset_tcp_socket_callbacks s ?b (t, k) = (None, set_dir ?b None False t, k1)"
      "tcp_wf k1 (set_dir ?b None False t)" "sock_detached (socks k1 s)"
      "\<And>u. u \<noteq> s \<Longrightarrow> socks k1 u = socks k u" "so_releases (socks k1 s) = 0" "next_sd k1 = next_sd k"
      "\<And>d. dir_data ?b t \<noteq> Some d \<Longrightarrow> sdata k1 d = sdata k d"
    using reset_wf [OF wf(2) owns_dir [OF wf(4)]] by metis
  have k': "r = None" "t' = set_dir ?b None False t" "k' = k1"
    using r k1(1) reset_exact_dir [OF wf(2,4)] by auto
  have "dir_ok k1 p b" for b
  proof (rule dir_ok_kern [of k])
    show ok: "dir_ok k p b" using wf(1) by (cases b) (simp_all add: tcp_wf_def)
    show "socks k1 u = socks k u" if "dir_socket b p = Some u" for u
      using that wf(3,4) k1(4) [of u] by (auto simp: apart_def owns_def dir_socket_def split: if_splits)
    show "sdata k1 d = sdata k d" if "dir_data b p = Some d" for d
    proof (rule k1(7), rule notI)
      assume "dir_data ?b t = Some d"
      moreover have "dir_ok k t ?b" using wf(2) by (cases ?b) (simp_all add: tcp_wf_def)
      ultimately have "p_id p = p_id t"
        using ok that by (auto simp: dir_ok_def stack_wrapper_def split: option.splits)
      then show False using wf(3) by (simp add: apart_def)
    qed
  qed (simp add: k1(6))
  then have "tcp_wf k1 p" using wf(1) by (simp add: tcp_wf_def)
  then show ?thesis using k1 k' by auto
qed

lemma detach_other:
  assumes wf: "tcp_wf k p" "tcp_wf k t" "apart p t" "owns t s"
    and d: "detach_and_release s (t, k) = (r, t', k')"
  shows "r = None \<and> tcp_wf k' p \<and> so_releases (socks k' s) = 1 \<and> (\<forall>u. u \<noteq> s \<longrightarrow> socks k' u = socks k u)"
proof -
  obtain r1 t1 k1 where rs: "wg_reset_exact_tcp_socket_callbacks s (t, k) = (r1, t1, k1)" by (metis prod_cases3)
  note ot = reset_other [OF wf rs]
  have sep: "inbound_socket t \<noteq> None \<longrightarrow> inbound_socket t \<noteq> outbound_socket t"
    using wf(2) by (simp add: tcp_wf_def)
  have k': "r = None" "k' = upd_sock s (\<lambda>sk. sk\<lparr>so_shutdown := True, so_releases := Suc (so_releases sk)\<rparr>) k1"
    using d rs ot release_unfold [OF wf(4) sep, of k1] by (auto simp: detach_and_release_def)
  have "\<not> owns p s" using wf(3,4) by (auto simp: apart_def)
  then have "tcp_wf k' p" unfolding k'(2) using ot by (intro wf_unowned) auto
  then show ?thesis using k' ot by simp
qed

lemma apart_quiet: "quiet_peer p p' \<Longrightarrow> quiet_peer t t' \<Longrightarrow> apart p' t' = apart p t"
  by (simp add: quiet_peer_def peer_own_def apart_def owns_def)

lemma quiet_kern_wf: "quiet_kern k k' \<Longrightarrow> tcp_wf k' p = tcp_wf k p"
  using quiet_wf [of undefined p k undefined p k'] by simp

lemma quiet_temp:
  "quiet_peer t (temp_claim t)"
  "quiet_peer t (wg_tcp_cancel_stream_workers (t\<lparr>wk_retry := None, wk_outbound_remove := None, wk_inbound_remove := None\<rparr>))"
  by (simp_all add: quiet_defs temp_claim_def wg_tcp_cancel_stream_workers_def)

text \<open>A provisional peer that owns one accepted socket.\<close>

definition provisional :: "sock_id \<Rightarrow> wg_peer \<Rightarrow> bool" where
  "provisional s t \<longleftrightarrow> inbound_socket t = Some s \<and> outbound_socket t = None"

lemma provisional_quiet: "quiet_peer t t' \<Longrightarrow> provisional s t' = provisional s t"
  by (simp add: quiet_peer_def peer_own_def provisional_def)

lemma destroy_temp_ok:
  assumes env: "interfering tenv" and inv: "tcp_inv (wg, p, k)" and t: "tcp_wf k t" "apart p t" "provisional s t"
    and d: "wg_destroy_temp_peer tenv wg (t, k) = (t', k')"
  shows "t' = None \<and> tcp_inv (wg, p, k') \<and> so_releases (socks k' s) = 1 \<and>
    (\<forall>u. u \<noteq> s \<longrightarrow> sock_own (socks k' u) = sock_own (socks k u))"
proof -
  obtain w1 t1 k1 where e: "tenv 8 (wg, temp_claim t, k) = (w1, t1, k1)"
    by (cases "tenv 8 (wg, temp_claim t, k)")
  let ?t2 = "wg_tcp_cancel_stream_workers
      (t1\<lparr>wk_retry := None, wk_outbound_remove := None, wk_inbound_remove := None\<rparr>)"
  have q: "quiet_peer (temp_claim t) t1" "quiet_kern k k1" using env_quiet [OF env e] by auto
  have q2: "quiet_peer t ?t2"
    using quiet_peer_trans [OF quiet_peer_trans [OF quiet_temp(1) q(1)] quiet_temp(2)] .
  have prov: "provisional s ?t2" using provisional_quiet [OF q2] t(3) by simp
  have wf2: "tcp_wf k1 ?t2" using quiet_wf [of wg t k wg ?t2 k1] q(2) q2 t(1) by simp
  have wfp: "tcp_wf k1 p" using inv quiet_kern_wf [OF q(2)] by (simp add: tcp_inv_def)
  have ap: "apart p ?t2" using apart_quiet [OF quiet_peer_refl q2] t(2) by blast
  obtain r t3 k3 where dr: "detach_and_release s (?t2, k1) = (r, t3, k3)" by (metis prod_cases3)
  have own: "owns ?t2 s" using prov by (simp add: provisional_def owns_def)
  note ot = detach_other [OF wfp wf2 ap own dr]
  have res: "t' = None" "k' = k3"
    using d prov ot dr by (simp_all add: wg_destroy_temp_peer_def e Let_def provisional_def)
  have rel: "sock_own (socks k' u) = sock_own (socks k u)" if "u \<noteq> s" for u
    using ot q(2) that res by (simp add: quiet_kern_def)
  then have "so_releases (socks k' u) \<le> 1" for u
    using inv ot res by (cases "u = s") (auto simp: tcp_inv_def sock_own_def)
  then show ?thesis using ot res rel by (simp add: tcp_inv_def)
qed

lemma promote_detach_ok:
  assumes env: "interfering tenv" and inv: "tcp_inv (wg, p, k)" and t: "tcp_wf k t" "apart p t" "provisional s t"
    and d: "promote_detach tenv cid s wg (t, k) = (res, k')"
  shows "tcp_inv (wg, p, k') \<and> (\<forall>e t1. res = Inl (e, t1) \<longrightarrow> k' = k \<and> t1 = t) \<and>
    (\<forall>t2. res = Inr t2 \<longrightarrow> unused (wg, p, k') s) \<and>
    (\<forall>u. u \<noteq> s \<longrightarrow> sock_own (socks k' u) = sock_own (socks k u))"
proof -
  have "\<not> owns p s" using t(2,3) by (auto simp: apart_def provisional_def owns_def)
  show ?thesis
  proof (cases "peer_socket t = Some s \<and> tcp_connection_id t = cid")
    case False
    then have "res = Inl (ESTALE, t)" "k' = k" using d by (auto simp: promote_detach_def)
    then show ?thesis using inv by auto
  next
    case True
    let ?t1 = "t\<lparr>is_dead := True, tcp_stopping := True, tcp_inbound_remove_scheduled := True,
        tcp_inbound_remove_socket := Some s\<rparr>"
    obtain w2 u2 k2 where e: "tenv 0 (wg, ?t1, k) = (w2, u2, k2)" by (cases "tenv 0 (wg, ?t1, k)")
    let ?u3 = "wg_tcp_cancel_stream_workers u2"
    have q: "quiet_peer ?t1 u2" "quiet_kern k k2" using env_quiet [OF env e] by auto
    have "quiet_peer t ?t1" by (simp add: quiet_defs)
    then have q3: "quiet_peer t ?u3"
      using quiet_peer_trans [OF quiet_peer_trans [OF _ q(1)] quiet_unwind(3)] by blast
    have prov: "provisional s ?u3" using provisional_quiet [OF q3] t(3) by simp
    have wf3: "tcp_wf k2 ?u3" using quiet_wf [of wg t k wg ?u3 k2] q(2) q3 t(1) by simp
    have wfp: "tcp_wf k2 p" using inv quiet_kern_wf [OF q(2)] by (simp add: tcp_inv_def)
    have ap: "apart p ?u3" using apart_quiet [OF quiet_peer_refl q3] t(2) by blast
    obtain r u4 k4 where rs: "wg_reset_exact_tcp_socket_callbacks s (?u3, k2) = (r, u4, k4)" by (metis prod_cases3)
    have own: "owns ?u3 s" using prov by (simp add: provisional_def owns_def)
    note ot = reset_other [OF wfp wf3 ap own rs]
    have res: "k' = k4" "\<exists>t5. res = Inr t5"
      using d True t(3) ot rs by (auto simp: promote_detach_def Let_def e provisional_def)
    have so: "sock_own (socks k' u) = sock_own (socks k u)" if "u \<noteq> s" for u
      using ot q(2) that res by (simp add: quiet_kern_def)
    then have "so_releases (socks k' u) \<le> 1" for u
      using inv ot res by (cases "u = s") (auto simp: tcp_inv_def sock_own_def)
    moreover have "unused (wg, p, k') s"
      using ot res \<open>\<not> owns p s\<close> by (simp add: unused_def sock_own_def sock_detached_def)
    ultimately show ?thesis using ot res so by (auto simp: tcp_inv_def)
  qed
qed

lemma detach_dir:
  assumes "tcp_inv (wg, p, k)" "so = dir_socket b p"
    and "(case so of None \<Rightarrow> (None, p, k) | Some s \<Rightarrow> detach_and_release s (p, k)) = (r, p', k')"
  shows "r = None" "dir_socket b p' = None" "dir_socket (\<not> b) p' = dir_socket (\<not> b) p"
    "local_step (wg, p, k) (wg, p', k')" "\<And>s. so = Some s \<Longrightarrow> so_releases (socks k' s) = 1"
    "\<And>u. so \<noteq> Some u \<Longrightarrow> socks k' u = socks k u"
proof -
  have "r = None \<and> dir_socket b p' = None \<and> dir_socket (\<not> b) p' = dir_socket (\<not> b) p \<and>
    local_step (wg, p, k) (wg, p', k') \<and> (\<forall>s. so = Some s \<longrightarrow> so_releases (socks k' s) = 1) \<and>
    (\<forall>u. so \<noteq> Some u \<longrightarrow> socks k' u = socks k u)"
  proof (cases so)
    case None
    then show ?thesis using assms by auto
  next
    case (Some s)
    then have own: "owns p s" using assms(2) by (auto simp: owns_def dir_socket_def split: if_splits)
    have in_b: "inbound_socket p = Some s \<longleftrightarrow> b"
      using assms(1,2) Some by (auto simp: dir_socket_def tcp_inv_def tcp_wf_def split: if_splits)
    have d: "detach_and_release s (p, k) = (r, p', k')" using assms(3) Some by simp
    obtain k1 where k1: "detach_and_release s (p, k) = (None, released s p, k1)"
        "so_releases (socks k1 s) = 1" "\<And>t. t \<noteq> s \<Longrightarrow> socks k1 t = socks k t"
      using detach_owned [OF assms(1) own] by metis
    then have res: "r = None" "p' = released s p" "k' = k1" using d by auto
    have "dir_socket b p' = None" "dir_socket (\<not> b) p' = dir_socket (\<not> b) p"
      using in_b assms(2) Some by (auto simp: res dir_socket_def released_fields)
    then show ?thesis using k1(2,3) res Some detach_local [OF d] by auto
  qed
  then show "r = None" "dir_socket b p' = None" "dir_socket (\<not> b) p' = dir_socket (\<not> b) p"
    "local_step (wg, p, k) (wg, p', k')" "\<And>s. so = Some s \<Longrightarrow> so_releases (socks k' s) = 1"
    "\<And>u. so \<noteq> Some u \<Longrightarrow> socks k' u = socks k u"
    by auto
qed

lemma release_old_ok:
  assumes env: "interfering env" and inv: "tcp_inv (wg, p, k)"
    and r: "release_old env (wg, p, k) = (r, wg', p', k')"
  shows "r = None \<and> inbound_socket p' = None \<and> outbound_socket p' = None \<and>
    local_step (wg, p, k) (wg', p', k') \<and> (\<forall>s. owns p s \<longrightarrow> so_releases (socks k' s) = 1)"
proof -
  define p1 where "p1 = p\<lparr>tcp_inbound_remove_scheduled := (inbound_socket p \<noteq> None),
     tcp_inbound_remove_socket := inbound_socket p, tcp_outbound_remove_scheduled := (outbound_socket p \<noteq> None),
     tcp_outbound_remove_socket := outbound_socket p\<rparr>"
  obtain wg2 p2 k2 where e: "env 1 (wg, p1, k) = (wg2, p2, k2)" by (cases "env 1 (wg, p1, k)")
  define p3 where "p3 = (if inbound_socket p \<noteq> None \<or> outbound_socket p \<noteq> None
    then wg_tcp_cancel_stream_workers p2 else p2)"
  have q1: "quiet_peer p p1" by (simp add: p1_def quiet_defs)
  have q3: "quiet_peer p2 p3" by (simp add: p3_def quiet_unwind)
  have l3: "local_step (wg, p, k) (wg2, p3, k2)"
    by (rule local_trans [OF local_trans [OF quiet_peer_local [OF q1] env_localD [OF env e]] quiet_peer_local [OF q3]])
  have inv3: "tcp_inv (wg2, p3, k2)" using l3 inv by (simp add: local_step_def safe_def)
  have same: "dir_socket b p3 = dir_socket b p" for b
    using q1 q3 env_quiet [OF env e] by (simp add: quiet_peer_def peer_own_def dir_socket_def)
  obtain r4 p4 k4 where d4: "(case inbound_socket p of None \<Rightarrow> (None, p3, k2) | Some s \<Rightarrow> detach_and_release s (p3, k2)) = (r4, p4, k4)"
    by (metis prod_cases3)
  have in3: "inbound_socket p = dir_socket True p3" by (simp add: same) (simp add: dir_socket_def)
  note a = detach_dir [OF inv3 in3 d4]
  have inv4: "tcp_inv (wg2, p4, k4)" using a(4) inv3 by (simp add: local_step_def safe_def)
  obtain r5 p5 k5 where d5: "(case outbound_socket p of None \<Rightarrow> (None, p4, k4) | Some s \<Rightarrow> detach_and_release s (p4, k4)) = (r5, p5, k5)"
    by (metis prod_cases3)
  have op4: "outbound_socket p = dir_socket False p4" using a(3) same [of False] by (simp add: dir_socket_def)
  note b = detach_dir [OF inv4 op4 d5]
  have ne: "outbound_socket p = inbound_socket p \<Longrightarrow> outbound_socket p = None"
    using inv by (auto simp: tcp_inv_def tcp_wf_def)
  have res: "r = r5" "wg' = wg2" "p' = p5" "k' = k5"
    using r e d4 d5 a(1) ne unfolding release_old_def p1_def p3_def
    by (cases "inbound_socket p"; cases "outbound_socket p"; simp add: Let_def split: if_splits)+
  have "so_releases (socks k5 s) = 1" if "owns p s" for s
  proof (cases "outbound_socket p = Some s")
    case True
    then show ?thesis using b(5) by blast
  next
    case False
    then have "inbound_socket p = Some s" using that by (simp add: owns_def)
    then show ?thesis using a(5) [of s] b(6) [OF False] by simp
  qed
  then show ?thesis
    using b(1-3) a(2) local_trans [OF local_trans [OF l3 a(4)] b(4)] by (simp add: res dir_socket_def)
qed

lemma release_is_detach:
  assumes "tcp_wf k p" "inbound_socket p = Some s" "tcp_inbound_socket_data p = None"
  shows "wg_release_peer_socket_locked s (p\<lparr>tcp_inbound_callbacks_set := False, tcp_inbound_socket_data := None\<rparr>, k) =
    detach_and_release s (p, k)"
proof -
  have set: "\<not> tcp_inbound_callbacks_set p" "sock_detached (socks k s)"
    using assms by (auto simp: tcp_wf_def dir_ok_def dir_defs)
  then have same: "p\<lparr>tcp_inbound_callbacks_set := False, tcp_inbound_socket_data := None\<rparr> = p"
    using assms(3) by simp
  have "wg_reset_exact_tcp_socket_callbacks s (p, k) = (None, p, k)"
    using assms set reset_exact_dir [OF assms(1), of s]
    by (simp add: owns_def wg_reset_tcp_socket_callbacks_def dir_defs sock_detached_def)
  then show ?thesis by (simp add: detach_and_release_def same)
qed

lemma publish_in_inv:
  assumes inv: "tcp_inv (wg, p, k)" and un: "unused (wg, p, k) s"
    and none: "inbound_socket p = None" "outbound_socket p = None"
  shows "tcp_inv (wg, promote_publish now s t p, k)"
proof -
  let ?p = "promote_publish now s t p"
  have "dir_ok k ?p False"
    using inv unfolding tcp_inv_def tcp_wf_def
    by (subst dir_ok_cong [of False ?p p]) (auto simp: dir_defs promote_publish_def)
  moreover have "dir_ok k ?p True"
    using inv un none
    by (auto simp: tcp_inv_def tcp_wf_def dir_ok_def dir_defs promote_publish_def unused_def sock_own_def sock_detached_def)
  ultimately show ?thesis
    using inv none by (auto simp: tcp_inv_def tcp_wf_def promote_publish_def)
qed

lemma install_ok:
  assumes env: "interfering env" and inv: "tcp_inv (wg, p, k)" and un: "unused (wg, p, k) s"
    and none: "inbound_socket p = None" "outbound_socket p = None"
    and ins: "promote_install env a m s (wg, promote_publish now s t p, k) = (r, wg', p', k')"
  shows "tcp_inv (wg', p', k') \<and> barrier (wg, p, k) (wg', p', k') \<and>
    (r = None \<longrightarrow> inbound_socket p' = Some s \<and> peer_socket p' = Some s \<and> outbound_socket p' = None \<and>
       tcp_inbound_socket_data p' \<noteq> None) \<and>
    (r \<noteq> None \<longrightarrow> \<not> owns p' s \<and> so_releases (socks k' s) = 1) \<and>
    (\<forall>u. u \<noteq> s \<longrightarrow> so_releases (socks k' u) = so_releases (socks k u))"
proof -
  let ?p1 = "promote_publish now s t p"
  have inv1: "tcp_inv (wg, ?p1, k)" by (rule publish_in_inv [OF inv un none])
  have b1: "barrier (wg, p, k) (wg, ?p1, k)"
    by (simp add: barrier_def promote_publish_def no_new_work_def works_def)
  have data1: "tcp_inbound_socket_data ?p1 = None"
    using inv none by (simp add: promote_publish_def tcp_inv_def tcp_wf_def dir_ok_def dir_defs)
  obtain wg2 p2 k2 where e2: "env 2 (wg, ?p1, k) = (wg2, p2, k2)" by (cases "env 2 (wg, ?p1, k)")
  have q2: "quiet_peer ?p1 p2" "quiet_kern k k2" using env_quiet [OF env e2] by auto
  have l2: "local_step (wg, ?p1, k) (wg2, p2, k2)" by (rule env_localD [OF env e2])
  have inv2: "tcp_inv (wg2, p2, k2)" and b2: "barrier (wg, ?p1, k) (wg2, p2, k2)"
    using l2 inv1 by (auto simp: local_step_def safe_def)
  have f2: "inbound_socket p2 = Some s" "peer_socket p2 = Some s" "outbound_socket p2 = None"
    "tcp_inbound_socket_data p2 = None"
    using q2(1) none data1 by (simp_all add: quiet_peer_def peer_own_def) (simp_all add: promote_publish_def)
  obtain r3 p3 k3 where st: "wg_setup_tcp_socket_callbacks a m wg2 s True (p2, k2) = (r3, p3, k3)"
    by (metis prod_cases3)
  have l3: "local_step (wg2, p2, k2) (wg2, p3, k3)" by (rule setup_local [OF st])
  have inv3: "tcp_inv (wg2, p3, k3)" and b3: "barrier (wg2, p2, k2) (wg2, p3, k3)"
    using l3 inv2 by (auto simp: local_step_def safe_def)
  have wf2: "tcp_wf k2 p2" using inv2 by (simp add: tcp_inv_def)
  note sw = setup_wf [OF wf2 st]
  obtain d c where p3: "p3 = set_dir True d c p2" using sw by blast
  have f3: "inbound_socket p3 = Some s" "peer_socket p3 = Some s" "outbound_socket p3 = None"
    using f2 by (simp_all add: p3 set_dir_def)
  have rel3: "so_releases (socks k3 u) = so_releases (socks k u)" for u
    using sw q2(2) by (cases "u = s") (auto simp: quiet_kern_def sock_own_def)
  note b13 = barrier_trans [OF barrier_trans [OF b1 b2] b3]
  show ?thesis
  proof (cases r3)
    case None
    obtain wg4 p4 k4 where e3: "env 3 (wg2, p3, k3) = (wg4, p4, k4)" by (cases "env 3 (wg2, p3, k3)")
    have q4: "quiet_peer p3 p4" "quiet_kern k3 k4" using env_quiet [OF env e3] by auto
    let ?p5 = "wg_tcp_rearm_surviving_stream_locked wg4 k4 p4"
    have q5: "quiet_peer p3 ?p5" using quiet_peer_trans [OF q4(1) quiet_misc(7)] .
    have "local_step (wg2, p3, k3) (wg4, ?p5, k4)" using q4(2) q5 by (intro quiet_local) simp
    then have "tcp_inv (wg4, ?p5, k4)" "barrier (wg2, p3, k3) (wg4, ?p5, k4)"
      using inv3 by (auto simp: local_step_def safe_def)
    moreover have "tcp_inbound_socket_data p3 \<noteq> None" using sw None by (simp add: dir_data_def)
    moreover have "r = None" "wg' = wg4" "p' = ?p5" "k' = k4"
      using ins None by (auto simp: promote_install_def e2 st e3)
    ultimately show ?thesis
      using f3 q5 q4(2) rel3 barrier_trans [OF b13]
      by (auto simp: quiet_peer_def peer_own_def quiet_kern_def sock_own_def)
  next
    case (Some err)
    have p3': "p3 = p2" "k3 = k2"
      using st Some by (auto simp: wg_setup_tcp_socket_callbacks_def Let_def split: if_splits)
    have "wg_release_peer_socket_locked s (p3\<lparr>tcp_inbound_callbacks_set := False, tcp_inbound_socket_data := None\<rparr>, k3)
        = detach_and_release s (p2, k2)"
      using release_is_detach [OF wf2 f2(1,4)] by (simp add: p3')
    moreover obtain k5 where k5: "detach_and_release s (p2, k2) = (None, released s p2, k5)"
        "tcp_inv (wg2, released s p2, k5)" "so_releases (socks k5 s) = 1" "\<And>u. u \<noteq> s \<Longrightarrow> socks k5 u = socks k2 u"
      using detach_owned [OF inv2, of s] f2(1) unfolding owns_def by metis
    ultimately have res: "r = Some err" "wg' = wg2" "p' = released s p2" "k' = k5"
      using ins Some by (simp_all add: promote_install_def e2 st)
    have "barrier (wg2, p2, k2) (wg2, released s p2, k5)"
      using detach_local [OF k5(1)] inv2 by (auto simp: local_step_def safe_def)
    then show ?thesis
      using res k5 f2 rel3 p3' barrier_trans [OF barrier_trans [OF b1 b2]]
      by (auto simp: owns_def released_fields)
  qed
qed

text \<open>What the hand-over of a claimed carrier guarantees.\<close>

definition handed_over :: "bool \<Rightarrow> sock_id \<Rightarrow> wg_peer \<Rightarrow> tcp_sys \<Rightarrow> bool" where
  "handed_over ok s p y \<longleftrightarrow> (case y of (wg', p', k') \<Rightarrow>
     (ok \<longrightarrow> inbound_socket p' = Some s \<and> peer_socket p' = Some s \<and> outbound_socket p' = None \<and>
        tcp_inbound_socket_data p' \<noteq> None \<and> (\<forall>u. owns p u \<longrightarrow> so_releases (socks k' u) = 1)) \<and>
     (\<not> ok \<longrightarrow> \<not> owns p' s \<and> so_releases (socks k' s) = 1))"

lemma promote_entry_ok:
  assumes env: "interfering (pe_env pe)" "interfering (pe_tenv pe)" and inv: "tcp_inv (wg, p, k)"
    and t: "tcp_wf k t" "apart p t" "provisional s t"
    and r: "promote_entry pe cid s t (wg, p, k) = (ok, y, t')"
  shows "tcp_inv y \<and> barrier (wg, p, k) y \<and> t' = None \<and> handed_over ok s p y"
proof -
  obtain wg1 p1 k1 where e0: "pe_env pe 0 (wg, p, k) = (wg1, p1, k1)" by (cases "pe_env pe 0 (wg, p, k)")
  have q1: "quiet_peer p p1" "quiet_kern k k1" using env_quiet [OF env(1) e0] by auto
  have inv1: "tcp_inv (wg1, p1, k1)" and b1: "barrier (wg, p, k) (wg1, p1, k1)"
    using env_localD [OF env(1) e0] inv by (auto simp: local_step_def safe_def)
  have t1: "tcp_wf k1 t" using quiet_kern_wf [OF q1(2)] t(1) by simp
  have ap1: "apart p1 t" using apart_quiet [OF q1(1) quiet_peer_refl] t(2) by blast
  have own1: "owns p1 u = owns p u" for u using q1(1) by (simp add: quiet_peer_def peer_own_def owns_def)
  have no: "\<not> owns p s" using t(2,3) by (auto simp: apart_def provisional_def owns_def)
  let ?p2 = "p1\<lparr>tcp_roaming_connection_id := cid\<rparr>"
  have q2: "quiet_peer p1 ?p2" by (simp add: quiet_defs)
  have inv2: "tcp_inv (wg1, ?p2, k1)" and b2: "barrier (wg1, p1, k1) (wg1, ?p2, k1)"
    using quiet_peer_local [OF q2] inv1 unfolding local_step_def safe_def by blast+
  have ap2: "apart ?p2 t" using apart_quiet [OF q2 quiet_peer_refl] ap1 by blast
  have own2: "owns ?p2 u = owns p u" for u using own1 [of u] by (simp add: owns_def)
  then have no2: "\<not> owns ?p2 s" using no by simp
  note b12 = barrier_trans [OF b1 b2]
  have same: "barrier x (w, q, m) \<Longrightarrow> barrier x (w', q, m')" for x w w' q m m' by (simp add: barrier_def)
  show ?thesis
  proof (cases "cid < tcp_roaming_connection_id p1")
    case True
    obtain t2 k2 where d: "wg_destroy_temp_peer (pe_tenv pe) wg1 (t, k1) = (t2, k2)" by fastforce
    show ?thesis
      using destroy_temp_ok [OF env(2) inv1 t1 ap1 t(3) d] r True d e0 no own1 same [OF b1]
      by (auto simp: promote_entry_def handed_over_def)
  next
    case False
    obtain res k2 where pd: "promote_detach (pe_tenv pe) cid s wg1 (t, k1) = (res, k2)" by fastforce
    note dt = promote_detach_ok [OF env(2) inv2 t1 ap2 t(3) pd]
    show ?thesis
    proof (cases res)
      case (Inl et)
      obtain e t2 where et: "et = (e, t2)" by fastforce
      obtain t3 k3 where d: "wg_destroy_temp_peer (pe_tenv pe) wg1 (t, k1) = (t3, k3)" by fastforce
      show ?thesis
        using destroy_temp_ok [OF env(2) inv2 t1 ap2 t(3) d] r False pd dt Inl et d e0 no2 same [OF b12]
        by (auto simp: promote_entry_def handed_over_def Let_def)
    next
      case (Inr t2)
      obtain r3 wg3 p3 k3 where ro: "release_old (pe_env pe) (wg1, ?p2, k2) = (r3, wg3, p3, k3)" by (metis prod_cases4)
      have inv2': "tcp_inv (wg1, ?p2, k2)" using dt by blast
      note old = release_old_ok [OF env(1) inv2' ro]
      have inv3: "tcp_inv (wg3, p3, k3)" and b3: "barrier (wg1, ?p2, k2) (wg3, p3, k3)"
        and un3: "unused (wg3, p3, k3) s"
        using old inv2' dt Inr by (auto simp: local_step_def safe_def)
      obtain r4 wg4 p4 k4 where pi: "promote_install (pe_env pe) (pe_alloc_ok pe) (pe_module_ok pe) s
          (wg3, promote_publish (pe_now pe) s t2 p3, k3) = (r4, wg4, p4, k4)" by (metis prod_cases4)
      have none3: "inbound_socket p3 = None" "outbound_socket p3 = None" using old by auto
      note io = install_ok [OF env(1) inv3 un3 none3 pi]
      have "barrier (wg, p, k) (wg4, p4, k4)"
        using barrier_trans [OF barrier_trans [OF same [OF b12] b3]] io by blast
      moreover have "owns p u \<Longrightarrow> u \<noteq> s \<and> so_releases (socks k4 u) = 1" for u
        using old io no own2 by metis
      moreover have "ok = (r4 = None)" "y = (wg4, p4, k4)" "t' = None"
        using r False e0 pd Inr ro old pi by (auto simp: promote_entry_def Let_def)
      ultimately show ?thesis using io by (auto simp: handed_over_def)
    qed
  qed
qed

lemma promote_claim_some:
  assumes "List.find (\<lambda>e. e_connection_id e = cid) (tcp_connection_list wg) = Some e" "\<not> e_initializing e" "\<not> stale"
  obtains e' wg' where "promote_claim now cid stale wg = (Some e', wg')" "e_temp_peer e' = e_temp_peer e"
    "e_tcp_socket e' = e_tcp_socket e"
  using assms that
  by (cases "e_admission_counted e") (simp_all add: promote_claim_def wg_tcp_release_admission_locked_def Let_def)

section \<open>Properties\<close>

text \<open>C28. Promotion moves an accepted carrier to its authenticated owner and loses nothing:
  whatever runs in between, when the current carrier of a connection is promoted the
  ownership invariant of the configured peer is kept, and either the peer owns the
  socket, with its own callbacks installed and each of its older sockets released
  exactly once, or the socket is released exactly once and belongs to nobody.\<close>

theorem promotion_transfers_carrier:
  assumes "interfering (pe_env pe)" "interfering (pe_tenv pe)" "tcp_inv (wg, p, k)"
    and "transport wg = WG_TRANSPORT_TCP" "cid \<noteq> 0" "tcp_roaming_connection_id p \<le> cid"
    and "List.find (\<lambda>e. e_connection_id e = cid) (tcp_connection_list wg) = Some e" "\<not> e_initializing e"
    and "e_temp_peer e = Some i" "e_tcp_socket e = Some s"
    and "tcp_wf k (temps i)" "apart p (temps i)" "provisional s (temps i)"
    and "wg_tcp_promote_authenticated_carrier pe cid temps (wg, p, k) = (ok, y)"
  shows "tcp_inv y \<and> handed_over ok s p y"
proof -
  obtain e' wg' where cl: "promote_claim (pe_now pe) cid (cid < tcp_roaming_connection_id p) wg = (Some e', wg')"
      "e_temp_peer e' = Some i" "e_tcp_socket e' = Some s"
    using promote_claim_some [OF assms(7,8), of "cid < tcp_roaming_connection_id p" "pe_now pe"] assms(6,9,10)
    by (auto simp: not_less)
  obtain t' where "promote_entry pe cid s (temps i) (wg', p, k) = (ok, y, t')"
    using assms(4,5,14) cl by (auto simp: wg_tcp_promote_authenticated_carrier_def split: prod.splits)
  moreover have "tcp_inv (wg', p, k)" using assms(3) by (simp add: tcp_inv_def)
  ultimately show ?thesis
    using promote_entry_ok [OF assms(1,2) _ assms(11-13)] by blast
qed

text \<open>Connection 5 on socket 7, accepted by the provisional peer 9, for the peer 1 that dialled socket 3.\<close>

definition demo_entry :: wg_tcp_socket_list_entry where
  "demo_entry = \<lparr>e_tcp_socket = Some 7, e_src_addr = Sa_in 0x0A000002 40000, e_temp_peer = Some 9,
     e_created_at = 0, e_timestamp = 0, e_connection_id = 5, e_authenticated = False,
     e_admission_counted = True, e_initializing = False\<rparr>"

definition demo_listening :: wg_device where
  "demo_listening = demo_dev\<lparr>tcp_connection_list := [demo_entry], tcp_pending_connections := 1,
     tcp_tracked_connections := 1\<rparr>"

definition demo_temp :: wg_peer where
  "demo_temp = (fresh_peer 9)\<lparr>temp_peer := True, inbound_socket := Some 7, peer_socket := Some 7,
     tcp_connection_id := 5, tcp_established := True, inbound_connected := True\<rparr>"

definition demo_dialled :: wg_peer where
  "demo_dialled = (fresh_peer 1)\<lparr>outbound_socket := Some 3, peer_socket := Some 3, tcp_pending := True\<rparr>"

definition demo_promote :: promote_env where
  "demo_promote = \<lparr>pe_env = (\<lambda>_ x. x), pe_tenv = (\<lambda>_ x. x), pe_now = 1, pe_alloc_ok = True, pe_module_ok = True\<rparr>"

lemmas demo_defs = demo_entry_def demo_listening_def demo_temp_def demo_dialled_def demo_promote_def
  demo_dev_def demo_kern_def demo_sock_def fresh_peer_def

lemma interfering_id [simp]: "interfering (\<lambda>_ x. x)"
  by (simp add: interfering_def interf_refl)

lemma demo_promotes:
  "fst (wg_tcp_promote_authenticated_carrier demo_promote 5 (\<lambda>_. demo_temp) (demo_listening, demo_dialled, demo_kern))"
  by (simp add: wg_tcp_promote_authenticated_carrier_def promote_claim_def wg_tcp_release_admission_locked_def
      promote_entry_def promote_detach_def release_old_def promote_install_def promote_publish_def
      detach_and_release_def wg_reset_exact_tcp_socket_callbacks_def wg_reset_tcp_socket_callbacks_def
      wg_release_peer_socket_locked_def wg_setup_tcp_socket_callbacks_def wg_tcp_cancel_stream_workers_def
      dir_defs demo_defs Let_def WG_TRANSPORT_TCP_def)

lemma demo_ready:
  "tcp_inv (demo_listening, demo_dialled, demo_kern)" "tcp_wf demo_kern demo_temp" "apart demo_dialled demo_temp"
  "provisional 7 demo_temp"
  by (auto simp: tcp_inv_def tcp_wf_def dir_ok_def dir_defs sock_detached_def apart_def owns_def provisional_def demo_defs)

theorem promotion_transfers_carrier_witness:
  "\<exists>y. wg_tcp_promote_authenticated_carrier demo_promote 5 (\<lambda>_. demo_temp)
        (demo_listening, demo_dialled, demo_kern) = (True, y) \<and>
      tcp_inv y \<and> handed_over True 7 demo_dialled y"
proof -
  obtain y where y: "wg_tcp_promote_authenticated_carrier demo_promote 5 (\<lambda>_. demo_temp)
      (demo_listening, demo_dialled, demo_kern) = (True, y)"
    using demo_promotes by (metis (full_types) prod.collapse)
  have "tcp_inv y \<and> handed_over True 7 demo_dialled y"
    by (rule promotion_transfers_carrier [OF _ _ demo_ready(1) _ _ _ _ _ _ _ _ _ _ y, where e = demo_entry and i = 9])
      (use demo_ready in \<open>simp_all add: demo_promote_def demo_listening_def demo_entry_def demo_dialled_def
        demo_dev_def fresh_peer_def\<close>)
  then show ?thesis using y by blast
qed

end
