(* ===== verification/Carrier_Steps.thy ===== *)
theory Carrier_Steps
  imports Tcp_Promotion
begin

text \<open>
  The transition system of a configured peer's carriers and its properties. A step is
  interference, dialling, configuring an endpoint, one of the work items of the peer
  if it is pending, or the second half of stopping the peer.
\<close>

section \<open>Stopping\<close>

definition works_none :: "wg_peer \<Rightarrow> bool" where
  "works_none p \<longleftrightarrow> list_all (\<lambda>w. w = None) (works p)"

text \<open>A peer that has been stopped: no sockets, no work, and the barrier is up.\<close>

definition silent :: "wg_peer \<Rightarrow> bool" where
  "silent p \<longleftrightarrow> tcp_stopping p \<and> peer_socket p = None \<and> inbound_socket p = None \<and>
     outbound_socket p = None \<and> works_none p"

lemma list_none: "list_all2 (\<lambda>w w'. w' = None \<or> w' = w) ws ws' \<Longrightarrow> list_all (\<lambda>w. w = None) ws \<Longrightarrow>
    list_all (\<lambda>w. w = None) ws'"
  by (induction rule: list_all2_induct) auto

lemma no_new_work_none: "no_new_work p p' \<Longrightarrow> works_none p \<Longrightarrow> works_none p'"
  unfolding no_new_work_def works_none_def by (rule list_none)

lemma quiet_silent: "quiet (wg, p, k) (wg', p', k') \<Longrightarrow> silent p \<Longrightarrow> silent p'"
  using no_new_work_none by (auto simp: silent_def quiet_peer_def peer_own_def)

lemma stop_release_ok:
  assumes inv: "tcp_inv (wg, p, k)" and so: "so = dir_socket b p"
  obtains p' k' where "stop_release so (f, p, k) = (f, p', k')" "tcp_inv (wg, p', k')"
    "dir_socket b p' = None" "dir_socket (\<not> b) p' = dir_socket (\<not> b) p" "works p' = works p"
    "tcp_stopping p' = tcp_stopping p" "\<And>s. so = Some s \<Longrightarrow> so_releases (socks k' s) = 1"
    "\<And>t. so \<noteq> Some t \<Longrightarrow> socks k' t = socks k t"
proof -
  obtain r p' k' where d: "(case so of None \<Rightarrow> (None, p, k) | Some s \<Rightarrow> detach_and_release s (p, k)) = (r, p', k')"
    by (metis prod_cases3)
  note dd = detach_dir [OF inv so d]
  have "works p' = works p" "tcp_stopping p' = tcp_stopping p"
  proof -
    have "p' = p \<or> (\<exists>s. p' = released s p)"
    proof (cases so)
      case (Some s)
      then have "owns p s" using so by (auto simp: owns_def dir_socket_def split: if_splits)
      then show ?thesis using d Some detach_owned [OF inv, of s] by (metis option.simps(5) prod.inject)
    qed (use d in simp)
    then show "works p' = works p" "tcp_stopping p' = tcp_stopping p" by (auto simp: released_fields)
  qed
  moreover have "stop_release so (f, p, k) = (f, p', k')"
    using d dd(1) by (cases so) (auto simp: stop_release_def)
  moreover have "tcp_inv (wg, p', k')" using dd(4) inv by (simp add: local_step_def safe_def)
  ultimately show thesis using that dd by blast
qed

lemma env_stopping:
  assumes "interfering env" "env n (wg, p, k) = (wg', p', k')" "tcp_stopping p"
  shows "tcp_stopping p'" "no_new_work p p'" "dir_socket b p' = dir_socket b p"
    "tcp_inv (wg, p, k) \<Longrightarrow> tcp_inv (wg', p', k')" "\<And>s. so_releases (socks k' s) = so_releases (socks k s)"
  using env_quiet [OF assms(1,2)] assms(3) local_safe [OF env_localD [OF assms(1,2)]]
  by (auto simp: quiet_peer_def peer_own_def dir_socket_def safe_def quiet_kern_def sock_own_def)

text \<open>The cancelled work items of the first part stay cancelled behind the barrier.\<close>

definition cancelled :: "wg_peer \<Rightarrow> bool" where
  "cancelled p \<longleftrightarrow> wk_retry p = None \<and> wk_outbound_remove p = None \<and> wk_inbound_remove p = None \<and>
     wk_bootstrap p = None \<and> wk_promotion p = None"

lemma cancelled_keep: "no_new_work p p' \<Longrightarrow> cancelled p \<Longrightarrow> cancelled p'"
  by (auto simp: no_new_work_def works_def cancelled_def)

lemma cancelled_drain: "cancelled p \<Longrightarrow> works_none (peer_stop_drain p)"
  by (simp add: cancelled_def peer_stop_drain_def works_none_def works_def)

lemma quiet_stop:
  "quiet_peer p (peer_cancel_works p)" "quiet_peer p (peer_stop_drain p)"
  "quiet_peer p (p\<lparr>tcp_outbound_remove_scheduled := True, tcp_outbound_remove_socket := outbound_socket p,
     tcp_inbound_remove_scheduled := True, tcp_inbound_remove_socket := inbound_socket p\<rparr>)"
  by (simp_all add: quiet_defs peer_cancel_works_def peer_stop_drain_def)

lemma stop_releases_ok:
  assumes inv: "tcp_inv (wg, p, k)" and ib: "inb = inbound_socket p" and ob: "outb = outbound_socket p"
  obtains p' k' where
    "(if inb \<noteq> outb then stop_release inb (stop_release outb (False, p, k)) else stop_release outb (False, p, k))
     = (False, p', k')" "tcp_inv (wg, p', k')" "peer_socket p' = None" "inbound_socket p' = None"
    "outbound_socket p' = None" "works p' = works p" "tcp_stopping p' = tcp_stopping p"
    "\<And>s. owns p s \<Longrightarrow> so_releases (socks k' s) = 1" "\<And>t. \<not> owns p t \<Longrightarrow> socks k' t = socks k t"
proof -
  obtain p1 k1 where r1: "stop_release outb (False, p, k) = (False, p1, k1)" "tcp_inv (wg, p1, k1)"
      "outbound_socket p1 = None" "inbound_socket p1 = inbound_socket p" "works p1 = works p"
      "tcp_stopping p1 = tcp_stopping p" "\<And>s. outb = Some s \<Longrightarrow> so_releases (socks k1 s) = 1"
      "\<And>t. outb \<noteq> Some t \<Longrightarrow> socks k1 t = socks k t"
    by (rule stop_release_ok [OF inv, of outb False False]) (use ob in \<open>auto simp: dir_socket_def\<close>)
  obtain p2 k2 where r2: "stop_release inb (False, p1, k1) = (False, p2, k2)" "tcp_inv (wg, p2, k2)"
      "inbound_socket p2 = None" "outbound_socket p2 = None" "works p2 = works p1"
      "tcp_stopping p2 = tcp_stopping p1" "\<And>s. inb = Some s \<Longrightarrow> so_releases (socks k2 s) = 1"
      "\<And>t. inb \<noteq> Some t \<Longrightarrow> socks k2 t = socks k1 t"
    by (rule stop_release_ok [OF r1(2), of inb True False]) (use ib r1(3,4) in \<open>auto simp: dir_socket_def\<close>)
  have out: "outb = Some s \<Longrightarrow> so_releases (socks k2 s) = 1" for s
    using r1(7) [of s] r2(7) [of s] r2(8) [of s] by (cases "inb = Some s") auto
  have eq: "inb = outb \<Longrightarrow> inb = None"
    using inv ib ob by (auto simp: tcp_inv_def tcp_wf_def)
  then have "(if inb \<noteq> outb then stop_release inb (stop_release outb (False, p, k))
      else stop_release outb (False, p, k)) = (False, p2, k2)"
    using r1(1) r2(1) by (auto simp: stop_release_def)
  moreover have "peer_socket p2 = None"
    using r2(2,3,4) by (auto simp: tcp_inv_def tcp_wf_def)
  moreover have ow: "so_releases (socks k2 s) = 1" if "owns p s" for s
    using that out r2(7) ib ob by (auto simp: owns_def)
  moreover have un: "socks k2 t = socks k t" if "\<not> owns p t" for t
    using that r1(8) [of t] r2(8) [of t] ib ob by (simp add: owns_def)
  ultimately show thesis
    using that [of p2 k2] r1(5,6) r2(2-6) ow un by simp
qed

lemma stop_drained:
  assumes env: "interfering env" and inv: "tcp_inv (wg, p, k)" and stop: "tcp_stopping p"
    and e0: "env 0 (wg, peer_cancel_works p, k) = (wg1, p1, k1)"
    and p2: "p2 = p1\<lparr>tcp_outbound_remove_scheduled := True, tcp_outbound_remove_socket := outbound_socket p1,
       tcp_inbound_remove_scheduled := True, tcp_inbound_remove_socket := inbound_socket p1\<rparr>"
    and e1: "env 1 (wg1, p2, k1) = (wg3, p3, k3)"
  shows "tcp_inv (wg3, peer_stop_drain p3, k3)" "tcp_stopping (peer_stop_drain p3)"
    "works_none (peer_stop_drain p3)" "inbound_socket p2 = inbound_socket p" "outbound_socket p2 = outbound_socket p"
    "inbound_socket (peer_stop_drain p3) = inbound_socket p" "outbound_socket (peer_stop_drain p3) = outbound_socket p"
    "\<And>s. so_releases (socks k3 s) = so_releases (socks k s)"
proof -
  have inv0: "tcp_inv (wg, peer_cancel_works p, k)"
    using inv local_safe [OF quiet_peer_local [OF quiet_stop(1)]] by (metis safe_def)
  have st0: "tcp_stopping (peer_cancel_works p)" using stop by (simp add: peer_cancel_works_def)
  note q1 = env_stopping [OF env e0 st0]
  have inv2: "tcp_inv (wg1, p2, k1)"
    using q1(4) [OF inv0] local_safe [OF quiet_peer_local [OF quiet_stop(3) [of p1]]] unfolding p2 by (metis safe_def)
  have st2: "tcp_stopping p2" using q1(1) by (simp add: p2)
  note q3 = env_stopping [OF env e1 st2]
  show "tcp_inv (wg3, peer_stop_drain p3, k3)"
    using q3(4) [OF inv2] local_safe [OF quiet_peer_local [OF quiet_stop(2)]] by (metis safe_def)
  show "tcp_stopping (peer_stop_drain p3)" using q3(1) by (simp add: peer_stop_drain_def)
  have "cancelled p1" using cancelled_keep [OF q1(2)] by (simp add: cancelled_def peer_cancel_works_def)
  then have "cancelled p3" using cancelled_keep [OF q3(2)] by (simp add: cancelled_def p2)
  then show "works_none (peer_stop_drain p3)" by (rule cancelled_drain)
  have i: "inbound_socket p1 = inbound_socket p" "outbound_socket p1 = outbound_socket p"
    using q1(3) [of True] q1(3) [of False] by (simp_all add: dir_socket_def peer_cancel_works_def)
  then show i2: "inbound_socket p2 = inbound_socket p" "outbound_socket p2 = outbound_socket p"
    by (simp_all add: p2)
  show "so_releases (socks k3 s) = so_releases (socks k s)" for s using q1(5) q3(5) by simp
  show "inbound_socket (peer_stop_drain p3) = inbound_socket p" "outbound_socket (peer_stop_drain p3) = outbound_socket p"
    using q3(3) [of True] q3(3) [of False] i2 by (simp_all add: dir_socket_def peer_stop_drain_def)
qed

lemma stop_finish_silent:
  assumes env: "interfering env" and inv: "tcp_inv (wg, p, k)" and stop: "tcp_stopping p"
    and fin: "peer_stop_finish env (wg, p, k) = (wg', p', k')"
  shows "silent p' \<and> tcp_inv (wg', p', k') \<and> \<not> tcp_established p' \<and>
    (\<forall>s. so_releases (socks k' s) = (if owns p s then 1 else so_releases (socks k s)))"
proof -
  obtain wg1 p1 k1 where e0: "env 0 (wg, peer_cancel_works p, k) = (wg1, p1, k1)"
    by (cases "env 0 (wg, peer_cancel_works p, k)")
  define p2 where "p2 = p1\<lparr>tcp_outbound_remove_scheduled := True, tcp_outbound_remove_socket := outbound_socket p1,
     tcp_inbound_remove_scheduled := True, tcp_inbound_remove_socket := inbound_socket p1\<rparr>"
  obtain wg3 p3 k3 where e1: "env 1 (wg1, p2, k1) = (wg3, p3, k3)" by (cases "env 1 (wg1, p2, k1)")
  note dr = stop_drained [OF env inv stop e0 p2_def e1]
  obtain p5 k5 where r: "(if inbound_socket p2 \<noteq> outbound_socket p2
        then stop_release (inbound_socket p2) (stop_release (outbound_socket p2) (False, peer_stop_drain p3, k3))
        else stop_release (outbound_socket p2) (False, peer_stop_drain p3, k3)) = (False, p5, k5)"
      "tcp_inv (wg3, p5, k5)" "peer_socket p5 = None" "inbound_socket p5 = None" "outbound_socket p5 = None"
      "works p5 = works (peer_stop_drain p3)" "tcp_stopping p5 = tcp_stopping (peer_stop_drain p3)"
      "\<And>s. owns (peer_stop_drain p3) s \<Longrightarrow> so_releases (socks k5 s) = 1"
      "\<And>s. \<not> owns (peer_stop_drain p3) s \<Longrightarrow> socks k5 s = socks k3 s"
    by (rule stop_releases_ok [OF dr(1) trans [OF dr(4) dr(6) [symmetric]] trans [OF dr(5) dr(7) [symmetric]]]) blast
  have sil5: "silent p5" using r dr(2,3) by (simp add: silent_def works_none_def)
  obtain wg6 p6 k6 where e2: "env 2 (wg3, p5, k5) = (wg6, p6, k6)" by (cases "env 2 (wg3, p5, k5)")
  have sil6: "silent p6" using quiet_silent [OF env_quiet [OF env e2] sil5] .
  have st5: "tcp_stopping p5" using sil5 by (simp add: silent_def)
  note q6 = env_stopping [OF env e2 st5]
  have own: "so_releases (socks k6 s) = (if owns p s then 1 else so_releases (socks k s))" for s
    using r(8,9) [of s] q6(5) [of s] dr(6,7) dr(8) [of s] by (simp add: owns_def)
  have res: "wg' = wg6" "k' = k6" "p' = p6\<lparr>tcp_established := False, tcp_pending := False, tcp_connecting := False,
      tcp_reconnect_requested := False, inbound_connected := False, outbound_connected := False,
      tcp_outbound_remove_scheduled := False, tcp_outbound_remove_socket := None,
      tcp_inbound_remove_scheduled := False, tcp_inbound_remove_socket := None\<rparr>"
    using fin e1 r(1) unfolding peer_stop_finish_def p2_def by (simp_all add: Let_def e0 e2 split: if_splits)
  have "quiet_peer p6 p'" unfolding res by (simp add: quiet_defs)
  then have "tcp_inv (wg', p', k')"
    using q6(4) [OF r(2)] local_safe [OF quiet_peer_local] unfolding res(1,2) by (metis safe_def)
  moreover have "silent p'" using sil6 by (simp add: res silent_def works_none_def works_def)
  ultimately show ?thesis using own by (simp add: res)
qed

section \<open>The transition system\<close>

text \<open>
  A step of a configured peer's carriers. Work items run when they are pending;
  dialling gets an unused socket from the kernel; promotion takes the socket of a
  provisional peer that shares nothing with the configured one.
\<close>

definition promote_ok :: "promote_env \<Rightarrow> (peer_id \<Rightarrow> wg_peer) \<Rightarrow> tcp_sys \<Rightarrow> bool" where
  "promote_ok pe temps x \<longleftrightarrow> (case x of (wg, p, k) \<Rightarrow>
     interfering (pe_env pe) \<and> interfering (pe_tenv pe) \<and>
     (\<forall>e\<in>set (tcp_connection_list wg). \<exists>i s. e_temp_peer e = Some i \<and> e_tcp_socket e = Some s \<and>
        tcp_wf k (temps i) \<and> apart p (temps i) \<and> provisional s (temps i)))"

inductive tcp_step :: "tcp_sys \<Rightarrow> tcp_sys \<Rightarrow> bool" where
  step_interf: "interf x y \<Longrightarrow> tcp_step x y"
| step_connect: "connect_ok c x \<Longrightarrow> tcp_step x (snd (wg_tcp_connect c x))"
| step_configure: "interfering env \<Longrightarrow> connect_ok c x \<Longrightarrow>
    tcp_step x (wg_socket_set_peer_endpoint_configured env c ep x)"
| step_retry: "wk_retry p \<noteq> None \<Longrightarrow> interfering env \<Longrightarrow> connect_ok c (wg, p, k) \<Longrightarrow>
    tcp_step (wg, p, k) (wg_tcp_retry_worker env c (wg, p, k))"
| step_outbound: "wk_outbound_remove p \<noteq> None \<Longrightarrow> interfering env \<Longrightarrow> connect_ok c (wg, p, k) \<Longrightarrow>
    tcp_step (wg, p, k) (wg_tcp_outbound_remove_worker env c (wg, p, k))"
| step_inbound: "wk_inbound_remove p \<noteq> None \<Longrightarrow> interfering env \<Longrightarrow>
    tcp_step (wg, p, k) (wg_tcp_inbound_remove_worker env (wg, p, k))"
| step_bootstrap: "wk_bootstrap p \<noteq> None \<Longrightarrow>
    tcp_step (wg, p, k) (wg, snd (wg_tcp_bootstrap_worker wg p), k)"
| step_promote: "wk_promotion p \<noteq> None \<Longrightarrow> promote_ok pe temps (wg, p, k) \<Longrightarrow>
    tcp_step (wg, p, k) (snd (wg_tcp_promote_authenticated_carrier pe (tcp_promotion_connection_id p) temps
      (wg, p\<lparr>tcp_promotion_connection_id := 0\<rparr>, k)))"
| step_promoted: "wk_promotion p \<noteq> None \<Longrightarrow> tcp_promotion_connection_id p = 0 \<Longrightarrow>
    tcp_step (wg, p, k) (wg_tcp_promotion_worker [] (wg, p, k))"
| step_stop: "tcp_stopping p \<Longrightarrow> interfering env \<Longrightarrow> tcp_step (wg, p, k) (peer_stop_finish env (wg, p, k))"

inductive tcp_steps :: "tcp_sys \<Rightarrow> tcp_sys \<Rightarrow> bool" where
  steps_refl: "tcp_steps x x"
| steps_step: "tcp_steps x y \<Longrightarrow> tcp_step y z \<Longrightarrow> tcp_steps x z"

lemma quiet_bootstrap_worker: "quiet_peer p (snd (wg_tcp_bootstrap_worker wg p))"
  by (simp add: quiet_defs wg_tcp_bootstrap_worker_def Let_def split: option.split)

lemma quiet_promoted:
  "quiet_peer p (p\<lparr>tcp_promotion_connection_id := 0\<rparr>)"
  "quiet_peer p (p\<lparr>wk_promotion := None, tcp_promotion_worker_scheduled := False\<rparr>)"
  by (simp_all add: quiet_defs)

lemma promote_claim_entry:
  "promote_claim now cid st wg = (Some e', wg') \<Longrightarrow>
   \<exists>e\<in>set (tcp_connection_list wg). e_temp_peer e' = e_temp_peer e \<and> e_tcp_socket e' = e_tcp_socket e"
  by (auto simp: promote_claim_def wg_tcp_release_admission_locked_def Let_def find_Some_iff
      split: option.splits if_splits)

lemma promote_safe:
  assumes "promote_ok pe temps (wg, p, k)"
  shows "safe (wg, p, k) (snd (wg_tcp_promote_authenticated_carrier pe cid temps (wg, p, k)))"
proof (cases "promote_claim (pe_now pe) cid (cid < tcp_roaming_connection_id p) wg")
  case (Pair eo wg1)
  have dev: "safe (wg, p, k) (wg1, p, k)" by (simp add: safe_def tcp_inv_def barrier_def)
  show ?thesis
  proof (cases eo)
    case None
    then show ?thesis using dev Pair by (simp add: wg_tcp_promote_authenticated_carrier_def)
  next
    case (Some e)
    obtain i s where e: "e_temp_peer e = Some i" "e_tcp_socket e = Some s" "tcp_wf k (temps i)"
        "apart p (temps i)" "provisional s (temps i)"
      using promote_claim_entry [of "pe_now pe" cid _ wg e wg1] Pair Some assms by (fastforce simp: promote_ok_def)
    obtain ok y t' where pe: "promote_entry pe cid s (temps i) (wg1, p, k) = (ok, y, t')" by (metis prod_cases3)
    have "safe (wg1, p, k) y"
      using promote_entry_ok [OF _ _ _ e(3-5) pe] assms by (auto simp: safe_def promote_ok_def)
    then show ?thesis
      using safe_trans [OF dev] pe e Pair Some by (simp add: wg_tcp_promote_authenticated_carrier_def)
  qed
qed

lemma tcp_step_safe: "tcp_step x y \<Longrightarrow> safe x y"
proof (induction rule: tcp_step.induct)
  case (step_interf x y)
  then show ?case by (simp add: local_safe quiet_local interf_quiet)
next
  case (step_connect c x)
  then show ?case by (cases x) (simp add: connect_safe)
next
  case (step_bootstrap p wg k)
  then show ?case using quiet_peer_local [OF quiet_bootstrap_worker] local_safe by blast
next
  case (step_promote p pe temps wg k)
  let ?p = "p\<lparr>tcp_promotion_connection_id := 0\<rparr>"
  have "promote_ok pe temps (wg, ?p, k)" using step_promote by (simp add: promote_ok_def apart_def owns_def)
  then show ?case
    by (rule safe_trans [OF local_safe [OF quiet_peer_local [OF quiet_promoted(1)]] promote_safe])
next
  case (step_promoted p wg k)
  then show ?case using local_safe [OF quiet_peer_local [OF quiet_promoted(2)]] by simp
next
  case (step_stop p env wg k)
  obtain wg' p' k' where f: "peer_stop_finish env (wg, p, k) = (wg', p', k')" by (metis prod_cases3)
  show ?case
  proof (cases "tcp_inv (wg, p, k)")
    case True
    note sil = stop_finish_silent [OF step_stop(2) True step_stop(1) f]
    then have "no_new_work p p'"
      by (auto simp: silent_def works_none_def no_new_work_def works_def)
    then show ?thesis using sil f by (simp add: safe_def barrier_def silent_def)
  qed (simp add: safe_def)
qed (simp_all add: configured_safe retry_worker_safe outbound_remove_safe inbound_remove_safe)

lemma tcp_steps_inv: "tcp_steps x y \<Longrightarrow> tcp_inv x \<Longrightarrow> tcp_inv y"
  by (induction rule: tcp_steps.induct) (auto dest: tcp_step_safe simp: safe_def)

section \<open>After the stop\<close>

lemma connect_stopping: "tcp_stopping p \<Longrightarrow> snd (wg_tcp_connect c (wg, p, k)) = (wg, p, k)"
  by (simp add: wg_tcp_connect_def connect_claim_def tcp_alive_def Let_def)

lemma configured_stopping:
  assumes env: "interfering env" and stop: "tcp_stopping p"
  shows "quiet (wg, p, k) (wg_socket_set_peer_endpoint_configured env c ep (wg, p, k))"
proof (cases "set_endpoint_locked ep True wg p")
  case None
  then show ?thesis
    by (simp add: wg_socket_set_peer_endpoint_configured_def wg_socket_set_peer_endpoint_internal_def)
next
  case (Some bp)
  obtain b p1 where bp: "bp = (b, p1)" by fastforce
  obtain wg2 p2 k2 where e: "env 0 (wg, p1, k) = (wg2, p2, k2)" by (cases "env 0 (wg, p1, k)")
  have q1: "quiet_peer p p1" using quiet_endpoint [of p wg "Configure ep"] Some bp by simp
  have q2: "quiet (wg, p1, k) (wg2, p2, k2)" by (rule env_quiet [OF env e])
  have st: "tcp_stopping p1" "tcp_stopping p2" using q1 q2 stop by (auto simp: quiet_peer_def)
  have q: "quiet (wg, p, k) (wg2, p2, k2)" by (rule quiet_trans [OF _ q2]) (simp add: q1)
  have "quiet (wg, p, k) (wg2, wg_tcp_peer_request_reconnect wg2 p2, k2)"
    by (rule quiet_trans [OF q]) (simp add: quiet_reconnect wg_tcp_peer_request_reconnect_def)
  then show ?thesis
    using Some bp q q1 connect_stopping [OF st(2)]
    by (simp add: wg_socket_set_peer_endpoint_configured_def wg_socket_set_peer_endpoint_internal_def e)
qed

lemma silent_step:
  assumes "tcp_step x y" "silent (fst (snd x))" "tcp_inv x"
  shows "quiet x y \<or> (\<exists>env. interfering env \<and> y = peer_stop_finish env x)"
  using assms
proof (induction rule: tcp_step.induct)
  case (step_interf x y)
  then show ?case by (simp add: interf_quiet)
next
  case (step_connect c x)
  then show ?case by (cases x) (simp add: connect_stopping silent_def)
next
  case (step_configure env c x ep)
  then show ?case by (cases x) (simp add: configured_stopping silent_def)
qed (auto simp: silent_def works_none_def works_def)

lemma silent_steps:
  assumes "tcp_steps x y" "silent (fst (snd x))" "tcp_inv x"
  shows "silent (fst (snd y)) \<and> (\<forall>s. so_releases (socks (snd (snd y)) s) = so_releases (socks (snd (snd x)) s))"
  using assms
proof (induction rule: tcp_steps.induct)
  case (steps_step x y z)
  obtain wg p k wg' p' k' where yz: "y = (wg, p, k)" "z = (wg', p', k')" by (metis prod_cases3)
  have sil: "silent p" and inv: "tcp_inv (wg, p, k)" using steps_step tcp_steps_inv yz by auto
  have "silent p' \<and> (\<forall>s. so_releases (socks k' s) = so_releases (socks k s))"
    using silent_step [OF steps_step(2)] sil inv
  proof (simp add: yz, elim disjE exE conjE, goal_cases)
    case 1
    then show ?case using quiet_silent [of wg p k wg' p' k'] by (auto simp: quiet_kern_def sock_own_def)
  next
    case (2 env)
    then show ?case
      using stop_finish_silent [of env wg p k wg' p' k'] by (auto simp: silent_def owns_def)
  qed
  then show ?case using steps_step yz by auto
qed simp

section \<open>The outcome of a dial\<close>

text \<open>The socket of an attempt is either the peer's outbound carrier, or released and nobody's.\<close>

definition dial_result :: "sock_id \<Rightarrow> errno option \<Rightarrow> tcp_sys \<Rightarrow> bool" where
  "dial_result s r y \<longleftrightarrow> (case y of (wg, p, k) \<Rightarrow>
     if r = None then outbound_socket p = Some s \<and> tcp_outbound_callbacks_set p \<and> so_releases (socks k s) = 0
     else outbound_socket p = None \<and> \<not> owns p s \<and> so_releases (socks k s) = 1)"

lemma dial_result_quiet: "quiet x y \<Longrightarrow> dial_result s r y = dial_result s r x"
  by (cases x; cases y) (simp add: dial_result_def quiet_peer_def quiet_kern_def peer_own_def sock_own_def owns_def)

lemma inv_quiet: "quiet x y \<Longrightarrow> tcp_inv x \<Longrightarrow> tcp_inv y"
  using local_safe [OF quiet_local] by (simp add: safe_def)

lemma unwind_end:
  assumes env: "interfering env"
    and k5: "k5 = (if so \<noteq> None \<and> \<not> own then sock_release (the so) k4 else k4)"
    and u: "unwind_publish wg4 p4 = (q, p5)" and e6: "env 6 (wg4, p5, k5) = (wg6, p6, k6)"
  shows "quiet (wg4, p4, k5) (wg6, if q then unwind_queue p6 else p6, k6)"
proof -
  have "quiet (wg4, p4, k5) (wg4, p5, k5)" using quiet_unwind(1) [of p4 wg4] u by simp
  also have "quiet \<dots> (wg6, p6, k6)" by (rule env_quiet [OF env e6])
  also have "quiet \<dots> (wg6, if q then unwind_queue p6 else p6, k6)" by (simp add: quiet_unwind)
  finally show ?thesis .
qed

lemma unwind_result:
  assumes env: "interfering env" and inv: "tcp_inv (wg, p, k)"
    and s: "outbound_socket p = Some s \<or> outbound_socket p = None \<and> unused (wg, p, k) s"
  shows "dial_result s (Some e) (wg_tcp_connect_unwind env (Some s) (wg, p, k))"
proof -
  define own where "own \<longleftrightarrow> outbound_socket p = Some s"
  have own': "own \<longleftrightarrow> Some s \<noteq> None \<and> (peer_socket p = Some s \<or> outbound_socket p = Some s)"
    using s inv by (auto simp: own_def unused_def tcp_inv_def tcp_wf_def owns_def)
  define p1 where "p1 = (if own then p\<lparr>tcp_outbound_remove_scheduled := True, tcp_outbound_remove_socket := Some s\<rparr> else p)"
  obtain wg2 p2 k2 where e4: "env 4 (wg, p1, k) = (wg2, p2, k2)" by (cases "env 4 (wg, p1, k)")
  have "quiet (wg, p, k) (wg, p1, k)" by (simp add: p1_def quiet_defs)
  also have "quiet \<dots> (wg2, p2, k2)" by (rule env_quiet [OF env e4])
  finally have q2': "quiet (wg, p, k) (wg2, p2, k2)" .
  have q2: "quiet (wg, p, k) (wg2, wg_tcp_cancel_stream_workers p2, k2)"
    by (rule quiet_trans [OF q2']) (simp add: quiet_unwind)
  obtain r p3 k3 where d: "(if own then detach_and_release (the (Some s)) (wg_tcp_cancel_stream_workers p2, k2)
      else (None, p2, k2)) = (r, p3, k3)" by (metis prod_cases3)
  obtain wg4 p4 k4 where e5: "env 5 (wg2, p3, k3) = (wg4, p4, k4)" by (cases "env 5 (wg2, p3, k3)")
  obtain q p5 where u: "unwind_publish wg4 p4 = (q, p5)" by fastforce
  define k5 where "k5 = (if Some s \<noteq> None \<and> \<not> own then sock_release (the (Some s)) k4 else k4)"
  obtain wg6 p6 k6 where e6: "env 6 (wg4, p5, k5) = (wg6, p6, k6)" by (cases "env 6 (wg4, p5, k5)")
  have "r = None \<and> dial_result s (Some e) (wg4, p4, k5)"
  proof (cases own)
    case True
    have "owns (wg_tcp_cancel_stream_workers p2) s" "inbound_socket (wg_tcp_cancel_stream_workers p2) \<noteq> Some s"
      using q2 True inv by (auto simp: own_def owns_def quiet_peer_def peer_own_def tcp_inv_def tcp_wf_def)
    moreover from this(1) obtain k' where "detach_and_release s (wg_tcp_cancel_stream_workers p2, k2) =
        (None, released s (wg_tcp_cancel_stream_workers p2), k')" "so_releases (socks k' s) = 1"
      using detach_owned [OF inv_quiet [OF q2 inv], of s] by metis
    ultimately have "r = None \<and> dial_result s (Some e) (wg2, p3, k3)"
      using d True by (auto simp: dial_result_def owns_def released_fields)
    then show ?thesis using dial_result_quiet [OF env_quiet [OF env e5]] True by (simp add: k5_def)
  next
    case False
    then have "quiet (wg, p, k) (wg2, p3, k3)" using q2' d by simp
    then have "quiet (wg, p, k) (wg4, p4, k4)" by (rule quiet_trans [OF _ env_quiet [OF env e5]])
    then have "outbound_socket p4 = None" "\<not> owns p4 s" "so_releases (socks k4 s) = 0"
      using s False by (auto simp: own_def unused_def owns_def quiet_peer_def quiet_kern_def peer_own_def sock_own_def)
    then show ?thesis using d False by (simp add: dial_result_def k5_def sock_release_def)
  qed
  moreover have "wg_tcp_connect_unwind env (Some s) (wg, p, k) =
      (if r \<noteq> None then (wg2, p3\<lparr>tcp_connecting := False\<rparr>, k3) else (wg6, if q then unwind_queue p6 else p6, k6))"
    unfolding wg_tcp_connect_unwind_def prod.case Let_def own' [symmetric] p1_def [symmetric] e4 d e5 u
      k5_def [symmetric] e6 by simp
  ultimately show ?thesis
    using dial_result_quiet [OF unwind_end [OF env k5_def u e6]] by simp
qed

lemma unwind_none:
  assumes env: "interfering env"
  shows "quiet (wg, p, k) (wg_tcp_connect_unwind env None (wg, p, k))"
proof -
  obtain wg2 p2 k2 where e4: "env 4 (wg, p, k) = (wg2, p2, k2)" by (cases "env 4 (wg, p, k)")
  obtain wg4 p4 k4 where e5: "env 5 (wg2, p2, k2) = (wg4, p4, k4)" by (cases "env 5 (wg2, p2, k2)")
  obtain q p5 where u: "unwind_publish wg4 p4 = (q, p5)" by fastforce
  obtain wg6 p6 k6 where e6: "env 6 (wg4, p5, k4) = (wg6, p6, k6)" by (cases "env 6 (wg4, p5, k4)")
  have "quiet (wg, p, k) (wg2, p2, k2)" by (rule env_quiet [OF env e4])
  also have "quiet \<dots> (wg4, p4, k4)" by (rule env_quiet [OF env e5])
  also have "quiet \<dots> (wg6, if q then unwind_queue p6 else p6, k6)"
    by (rule unwind_end [OF env, of _ None True k4]) (use u e6 in simp_all)
  finally show ?thesis by (simp add: wg_tcp_connect_unwind_def Let_def e4 e5 u e6)
qed

lemma connect_claimed:
  assumes "connect_claim wg p = Inr p1" "transport wg = WG_TRANSPORT_TCP" "peer_endpoint_set p"
    "ep_family (peer_endpoint p) \<in> {AF_INET, AF_INET6}" "ce_env c 0 (wg, p1, k) = (wg2, p2, k2)"
  shows "wg_tcp_connect c (wg, p, k) =
    (if \<not> (creating_net wg2 \<and> ce_net_ok c) then connect_fail c ENONET None (wg2, p2, k2)
     else case ce_create c of Inl e \<Rightarrow> connect_fail c e None (wg2, p2, k2)
        | Inr s \<Rightarrow> (let k3 = upd_sock s (\<lambda>sk. sk\<lparr>sk_mark := fwmark wg2\<rparr>) k2 in
            case connect_publish s wg2 p2 of
              Inl e \<Rightarrow> connect_fail c e (Some s) (wg2, p2, k3)
            | Inr p3 \<Rightarrow> connect_dial c (peer_endpoint p) s (wg2, p3, k3)))"
  unfolding wg_tcp_connect_def Let_def prod.case using assms by (auto split: sum.split)

lemma end_result:
  assumes env: "interfering (ce_env c)" and inv: "tcp_inv (wg, p, k)"
    and out: "outbound_socket p = Some s" "tcp_outbound_callbacks_set p"
    and r: "connect_end c target s (wg, p, k) = (r, y)"
  shows "dial_result s r y"
proof -
  let ?p1 = "connect_tuple target (so_sk (socks k s)) p"
  have q1: "quiet (wg, p, k) (wg, ?p1, k)" by (simp add: quiet_tuple)
  show ?thesis
  proof (cases "connect_finish (ce_now c) s (so_state (socks k s)) wg ?p1")
    case (Inl e)
    have "outbound_socket ?p1 = Some s" using out by (simp add: connect_tuple_def)
    then have "dial_result s (Some e) (wg_tcp_connect_unwind (ce_env c) (Some s) (wg, ?p1, k))"
      by (intro unwind_result [OF env inv_quiet [OF q1 inv]]) simp
    then show ?thesis using r Inl by (auto simp: connect_end_def connect_fail_def Let_def)
  next
    case (Inr bp)
    obtain b p2 where bp: "bp = (b, p2)" by fastforce
    obtain wg3 p3 k3 where e3: "ce_env c 3 (wg, p2, k) = (wg3, p3, k3)" by (cases "ce_env c 3 (wg, p2, k)")
    note q1
    also have "quiet (wg, ?p1, k) (wg, p2, k)" using quiet_finish [OF Inr [unfolded bp]] by simp
    also have "quiet \<dots> (wg3, p3, k3)" by (rule env_quiet [OF env e3])
    also have "quiet \<dots> (wg3, if b then wg_tcp_queue_carrier_bootstrap s p3 else p3, k3)"
      by (simp add: quiet_bootstrap)
    finally have q: "quiet (wg, p, k) (wg3, if b then wg_tcp_queue_carrier_bootstrap s p3 else p3, k3)" .
    have "dir_ok k p False" using inv by (simp add: tcp_inv_def tcp_wf_def)
    then have "dial_result s None (wg, p, k)" using out by (simp add: dial_result_def dir_ok_def dir_defs)
    then show ?thesis
      using dial_result_quiet [OF q, of s None] r Inr bp e3 by (auto simp: connect_end_def Let_def)
  qed
qed

lemma dial_outcome:
  assumes env: "interfering (ce_env c)" and inv: "tcp_inv (wg, p, k)" and out: "outbound_socket p = Some s"
    and r: "connect_dial c target s (wg, p, k) = (r, y)"
  shows "dial_result s r y"
proof -
  obtain wg1 p1 k1 where e1: "ce_env c 1 (wg, p, k) = (wg1, p1, k1)" by (cases "ce_env c 1 (wg, p, k)")
  obtain r2 p2 k2 where st: "wg_setup_tcp_socket_callbacks (ce_alloc_ok c) (ce_module_ok c) wg1 s False (p1, k1) = (r2, p2, k2)"
    by (metis prod_cases3)
  obtain wg3 p3 k3 where e2: "ce_env c 2 (wg1, p2, kernel_connect c s k2) = (wg3, p3, k3)"
    by (cases "ce_env c 2 (wg1, p2, kernel_connect c s k2)")
  have inv1: "tcp_inv (wg1, p1, k1)" by (rule inv_quiet [OF env_quiet [OF env e1] inv])
  have inv2: "tcp_inv (wg1, p2, k2)" using local_safe [OF setup_local [OF st]] inv1 by (simp add: safe_def)
  have out2: "outbound_socket p2 = Some s"
    using st env_outbound [OF env e1] out by (auto simp: wg_setup_tcp_socket_callbacks_def set_dir_def Let_def split: if_splits)
  have set2: "tcp_outbound_callbacks_set p2" if "r2 = None"
    using st that by (auto simp: wg_setup_tcp_socket_callbacks_def dir_defs Let_def split: if_splits)
  have "quiet (wg1, p2, k2) (wg1, p2, kernel_connect c s k2)"
    by (simp add: quiet_kern_def kernel_connect_def sock_own_def upd_sock_def)
  then have q3: "quiet (wg1, p2, k2) (wg3, p3, k3)" by (rule quiet_trans [OF _ env_quiet [OF env e2]])
  have out3: "outbound_socket p3 = Some s" "r2 = None \<Longrightarrow> tcp_outbound_callbacks_set p3"
    using q3 out2 set2 by (auto simp: quiet_peer_def peer_own_def)
  have fail: "dial_result s (Some e) (wg_tcp_connect_unwind (ce_env c) (Some s) (wg1, p2, k2))"
    "dial_result s (Some e) (wg_tcp_connect_unwind (ce_env c) (Some s) (wg3, p3, k3))" for e
    using unwind_result [OF env inv2] unwind_result [OF env inv_quiet [OF q3 inv2]] out2 out3 by simp_all
  have eq: "(r, y) = (case r2 of Some e \<Rightarrow> connect_fail c e (Some s) (wg1, p2, k2)
       | None \<Rightarrow> if ce_connect c \<noteq> None \<and> ce_connect c \<noteq> Some EINPROGRESS
                 then connect_fail c (the (ce_connect c)) (Some s) (wg3, p3, k3)
                 else connect_end c target s (wg3, p3, k3))"
    unfolding r [symmetric] connect_dial_def e1 prod.case st e2 by (auto split: option.split)
  have "dial_result s r y" if "(r, y) = connect_end c target s (wg3, p3, k3)" "r2 = None"
    by (rule end_result [OF env inv_quiet [OF q3 inv2] out3(1) out3(2) [OF that(2)] that(1) [symmetric]])
  then show ?thesis
    using eq fail by (auto simp: connect_fail_def split: option.splits if_splits)
qed

text \<open>A peer with an endpoint, and a dial of socket 3 that is in progress.\<close>

definition demo_target :: wg_peer where
  "demo_target = (fresh_peer 1)\<lparr>peer_endpoint_set := True, peer_endpoint := Ep4 0x0A000002 51820 0 0\<rparr>"

definition demo_connect :: connect_env where
  "demo_connect = \<lparr>ce_net_ok = True, ce_create = Inr 3, ce_alloc_ok = True, ce_module_ok = True,
     ce_connect = Some EINPROGRESS, ce_tuple = so_sk demo_sock, ce_state = TCP_SYN_SENT, ce_now = 1,
     ce_env = (\<lambda>_ x. x)\<rparr>"

lemma demo_connect_ok:
  "connect_ok demo_connect (demo_dev, demo_target, demo_kern)" "tcp_inv (demo_dev, demo_target, demo_kern)"
  "tcp_inv (demo_dev, demo_dialled, demo_kern)"
  by (auto simp: connect_ok_def demo_connect_def unused_def sock_own_def owns_def tcp_inv_def tcp_wf_def dir_ok_def
      dir_defs sock_detached_def demo_target_def demo_defs)

section \<open>Properties\<close>

text \<open>C23. Ownership is consistent in every reachable state: whatever sequence of callbacks,
  dials, endpoint changes, removals, promotions and stops runs on a peer, each of its
  sockets stays wired to exactly the wrapper the peer records for its direction, and no
  socket is ever released twice.\<close>

theorem carriers_stay_consistent:
  assumes "tcp_inv x" "tcp_steps x y"
  shows "tcp_inv y"
  using tcp_steps_inv [OF assms(2,1)] .

theorem carriers_stay_consistent_witness:
  "tcp_inv (snd (wg_tcp_connect demo_connect (demo_dev, demo_target, demo_kern)))"
  by (rule carriers_stay_consistent [OF demo_connect_ok(2)])
    (rule steps_step [OF steps_refl step_connect [OF demo_connect_ok(1)]])



text \<open>C26. A removal takes exactly the socket it was claimed for: both removal workers release
  the claimed socket, once, if the peer still has it in that direction; a socket that
  replaced it meanwhile, and the socket of the other direction, stay with the peer and
  are not released.\<close>

theorem removal_is_exact:
  assumes env: "interfering env" and inv: "tcp_inv (wg, p, k)"
    and r: "remove_claimed env b (wg, p, k) = (clean, failed, wg', p', k')"
    and so: "so = (if b then tcp_inbound_remove_socket p else tcp_outbound_remove_socket p)"
    and own: "owns p s"
  shows "\<not> failed \<and> clean = (dir_socket b p = so) \<and>
    (if clean \<and> so = Some s then \<not> owns p' s \<and> so_releases (socks k' s) = 1
     else owns p' s \<and> so_releases (socks k' s) = so_releases (socks k s))"
proof -
  define p0 where "p0 = (if b then p else p\<lparr>tcp_retry_scheduled := False\<rparr>)"
  obtain wg1 p1 k1 where e: "env 1 (wg, p0, k) = (wg1, p1, k1)" by (cases "env 1 (wg, p0, k)")
  define p2 where "p2 = (if dir_socket b p = so \<and> so \<noteq> None \<and> peer_socket p = so
    then wg_tcp_cancel_stream_workers p1 else p1)"
  have "quiet (wg, p, k) (wg, p0, k)" by (simp add: p0_def quiet_misc)
  also have "quiet \<dots> (wg1, p1, k1)" by (rule env_quiet [OF env e])
  also have "quiet \<dots> (wg1, p2, k1)" by (simp add: p2_def quiet_unwind)
  finally have q: "quiet (wg, p, k) (wg1, p2, k1)" .
  then have inv2: "tcp_inv (wg1, p2, k1)" using inv local_safe [OF quiet_local] by (metis safe_def)
  have same: "dir_socket b p2 = dir_socket b p" "owns p2 t = owns p t"
    "so_releases (socks k1 t) = so_releases (socks k t)" for t
    using q by (auto simp: quiet_peer_def quiet_kern_def peer_own_def sock_own_def dir_socket_def owns_def)
  have r': "(clean, failed, wg', p', k') = (case (if dir_socket b p = so then so else None) of
      None \<Rightarrow> (dir_socket b p = so, False, wg1, p2, k1)
    | Some s \<Rightarrow> (case detach_and_release s (p2, k1) of (ret, p3, k3) \<Rightarrow> (True, ret \<noteq> None, wg1, p3, k3)))"
    using r unfolding remove_claimed_def prod.case Let_def so [symmetric] p0_def [symmetric] e p2_def [symmetric]
    by (rule sym)
  show ?thesis
  proof (cases "dir_socket b p = so \<and> so \<noteq> None")
    case True
    then obtain t where t: "so = Some t" by blast
    then have "owns p2 t" using True same(2) by (auto simp: owns_def dir_socket_def split: if_splits)
    then obtain k3 where d: "detach_and_release t (p2, k1) = (None, released t p2, k3)"
        "tcp_inv (wg1, released t p2, k3)" "so_releases (socks k3 t) = 1" "\<And>u. u \<noteq> t \<Longrightarrow> socks k3 u = socks k1 u"
      using detach_owned [OF inv2] by metis
    have "inbound_socket p2 = outbound_socket p2 \<Longrightarrow> inbound_socket p2 = None"
      using inv2 by (auto simp: tcp_inv_def tcp_wf_def)
    then have "owns (released t p2) s = (s \<noteq> t)"
      using \<open>owns p2 t\<close> own same(2) [of s] by (auto simp: owns_def released_fields)
    then show ?thesis using r' True t d same(3) [of s] by auto
  next
    case False
    then show ?thesis using r' own same by (auto split: if_splits)
  qed
qed

theorem removal_is_exact_witness:
  "\<exists>wg p k. remove_claimed (\<lambda>_ x. x) False (demo_dev, demo_dialled\<lparr>tcp_outbound_remove_socket := Some 3\<rparr>, demo_kern) =
     (True, False, wg, p, k) \<and> \<not> owns p 3 \<and> so_releases (socks k 3) = 1"
proof -
  let ?p = "demo_dialled\<lparr>tcp_outbound_remove_socket := Some 3\<rparr>"
  obtain c f wg p k where r: "remove_claimed (\<lambda>_ x. x) False (demo_dev, ?p, demo_kern) = (c, f, wg, p, k)"
    by (metis prod_cases5)
  have "tcp_inv (demo_dev, ?p, demo_kern)"
    by (rule inv_quiet [OF _ demo_connect_ok(3)]) (simp add: quiet_defs)
  moreover have "owns ?p 3" "dir_socket False ?p = Some 3" by (simp_all add: owns_def dir_socket_def demo_dialled_def)
  ultimately have "\<not> f \<and> c \<and> \<not> owns p 3 \<and> so_releases (socks k 3) = 1"
    using removal_is_exact [OF interfering_id _ r refl, of 3] by simp
  then show ?thesis using r by simp
qed

text \<open>C25. A dial never leaks its socket and never half-installs it: an attempt that is not
  refused outright either succeeds, and the socket the kernel made is the peer's
  outbound carrier with the callbacks installed, or fails, and the peer has no outbound
  socket while the one that was made, if any, is released exactly once and belongs to
  nobody.\<close>

theorem connect_outcome:
  assumes "connect_ok c (wg, p, k)" "tcp_inv (wg, p, k)"
    and "wg_tcp_connect c (wg, p, k) = (r, wg', p', k')" "connect_claim wg p = Inr p1"
    and "transport wg = WG_TRANSPORT_TCP" "peer_endpoint_set p" "ep_family (peer_endpoint p) \<in> {AF_INET, AF_INET6}"
  shows "case ce_create c of
      Inl e \<Rightarrow> r \<noteq> None \<and> outbound_socket p' = None
    | Inr s \<Rightarrow> dial_result s r (wg', p', k') \<or> r = Some ENONET \<and> outbound_socket p' = None \<and> unused (wg', p', k') s"
proof -
  have env: "interfering (ce_env c)" and un: "\<And>s. ce_create c = Inr s \<Longrightarrow> unused (wg, p, k) s"
    using assms(1) by (simp_all add: connect_ok_def)
  obtain wg2 p2 k2 where e0: "ce_env c 0 (wg, p1, k) = (wg2, p2, k2)" by (cases "ce_env c 0 (wg, p1, k)")
  have l2: "local_step (wg, p, k) (wg2, p2, k2)"
    using claim_local [OF assms(4)] env_localD [OF env e0] by (rule local_trans)
  have none: "outbound_socket p2 = None"
    using env_outbound [OF env e0] assms(4) by (auto simp: connect_claim_def split: if_splits)
  have inv2: "tcp_inv (wg2, p2, k2)" and un2: "\<And>s. ce_create c = Inr s \<Longrightarrow> unused (wg2, p2, k2) s"
    using l2 un assms(2) by (auto simp: local_step_def safe_def)
  let ?k3 = "\<lambda>s. upd_sock s (\<lambda>sk. sk\<lparr>sk_mark := fwmark wg2\<rparr>) k2"
  note eq = connect_claimed [OF assms(4-7) e0, unfolded assms(3)]
  have fail: "quiet (wg2, p2, k2) (wg_tcp_connect_unwind (ce_env c) None (wg2, p2, k2))"
    by (rule unwind_none [OF env])
  have q: "outbound_socket p' = None \<and> (\<forall>s. ce_create c = Inr s \<longrightarrow> unused (wg', p', k') s)"
    if "(wg', p', k') = wg_tcp_connect_unwind (ce_env c) None (wg2, p2, k2)"
    using fail [folded that] none un2 by (auto simp: quiet_peer_def peer_own_def unused_def owns_def quiet_kern_def)
  show ?thesis
  proof (cases "ce_create c")
    case (Inl e)
    then show ?thesis using eq q by (auto simp: connect_fail_def split: if_splits)
  next
    case (Inr s)
    have un3: "unused (wg2, p2, ?k3 s) s" using un2 [OF Inr] by (simp add: unused_def sock_own_def)
    have inv3: "tcp_inv (wg2, p2, ?k3 s)"
      by (rule inv_quiet [OF _ inv2]) (simp add: quiet_kern_def sock_own_def)
    have late: "dial_result s (Some e) (wg_tcp_connect_unwind (ce_env c) (Some s) (wg2, p2, ?k3 s))" for e
      by (rule unwind_result [OF env inv3]) (simp add: none un3)
    have dial: "dial_result s r (wg', p', k')"
      if "connect_publish s wg2 p2 = Inr p3" "connect_dial c (peer_endpoint p) s (wg2, p3, ?k3 s) = (r, wg', p', k')" for p3
    proof (rule dial_outcome [OF env _ _ that(2)])
      show "tcp_inv (wg2, p3, ?k3 s)"
        using publish_safe [OF that(1)] un2 [OF Inr] inv2 by (auto simp: safe_def)
    qed (use that(1) in \<open>auto simp: connect_publish_def split: if_splits\<close>)
    show ?thesis using eq Inr late dial q by (auto simp: connect_fail_def Let_def split: if_splits sum.splits)
  qed
qed

theorem connect_outcome_witness:
  "\<exists>wg p k. wg_tcp_connect demo_connect (demo_dev, demo_target, demo_kern) = (None, wg, p, k) \<and>
     dial_result 3 None (wg, p, k)"
proof -
  have "fst (wg_tcp_connect demo_connect (demo_dev, demo_target, demo_kern)) = None"
    by (simp add: wg_tcp_connect_def connect_claim_def connect_publish_def connect_dial_def connect_end_def
        connect_tuple_def connect_finish_def kernel_connect_def wg_setup_tcp_socket_callbacks_def dir_defs
        tcp_alive_def Let_def demo_connect_def demo_target_def demo_defs upd_sock_def)
  then obtain wg p k where r: "wg_tcp_connect demo_connect (demo_dev, demo_target, demo_kern) = (None, wg, p, k)"
    by (metis prod.collapse)
  obtain p1 where "connect_claim demo_dev demo_target = Inr p1"
    by (simp add: connect_claim_def tcp_alive_def demo_target_def demo_defs)
  from connect_outcome [OF demo_connect_ok(1,2) r this] show ?thesis
    using r by (simp add: demo_connect_def demo_target_def demo_defs)
qed

end
