(* ===== verification/Prev_Queue.thy ===== *)
theory Prev_Queue
  imports Tcp_Frame
begin

text \<open>
  The multi-producer single-consumer queue of a peer (\<open>wg_prev_queue_*\<close> in
  kernel/queueing.c and kernel/queueing.h). The buffers are linked through their
  \<open>prev\<close> fields, with the stub node embedded in the queue. Producers swap the head and
  then write the link, so that the consumer may meet a gap; the atomic actions of
  both sides are separate definitions here, the functions of the source are their
  compositions, and the step relation \<open>pq_step\<close> interleaves them.
\<close>

section \<open>The queue and its atomic actions\<close>

datatype qnode = Stub | Skb_node nat

record prev_queue =
  pq_head :: qnode
  pq_tail :: qnode
  pq_peeked :: "nat option"
  pq_next :: "qnode \<Rightarrow> qnode option"
  pq_count :: nat

definition wg_prev_queue_init :: "(qnode \<Rightarrow> qnode option) \<Rightarrow> prev_queue" where
  "wg_prev_queue_init nx =
     \<lparr>pq_head = Stub, pq_tail = Stub, pq_peeked = None, pq_next = nx(Stub := None), pq_count = 0\<rparr>"

text \<open>\<open>WRITE_ONCE(NEXT(skb), NULL)\<close> and the exchange of the head, which yields the old one.\<close>

definition pq_swap :: "qnode \<Rightarrow> prev_queue \<Rightarrow> qnode \<times> prev_queue" where
  "pq_swap n q = (pq_head q, q\<lparr>pq_next := (pq_next q)(n := None), pq_head := n\<rparr>)"

definition pq_link :: "qnode \<Rightarrow> qnode \<Rightarrow> prev_queue \<Rightarrow> prev_queue" where
  "pq_link prev n q = q\<lparr>pq_next := (pq_next q)(prev := Some n)\<rparr>"

definition pq_enqueue_node :: "qnode \<Rightarrow> prev_queue \<Rightarrow> prev_queue" where
  "pq_enqueue_node n q = (case pq_swap n q of (prev, q1) \<Rightarrow> pq_link prev n q1)"

text \<open>\<open>atomic_add_unless(&queue->count, 1, MAX_QUEUED_PACKETS)\<close>.\<close>

definition pq_reserve :: "prev_queue \<Rightarrow> prev_queue option" where
  "pq_reserve q =
     (if pq_count q = MAX_QUEUED_PACKETS then None else Some (q\<lparr>pq_count := Suc (pq_count q)\<rparr>))"

definition wg_prev_queue_enqueue :: "nat \<Rightarrow> prev_queue \<Rightarrow> bool \<times> prev_queue" where
  "wg_prev_queue_enqueue skb q =
     (case pq_reserve q of
        None \<Rightarrow> (False, q)
      | Some q1 \<Rightarrow> (True, pq_enqueue_node (Skb_node skb) q1))"

text \<open>
  The consumer up to its first answer: either it is done, or it has found a node with no
  link behind it and compares it with the head; if it is the head, the stub goes in.
\<close>

datatype front = Done "nat option" | Check qnode

definition pq_take :: "qnode \<Rightarrow> qnode \<Rightarrow> prev_queue \<Rightarrow> nat option \<times> prev_queue" where
  "pq_take t next q =
     ((case t of Stub \<Rightarrow> None | Skb_node n \<Rightarrow> Some n), q\<lparr>pq_tail := next, pq_count := pq_count q - 1\<rparr>)"

definition pq_settle :: "qnode \<Rightarrow> prev_queue \<Rightarrow> front \<times> prev_queue" where
  "pq_settle t q =
     (case pq_next q t of
        Some next \<Rightarrow> (case pq_take t next q of (r, q') \<Rightarrow> (Done r, q'))
      | None \<Rightarrow> (Check t, q))"

definition pq_front :: "prev_queue \<Rightarrow> front \<times> prev_queue" where
  "pq_front q =
     (if pq_tail q = Stub then
        (case pq_next q Stub of
           None \<Rightarrow> (Done None, q)
         | Some next \<Rightarrow> pq_settle next (q\<lparr>pq_tail := next\<rparr>))
      else pq_settle (pq_tail q) q)"

text \<open>The consumer after the stub is in: take the node if its link is there.\<close>

definition pq_back :: "qnode \<Rightarrow> prev_queue \<Rightarrow> nat option \<times> prev_queue" where
  "pq_back t q =
     (case pq_next q t of Some next \<Rightarrow> pq_take t next q | None \<Rightarrow> (None, q))"

definition wg_prev_queue_dequeue :: "prev_queue \<Rightarrow> nat option \<times> prev_queue" where
  "wg_prev_queue_dequeue q =
     (case pq_front q of
        (Done r, q1) \<Rightarrow> (r, q1)
      | (Check t, q1) \<Rightarrow>
          if t \<noteq> pq_head q1 then (None, q1) else pq_back t (pq_enqueue_node Stub q1))"

definition wg_prev_queue_peek :: "prev_queue \<Rightarrow> nat option \<times> prev_queue" where
  "wg_prev_queue_peek q =
     (if pq_peeked q \<noteq> None then (pq_peeked q, q)
      else (case wg_prev_queue_dequeue q of (r, q1) \<Rightarrow> (r, q1\<lparr>pq_peeked := r\<rparr>)))"

definition wg_prev_queue_drop_peeked :: "prev_queue \<Rightarrow> prev_queue" where
  "wg_prev_queue_drop_peeked q = q\<lparr>pq_peeked := None\<rparr>"

section \<open>The linked representation\<close>

text \<open>
  The nodes from tail to head, each followed by the link in memory or by the one that a
  producer has still to write (\<open>pend\<close>).
\<close>

fun chain :: "(qnode \<Rightarrow> qnode option) \<Rightarrow> (qnode \<Rightarrow> qnode option) \<Rightarrow> qnode list \<Rightarrow> bool" where
  "chain nx pend [] = False"
| "chain nx pend [x] = (nx x = None \<and> pend x = None)"
| "chain nx pend (x # y # zs) =
     ((nx x = Some y \<and> pend x = None \<or> nx x = None \<and> pend x = Some y) \<and> chain nx pend (y # zs))"

fun skbs :: "qnode list \<Rightarrow> nat list" where
  "skbs [] = []"
| "skbs (Stub # ns) = skbs ns"
| "skbs (Skb_node n # ns) = n # skbs ns"

definition pq_rep :: "prev_queue \<Rightarrow> (qnode \<Rightarrow> qnode option) \<Rightarrow> qnode list \<Rightarrow> bool" where
  "pq_rep q pend ns \<longleftrightarrow>
     ns \<noteq> [] \<and> distinct ns \<and> hd ns = pq_tail q \<and> last ns = pq_head q \<and>
     chain (pq_next q) pend ns \<and> (\<forall>n. n \<notin> set ns \<longrightarrow> pend n = None)"

lemma skbs_append [simp]: "skbs (ns @ ms) = skbs ns @ skbs ms"
  by (induction ns rule: skbs.induct) auto

lemma set_skbs: "set (skbs ns) = {n. Skb_node n \<in> set ns}"
  by (induction ns rule: skbs.induct) auto

lemma chain_cong:
  "(\<And>x. x \<in> set ns \<Longrightarrow> nx x = nx' x \<and> pend x = pend' x) \<Longrightarrow> chain nx pend ns = chain nx' pend' ns"
  by (induction nx pend ns rule: chain.induct) auto

lemma chain_last: "chain nx pend ns \<Longrightarrow> nx (last ns) = None \<and> pend (last ns) = None"
  by (induction nx pend ns rule: chain.induct) auto

text \<open>A node appended behind the last one, with its link still to be written.\<close>

lemma chain_append:
  "chain nx pend ns \<Longrightarrow> distinct ns \<Longrightarrow> n \<notin> set ns \<Longrightarrow> pend n = None \<Longrightarrow>
   chain (nx(n := None)) (pend(last ns := Some n)) (ns @ [n])"
proof (induction nx pend ns rule: chain.induct)
  case (3 nx pend x y zs)
  have IH: "chain (nx(n := None)) (pend(last (y # zs) := Some n)) ((y # zs) @ [n])"
    using "3.prems" by (intro "3.IH") auto
  have ne: "x \<noteq> last (y # zs)" "x \<noteq> n"
    using "3.prems"(2,3) last_in_set [of "y # zs"] by (metis distinct.simps(2) list.distinct(1), auto)
  have "nx x = Some y \<and> pend x = None \<or> nx x = None \<and> pend x = Some y" using "3.prems"(1) by simp
  with ne have "(nx(n := None)) x = Some y \<and> (pend(last (x # y # zs) := Some n)) x = None \<or>
    (nx(n := None)) x = None \<and> (pend(last (x # y # zs) := Some n)) x = Some y" by simp
  with IH show ?case
    by (simp only: append_Cons chain.simps(3) last.simps list.distinct if_False simp_thms)
qed simp_all

text \<open>A producer writes its link.\<close>

lemma chain_link:
  "chain nx pend ns \<Longrightarrow> distinct ns \<Longrightarrow> pend x = Some y \<Longrightarrow> x \<in> set ns \<Longrightarrow>
   chain (nx(x := Some y)) (pend(x := None)) ns"
proof (induction nx pend ns rule: chain.induct)
  case (3 nx pend a b zs)
  show ?case
  proof (cases "x = a")
    case True
    with 3 have "chain (nx(x := Some y)) (pend(x := None)) (b # zs) = chain nx pend (b # zs)"
      by (intro chain_cong) auto
    with True 3 show ?thesis by (auto simp: fun_upd_def)
  next
    case False
    with 3 show ?thesis by (simp add: fun_upd_def)
  qed
qed simp_all

lemma rep_swap:
  assumes "pq_rep q pend ns" "n \<notin> set ns" "pq_swap n q = (prev, q')"
  shows "pq_rep q' (pend(prev := Some n)) (ns @ [n]) \<and> prev = last ns \<and> pend prev = None"
proof -
  have "prev = last ns" "pend n = None" using assms by (auto simp: pq_swap_def pq_rep_def)
  moreover have "last ns \<in> set ns" 
    using assms(1) last_in_set [of ns] unfolding pq_rep_def by blast
  ultimately show ?thesis
    using assms chain_append [of "pq_next q" pend ns n] chain_last [of "pq_next q" pend ns]
    by (auto simp: pq_swap_def pq_rep_def hd_append)
qed

lemma rep_link:
  assumes "pq_rep q pend ns" "pend prev = Some n"
  shows "pq_rep (pq_link prev n q) (pend(prev := None)) ns"
proof -
  have "prev \<in> set ns" using assms by (auto simp: pq_rep_def)
  then show ?thesis
    using assms chain_link [of "pq_next q" pend ns prev n] by (simp add: pq_link_def pq_rep_def)
qed

lemma rep_enqueue_node:
  assumes "pq_rep q pend ns" "n \<notin> set ns"
  shows "pq_rep (pq_enqueue_node n q) pend (ns @ [n])"
proof -
  obtain prev q1 where s: "pq_swap n q = (prev, q1)" by fastforce
  from rep_swap [OF assms s] have r: "pq_rep q1 (pend(prev := Some n)) (ns @ [n])" "pend prev = None" by auto
  have "(pend(prev := Some n))(prev := None) = pend" using r(2) by auto
  with rep_link [OF r(1), of prev n] s show ?thesis by (simp add: pq_enqueue_node_def)
qed

lemma rep_advance:
  assumes "pq_rep q pend (x # y # zs)"
  shows "pq_next q x = Some y \<and> pq_rep (q\<lparr>pq_tail := y\<rparr>) pend (y # zs) \<or>
    pq_next q x = None \<and> pend x = Some y"
proof (cases "pend x")
  case None
  then have "n \<notin> set (y # zs) \<Longrightarrow> pend n = None" for n
    using assms by (cases "n = x") (auto simp: pq_rep_def)
  with None assms show ?thesis by (auto simp: pq_rep_def)
qed (use assms in \<open>auto simp: pq_rep_def\<close>)

lemma rep_count [simp]: "pq_rep (q\<lparr>pq_count := c\<rparr>) pend ns = pq_rep q pend ns"
  "pq_rep (q\<lparr>pq_peeked := v\<rparr>) pend ns = pq_rep q pend ns"
  by (simp_all add: pq_rep_def)

lemma rep_take:
  assumes "pq_rep q pend ns" "pq_tail q = Skb_node n" "pq_next q (Skb_node n) = Some m"
    "pq_take (Skb_node n) m q = (r, q')"
  obtains zs where "ns = Skb_node n # m # zs" "r = Some n" "pq_rep q' pend (m # zs)"
    "pq_count q' = pq_count q - 1" "pq_peeked q' = pq_peeked q"
proof -
  obtain x ms where ns: "ns = x # ms" "x = Skb_node n" using assms(1,2) by (cases ns) (auto simp: pq_rep_def)
  moreover obtain zs where "ms = m # zs"
    using assms(1,3) ns by (cases ms) (auto simp: pq_rep_def)
  moreover have "pq_rep q' pend (m # zs)"
    using rep_advance [of q pend x m zs] assms ns \<open>ms = m # zs\<close> by (auto simp: pq_take_def)
  ultimately show thesis using assms(4) that by (auto simp: pq_take_def)
qed

text \<open>What the first part of a dequeue does, whatever links are outstanding.\<close>

lemma front_cases:
  assumes "pq_rep q pend ns" "pq_front q = (f, q')"
  obtains (none) "f = Done None" "q' = q" "pq_tail q = Stub" "pq_next q Stub = None"
  | (took) n ms where "f = Done (Some n)" "pq_rep q' pend ms" "skbs ns = n # skbs ms"
      "pq_count q' = pq_count q - 1" "pq_peeked q' = pq_peeked q"
  | (check) t ms where "f = Check t" "t = pq_tail q'" "t \<noteq> Stub" "pq_rep q' pend ms" "skbs ms = skbs ns"
      "pq_count q' = pq_count q" "pq_peeked q' = pq_peeked q" "pq_next q' t = None"
proof -
  have settle: thesis
    if rep: "pq_rep p pend ms" "pq_tail p = Skb_node n" and p: "pq_count p = pq_count q" "pq_peeked p = pq_peeked q"
      and same: "skbs ms = skbs ns" and f: "pq_settle (Skb_node n) p = (f, q')" for p ms n
  proof (cases "pq_next p (Skb_node n)")
    case None
    with f show thesis using rep p same by (intro check [of "Skb_node n" ms]) (auto simp: pq_settle_def)
  next
    case (Some m)
    obtain r where t: "pq_take (Skb_node n) m p = (r, q')" "f = Done r"
      using f Some by (auto simp: pq_settle_def split: prod.splits)
    from rep_take [OF rep Some t(1)] t(2) p same show thesis by (metis skbs.simps(3) took)
  qed
  show thesis
  proof (cases "pq_tail q")
    case Stub
    show thesis
    proof (cases "pq_next q Stub")
      case None
      with Stub assms(2) show thesis by (intro none) (auto simp: pq_front_def)
    next
      case (Some m)
      obtain zs where ns: "ns = Stub # m # zs"
        using assms(1) Stub Some by (cases "(pq_next q, pend, ns)" rule: chain.cases) (auto simp: pq_rep_def)
      with rep_advance [of q pend Stub m zs] assms(1) Some have "pq_rep (q\<lparr>pq_tail := m\<rparr>) pend (m # zs)" by auto
      moreover obtain n where "m = Skb_node n"
        using assms(1) ns by (cases m) (auto simp: pq_rep_def)
      ultimately show thesis
        using assms(2) Stub Some ns by (intro settle [of "q\<lparr>pq_tail := m\<rparr>" "m # zs" n]) (auto simp: pq_front_def)
    qed
  next
    case (Skb_node n)
    with assms show thesis by (intro settle [of q ns n]) (auto simp: pq_front_def)
  qed
qed

lemma back_cases:
  assumes "pq_rep q pend ns" "t = pq_tail q" "t \<noteq> Stub" "pq_back t q = (r, q')"
  obtains (none) "r = None" "q' = q" "pq_next q t = None"
  | (took) n ms where "r = Some n" "pq_rep q' pend ms" "skbs ns = n # skbs ms"
      "pq_count q' = pq_count q - 1" "pq_peeked q' = pq_peeked q"
proof (cases "pq_next q t")
  case None
  with assms(4) show thesis by (intro none) (auto simp: pq_back_def)
next
  case (Some m)
  obtain n where "t = Skb_node n" using assms(3) by (cases t) auto
  with rep_take [OF assms(1), of n m r q'] Some assms(2,4) show thesis
    by (metis option.simps(5) pq_back_def skbs.simps(3) took)
qed

section \<open>The sequential contract\<close>

text \<open>What a user of a bounded queue relies on, and what follows from it.\<close>

fun feed :: "('a \<Rightarrow> 'q \<Rightarrow> bool \<times> 'q) \<Rightarrow> 'a list \<Rightarrow> 'q \<Rightarrow> bool list \<times> 'q" where
  "feed enq [] q = ([], q)"
| "feed enq (x # xs) q =
     (case enq x q of (ok, q1) \<Rightarrow> (case feed enq xs q1 of (oks, q2) \<Rightarrow> (ok # oks, q2)))"

fun drain :: "('q \<Rightarrow> 'a option \<times> 'q) \<Rightarrow> nat \<Rightarrow> 'q \<Rightarrow> 'a option list \<times> 'q" where
  "drain deq 0 q = ([], q)"
| "drain deq (Suc n) q =
     (case deq q of (r, q1) \<Rightarrow> (case drain deq n q1 of (rs, q2) \<Rightarrow> (r # rs, q2)))"

locale bounded_fifo =
  fixes rep :: "'q \<Rightarrow> 'a list \<Rightarrow> bool"
    and enq :: "'a \<Rightarrow> 'q \<Rightarrow> bool \<times> 'q"
    and deq :: "'q \<Rightarrow> 'a option \<times> 'q"
    and cap :: nat
  assumes enq_full: "rep q xs \<Longrightarrow> length xs = cap \<Longrightarrow> enq x q = (False, q)"
    and enq_room: "rep q xs \<Longrightarrow> length xs < cap \<Longrightarrow> x \<notin> set xs \<Longrightarrow>
      \<exists>q'. enq x q = (True, q') \<and> rep q' (xs @ [x])"
    and deq_empty: "rep q [] \<Longrightarrow> \<exists>q'. deq q = (None, q') \<and> rep q' []"
    and deq_first: "rep q (x # xs) \<Longrightarrow> \<exists>q'. deq q = (Some x, q') \<and> rep q' xs"
begin

lemma feed_room:
  "rep q xs \<Longrightarrow> distinct (xs @ ys) \<Longrightarrow> length xs + length ys \<le> cap \<Longrightarrow>
   \<exists>q'. feed enq ys q = (replicate (length ys) True, q') \<and> rep q' (xs @ ys)"
proof (induction ys arbitrary: xs q)
  case (Cons y ys)
  then obtain q1 where "enq y q = (True, q1)" "rep q1 (xs @ [y])" using enq_room [of q xs y] by auto
  with Cons.IH [of q1 "xs @ [y]"] Cons.prems show ?case by fastforce
qed auto

lemma feed_full:
  "rep q xs \<Longrightarrow> length xs = cap \<Longrightarrow> feed enq ys q = (replicate (length ys) False, q)"
  by (induction ys) (simp_all add: enq_full)

lemma feed_append:
  "feed enq (xs @ ys) q =
     (case feed enq xs q of (a, q1) \<Rightarrow> (case feed enq ys q1 of (b, q2) \<Rightarrow> (a @ b, q2)))"
  by (induction xs arbitrary: q) (auto split: prod.split)

lemma drain_rep:
  "rep q xs \<Longrightarrow>
   \<exists>q'. drain deq n q = (map Some (take n xs) @ replicate (n - length xs) None, q') \<and> rep q' (drop n xs)"
proof (induction n arbitrary: q xs)
  case (Suc n)
  show ?case
  proof (cases xs)
    case Nil
    with deq_empty [of q] Suc.prems obtain q1 where "deq q = (None, q1)" "rep q1 []" by auto
    with Suc.IH [of q1 "[]"] Nil show ?thesis by auto
  next
    case (Cons x ys)
    with deq_first [of q x ys] Suc.prems obtain q1 where "deq q = (Some x, q1)" "rep q1 ys" by auto
    with Suc.IH [of q1 ys] Cons show ?thesis by auto
  qed
qed auto

text \<open>A burst into an empty queue: what fits comes out in order, the rest is refused.\<close>

lemma burst:
  assumes "rep q []" "distinct xs" "feed enq xs q = (oks, q1)" "drain deq n q1 = (rs, q2)"
  shows "oks = replicate (min cap (length xs)) True @ replicate (length xs - cap) False \<and>
    rs = map Some (take n (take cap xs)) @ replicate (n - min cap (length xs)) None"
proof -
  obtain q' where fit: "feed enq (take cap xs) q = (replicate (min cap (length xs)) True, q')"
      "rep q' (take cap xs)"
    using feed_room [of q "[]" "take cap xs"] assms(1,2) by (auto simp: min.commute)
  have rest: "feed enq (drop cap xs) q' = (replicate (length xs - cap) False, q')"
  proof (cases "length xs \<le> cap")
    case False
    then show ?thesis using feed_full [OF fit(2)] by simp
  qed simp
  have "feed enq xs q = (replicate (min cap (length xs)) True @ replicate (length xs - cap) False, q')"
    using feed_append [of "take cap xs" "drop cap xs" q] fit(1) rest by simp
  with assms(3,4) drain_rep [OF fit(2), of n] show ?thesis by (auto simp: min.commute)
qed

end

definition pq_seq :: "prev_queue \<Rightarrow> nat list \<Rightarrow> bool" where
  "pq_seq q xs \<longleftrightarrow> (\<exists>ns. pq_rep q (\<lambda>_. None) ns \<and> skbs ns = xs) \<and> pq_count q = length xs"

lemma init_seq: "pq_seq (wg_prev_queue_init nx) []"
  unfolding pq_seq_def wg_prev_queue_init_def pq_rep_def
  by (auto intro!: exI [of _ "[Stub]"])

lemma seq_head: "pq_rep q (\<lambda>_. None) ns \<Longrightarrow> pq_next q t = None \<Longrightarrow> t \<in> set ns \<Longrightarrow> t = pq_head q"
proof -
  have "chain nx (\<lambda>_. None) ns \<Longrightarrow> nx t = None \<Longrightarrow> t \<in> set ns \<Longrightarrow> t = last ns" for nx
    by (induction nx "\<lambda>_ :: qnode. None :: qnode option" ns rule: chain.induct) auto
  then show "pq_rep q (\<lambda>_. None) ns \<Longrightarrow> pq_next q t = None \<Longrightarrow> t \<in> set ns \<Longrightarrow> t = pq_head q"
    by (auto simp: pq_rep_def)
qed

lemma seq_enqueue:
  assumes "pq_seq q xs" "length xs < MAX_QUEUED_PACKETS" "x \<notin> set xs"
  shows "\<exists>q'. wg_prev_queue_enqueue x q = (True, q') \<and> pq_seq q' (xs @ [x])"
proof -
  obtain ns where ns: "pq_rep q (\<lambda>_. None) ns" "skbs ns = xs" using assms(1) by (auto simp: pq_seq_def)
  let ?q = "q\<lparr>pq_count := Suc (pq_count q)\<rparr>"
  have "pq_rep (pq_enqueue_node (Skb_node x) ?q) (\<lambda>_. None) (ns @ [Skb_node x])"
    by (rule rep_enqueue_node) (use ns assms(3) in \<open>auto simp: set_skbs\<close>)
  moreover have "pq_count (pq_enqueue_node (Skb_node x) ?q) = Suc (length xs)"
    using assms(1) by (simp add: pq_enqueue_node_def pq_swap_def pq_link_def pq_seq_def)
  ultimately have "pq_seq (pq_enqueue_node (Skb_node x) ?q) (xs @ [x])"
    unfolding pq_seq_def using ns(2) by (auto intro!: exI [of _ "ns @ [Skb_node x]"])
  then show ?thesis
    using assms(1,2) by (auto simp: wg_prev_queue_enqueue_def pq_reserve_def pq_seq_def)
qed

lemma rep_single: "pq_rep q pend ns \<Longrightarrow> pq_tail q = pq_head q \<Longrightarrow> ns = [pq_tail q]"
  by (cases ns) (auto simp: pq_rep_def split: if_splits dest: last_in_set)

lemma seq_dequeue:
  assumes "pq_seq q xs"
  shows "\<exists>q'. wg_prev_queue_dequeue q = ((case xs of [] \<Rightarrow> None | x # _ \<Rightarrow> Some x), q') \<and> pq_seq q' (tl xs)"
proof -
  obtain ns where ns: "pq_rep q (\<lambda>_. None) ns" "skbs ns = xs" "pq_count q = length xs"
    using assms by (auto simp: pq_seq_def)
  obtain f q1 where f: "pq_front q = (f, q1)" by fastforce
  from ns(1) f show ?thesis
  proof (cases rule: front_cases)
    case none
    have "Stub \<in> set ns" using ns(1) none(3) unfolding pq_rep_def by (metis hd_in_set)
    then have "ns = [Stub]" using seq_head [OF ns(1) none(4)] rep_single [OF ns(1)] none(3) by simp
    with assms none f ns show ?thesis by (auto simp: wg_prev_queue_dequeue_def)
  next
    case (took n ms)
    with ns f show ?thesis by (auto simp: wg_prev_queue_dequeue_def pq_seq_def)
  next
    case (check t ms)
    have "t \<in> set ms" using check unfolding pq_rep_def by (metis hd_in_set)
    with seq_head [OF check(4,8)] have t: "t = pq_head q1" by simp
    with rep_single [OF check(4)] check(2) have ms: "ms = [t]" by simp
    let ?q2 = "pq_enqueue_node Stub q1"
    have rep2: "pq_rep ?q2 (\<lambda>_. None) [t, Stub]"
      using rep_enqueue_node [OF check(4), of Stub] ms check(3) by simp
    have tl2: "pq_tail ?q2 = t" "pq_count ?q2 = pq_count q" "pq_peeked ?q2 = pq_peeked q"
      using check by (simp_all add: pq_enqueue_node_def pq_swap_def pq_link_def)
    obtain r q3 where b: "pq_back t ?q2 = (r, q3)" by fastforce
    have deq: "wg_prev_queue_dequeue q = (r, q3)" using f check(1) t b by (simp add: wg_prev_queue_dequeue_def)
    from rep2 tl2(1) [symmetric] check(3) b show ?thesis
    proof (cases rule: back_cases)
      case none
      with rep2 show ?thesis by (simp add: pq_rep_def)
    next
      case (took n ms')
      then have "xs = [n]" "skbs ms' = []" using ns(2) check(5) ms by (cases t; simp)+
      with took deq tl2(2) ns(3) show ?thesis by (auto simp: pq_seq_def)
    qed
  qed
qed

interpretation lq: bounded_fifo pq_seq wg_prev_queue_enqueue wg_prev_queue_dequeue MAX_QUEUED_PACKETS
proof
  show "wg_prev_queue_enqueue x q = (False, q)" if "pq_seq q xs" "length xs = MAX_QUEUED_PACKETS" for q xs x
    using that by (simp add: wg_prev_queue_enqueue_def pq_reserve_def pq_seq_def)
qed (use seq_enqueue seq_dequeue in \<open>fastforce+\<close>)



section \<open>Producers and the consumer interleaved\<close>

text \<open>Where the consumer is between two of its atomic actions.\<close>

datatype cons_state = C_idle | C_check qnode | C_swap qnode | C_link qnode qnode | C_back qnode

text \<open>
  \<open>sys_pend\<close>: links that a producer (or the consumer, for the stub) has still to write;
  \<open>sys_reserved\<close>: producers between their reservation and their exchange; \<open>sys_hist\<close>: the
  buffers in the order of the exchanges; \<open>sys_out\<close>: what the consumer has received.
\<close>

record pq_sys =
  sys_q :: prev_queue
  sys_pend :: "qnode \<Rightarrow> qnode option"
  sys_reserved :: nat
  sys_cons :: cons_state
  sys_hist :: "nat list"
  sys_out :: "nat list"

definition pq_start :: "(qnode \<Rightarrow> qnode option) \<Rightarrow> pq_sys" where
  "pq_start nx = \<lparr>sys_q = wg_prev_queue_init nx, sys_pend = (\<lambda>_. None), sys_reserved = 0,
     sys_cons = C_idle, sys_hist = [], sys_out = []\<rparr>"

definition queued :: "pq_sys \<Rightarrow> nat set" where
  "queued S = set (drop (length (sys_out S)) (sys_hist S))"

inductive pq_step :: "pq_sys \<Rightarrow> pq_sys \<Rightarrow> bool" where
  Reserve: "pq_reserve (sys_q S) = Some q \<Longrightarrow>
    pq_step S (S\<lparr>sys_q := q, sys_reserved := Suc (sys_reserved S)\<rparr>)"
| Swap: "sys_reserved S > 0 \<Longrightarrow> n \<notin> queued S \<Longrightarrow> pq_swap (Skb_node n) (sys_q S) = (prev, q) \<Longrightarrow>
    pq_step S (S\<lparr>sys_q := q, sys_pend := (sys_pend S)(prev := Some (Skb_node n)),
      sys_reserved := sys_reserved S - 1, sys_hist := sys_hist S @ [n]\<rparr>)"
| Link: "sys_pend S prev = Some (Skb_node n) \<Longrightarrow>
    pq_step S (S\<lparr>sys_q := pq_link prev (Skb_node n) (sys_q S), sys_pend := (sys_pend S)(prev := None)\<rparr>)"
| Front_done: "sys_cons S = C_idle \<Longrightarrow> pq_front (sys_q S) = (Done r, q) \<Longrightarrow>
    pq_step S (S\<lparr>sys_q := q, sys_out := sys_out S @ (case r of None \<Rightarrow> [] | Some n \<Rightarrow> [n])\<rparr>)"
| Front_check: "sys_cons S = C_idle \<Longrightarrow> pq_front (sys_q S) = (Check t, q) \<Longrightarrow>
    pq_step S (S\<lparr>sys_q := q, sys_cons := C_check t\<rparr>)"
| Check_head: "sys_cons S = C_check t \<Longrightarrow>
    pq_step S (S\<lparr>sys_cons := (if t \<noteq> pq_head (sys_q S) then C_idle else C_swap t)\<rparr>)"
| Stub_swap: "sys_cons S = C_swap t \<Longrightarrow> pq_swap Stub (sys_q S) = (prev, q) \<Longrightarrow>
    pq_step S (S\<lparr>sys_q := q, sys_pend := (sys_pend S)(prev := Some Stub), sys_cons := C_link t prev\<rparr>)"
| Stub_link: "sys_cons S = C_link t prev \<Longrightarrow>
    pq_step S (S\<lparr>sys_q := pq_link prev Stub (sys_q S), sys_pend := (sys_pend S)(prev := None),
      sys_cons := C_back t\<rparr>)"
| Back: "sys_cons S = C_back t \<Longrightarrow> pq_back t (sys_q S) = (r, q) \<Longrightarrow>
    pq_step S (S\<lparr>sys_q := q, sys_cons := C_idle,
      sys_out := sys_out S @ (case r of None \<Rightarrow> [] | Some n \<Rightarrow> [n])\<rparr>)"

inductive pq_reach :: "pq_sys \<Rightarrow> bool" where
  Start: "pq_reach (pq_start nx)"
| Next: "pq_reach S \<Longrightarrow> pq_step S S' \<Longrightarrow> pq_reach S'"

fun cons_ok :: "cons_state \<Rightarrow> prev_queue \<Rightarrow> (qnode \<Rightarrow> qnode option) \<Rightarrow> qnode list \<Rightarrow> bool" where
  "cons_ok C_idle q pend ns = True"
| "cons_ok (C_check t) q pend ns = (t = pq_tail q \<and> t \<noteq> Stub)"
| "cons_ok (C_swap t) q pend ns = (t = pq_tail q \<and> t \<noteq> Stub \<and> Stub \<notin> set ns)"
| "cons_ok (C_link t prev) q pend ns = (t = pq_tail q \<and> t \<noteq> Stub \<and> pend prev = Some Stub)"
| "cons_ok (C_back t) q pend ns = (t = pq_tail q \<and> t \<noteq> Stub)"

definition sys_rep :: "pq_sys \<Rightarrow> qnode list \<Rightarrow> bool" where
  "sys_rep S ns \<longleftrightarrow>
     pq_rep (sys_q S) (sys_pend S) ns \<and> sys_hist S = sys_out S @ skbs ns \<and>
     pq_count (sys_q S) = length (skbs ns) + sys_reserved S \<and>
     pq_count (sys_q S) \<le> MAX_QUEUED_PACKETS \<and> cons_ok (sys_cons S) (sys_q S) (sys_pend S) ns"

definition sys_inv :: "pq_sys \<Rightarrow> bool" where
  "sys_inv S \<longleftrightarrow> (\<exists>ns. sys_rep S ns)"

lemma sys_repD:
  assumes "sys_rep S ns"
  shows "pq_rep (sys_q S) (sys_pend S) ns" and "sys_hist S = sys_out S @ skbs ns"
    and "pq_count (sys_q S) = length (skbs ns) + sys_reserved S"
    and "pq_count (sys_q S) \<le> MAX_QUEUED_PACKETS"
    and "cons_ok (sys_cons S) (sys_q S) (sys_pend S) ns"
  using assms by (auto simp: sys_rep_def)

lemma sys_invI:
  "pq_rep (sys_q S) (sys_pend S) ns \<Longrightarrow> sys_hist S = sys_out S @ skbs ns \<Longrightarrow>
   pq_count (sys_q S) = length (skbs ns) + sys_reserved S \<Longrightarrow>
   pq_count (sys_q S) \<le> MAX_QUEUED_PACKETS \<Longrightarrow> cons_ok (sys_cons S) (sys_q S) (sys_pend S) ns \<Longrightarrow> sys_inv S"
  unfolding sys_inv_def sys_rep_def by blast

lemma start_inv: "sys_inv (pq_start nx)"
  by (rule sys_invI [of _ "[Stub]"]) (auto simp: pq_start_def wg_prev_queue_init_def pq_rep_def)

text \<open>A producer's exchange and link do not disturb the consumer between its actions.\<close>

lemma swap_inv:
  assumes "sys_inv S" "sys_reserved S > 0" "n \<notin> queued S" "pq_swap (Skb_node n) (sys_q S) = (prev, q)"
  shows "sys_inv (S\<lparr>sys_q := q, sys_pend := (sys_pend S)(prev := Some (Skb_node n)),
      sys_reserved := sys_reserved S - 1, sys_hist := sys_hist S @ [n]\<rparr>)"
proof -
  from assms(1) obtain ns where "sys_rep S ns" by (auto simp: sys_inv_def)
  note ns = sys_repD [OF this]
  have "Skb_node n \<notin> set ns" using assms(3) ns(2) by (auto simp: queued_def set_skbs)
  from rep_swap [OF ns(1) this assms(4)] have r: "pq_rep q ((sys_pend S)(prev := Some (Skb_node n))) (ns @ [Skb_node n])"
    "sys_pend S prev = None" by auto
  have q: "pq_count q = pq_count (sys_q S)" "pq_tail q = pq_tail (sys_q S)"
    using assms(4) by (auto simp: pq_swap_def)
  have "cons_ok (sys_cons S) q ((sys_pend S)(prev := Some (Skb_node n))) (ns @ [Skb_node n])"
    using ns(5) r(2) q(2) by (cases "sys_cons S") auto
  with r(1) q ns assms(2) show ?thesis by (intro sys_invI [of _ "ns @ [Skb_node n]"]) auto
qed

lemma link_inv:
  assumes "sys_inv S" "sys_pend S prev = Some (Skb_node n)"
  shows "sys_inv (S\<lparr>sys_q := pq_link prev (Skb_node n) (sys_q S), sys_pend := (sys_pend S)(prev := None)\<rparr>)"
proof -
  from assms(1) obtain ns where "sys_rep S ns" by (auto simp: sys_inv_def)
  note ns = sys_repD [OF this]
  have "cons_ok (sys_cons S) (pq_link prev (Skb_node n) (sys_q S)) ((sys_pend S)(prev := None)) ns"
    using ns(5) assms(2) by (cases "sys_cons S") (auto simp: pq_link_def)
  with rep_link [OF ns(1) assms(2)] ns show ?thesis
    by (intro sys_invI [of _ ns]) (auto simp: pq_link_def)
qed

lemma front_inv:
  assumes "sys_inv S" "sys_cons S = C_idle" "pq_front (sys_q S) = (f, q)"
  shows "sys_inv (case f of
      Done r \<Rightarrow> S\<lparr>sys_q := q, sys_out := sys_out S @ (case r of None \<Rightarrow> [] | Some n \<Rightarrow> [n])\<rparr>
    | Check t \<Rightarrow> S\<lparr>sys_q := q, sys_cons := C_check t\<rparr>)"
proof -
  from assms(1) obtain ns where "sys_rep S ns" by (auto simp: sys_inv_def)
  note ns = sys_repD [OF this]
  from ns(1) assms(3) show ?thesis
  proof (cases rule: front_cases)
    case none
    with assms(1) show ?thesis by simp
  next
    case (took n ms)
    with ns assms(2) show ?thesis by (auto intro!: sys_invI [of _ ms])
  next
    case (check t ms)
    with ns show ?thesis by (auto intro!: sys_invI [of _ ms])
  qed
qed

lemma check_inv:
  assumes "sys_inv S" "sys_cons S = C_check t"
  shows "sys_inv (S\<lparr>sys_cons := (if t \<noteq> pq_head (sys_q S) then C_idle else C_swap t)\<rparr>)"
proof -
  from assms(1) obtain ns where "sys_rep S ns" by (auto simp: sys_inv_def)
  note ns = sys_repD [OF this]
  have "t = pq_head (sys_q S) \<Longrightarrow> ns = [t]" using rep_single [OF ns(1)] ns(5) assms(2) by simp
  with ns assms(2) show ?thesis by (intro sys_invI [of _ ns]) auto
qed

lemma stub_swap_inv:
  assumes "sys_inv S" "sys_cons S = C_swap t" "pq_swap Stub (sys_q S) = (prev, q)"
  shows "sys_inv (S\<lparr>sys_q := q, sys_pend := (sys_pend S)(prev := Some Stub), sys_cons := C_link t prev\<rparr>)"
proof -
  from assms(1) obtain ns where "sys_rep S ns" by (auto simp: sys_inv_def)
  note ns = sys_repD [OF this]
  have "pq_rep q ((sys_pend S)(prev := Some Stub)) (ns @ [Stub])"
    using rep_swap [OF ns(1) _ assms(3)] ns(5) assms(2) by auto
  with ns assms(2,3) show ?thesis by (intro sys_invI [of _ "ns @ [Stub]"]) (auto simp: pq_swap_def)
qed

lemma stub_link_inv:
  assumes "sys_inv S" "sys_cons S = C_link t prev"
  shows "sys_inv (S\<lparr>sys_q := pq_link prev Stub (sys_q S), sys_pend := (sys_pend S)(prev := None),
      sys_cons := C_back t\<rparr>)"
proof -
  from assms(1) obtain ns where "sys_rep S ns" by (auto simp: sys_inv_def)
  note ns = sys_repD [OF this]
  from rep_link [OF ns(1), of prev Stub] ns assms(2) show ?thesis
    by (intro sys_invI [of _ ns]) (auto simp: pq_link_def)
qed

lemma back_inv:
  assumes "sys_inv S" "sys_cons S = C_back t" "pq_back t (sys_q S) = (r, q)"
  shows "sys_inv (S\<lparr>sys_q := q, sys_cons := C_idle,
      sys_out := sys_out S @ (case r of None \<Rightarrow> [] | Some n \<Rightarrow> [n])\<rparr>)"
proof -
  from assms(1) obtain ns where "sys_rep S ns" by (auto simp: sys_inv_def)
  note ns = sys_repD [OF this]
  from ns(5) have t: "t = pq_tail (sys_q S)" "t \<noteq> Stub" using assms(2) by auto
  from ns(1) t assms(3) show ?thesis
  proof (cases rule: back_cases)
    case none
    with ns show ?thesis by (auto intro!: sys_invI [of _ ns])
  next
    case (took n ms)
    with ns show ?thesis by (auto intro!: sys_invI [of _ ms])
  qed
qed

lemma pq_step_inv: "pq_step S S' \<Longrightarrow> sys_inv S \<Longrightarrow> sys_inv S'"
proof (induction rule: pq_step.induct)
  case (Reserve S q)
  from Reserve.prems obtain ns where "sys_rep S ns" by (auto simp: sys_inv_def)
  note ns = sys_repD [OF this]
  have "cons_ok (sys_cons S) q (sys_pend S) ns"
    using ns(5) Reserve.hyps by (cases "sys_cons S") (auto simp: pq_reserve_def split: if_splits)
  with ns Reserve.hyps show ?case
    by (intro sys_invI [of _ ns]) (auto simp: pq_reserve_def split: if_splits)
next
  case (Front_done S r q)
  then show ?case using front_inv [of S "Done r" q] by simp
next
  case (Front_check S t q)
  then show ?case using front_inv [of S "Check t" q] by simp
qed (blast intro: swap_inv link_inv check_inv stub_swap_inv stub_link_inv back_inv)+

lemma pq_reach_inv: "pq_reach S \<Longrightarrow> sys_inv S"
  by (induction rule: pq_reach.induct) (auto intro: start_inv pq_step_inv)

text \<open>C16. With any number of producers interleaved with the consumer, at the granularity of
  their atomic actions, the consumer has received a prefix of the buffers in the order
  of the producers' exchanges: none is lost, repeated or overtaken, and at most 1024
  buffers are in the queue or reserved.\<close>

theorem prev_queue_linearizable:
  assumes "pq_reach S"
  shows "sys_out S = take (length (sys_out S)) (sys_hist S) \<and>
    length (sys_hist S) - length (sys_out S) + sys_reserved S \<le> 1024"
  using pq_reach_inv [OF assms] by (auto simp: sys_inv_def sys_rep_def MAX_QUEUED_PACKETS_def)

text \<open>Two producers whose links arrive out of order, then a dequeue.\<close>

definition demo_run :: pq_sys where
  "demo_run = \<lparr>sys_q = \<lparr>pq_head = Skb_node 9, pq_tail = Skb_node 9, pq_peeked = None,
       pq_next = [Stub \<mapsto> Skb_node 7, Skb_node 7 \<mapsto> Skb_node 9], pq_count = 1\<rparr>,
     sys_pend = (\<lambda>_. None), sys_reserved = 0, sys_cons = C_idle, sys_hist = [7, 9], sys_out = [7]\<rparr>"

lemma demo_run_reach: "pq_reach demo_run"
proof -
  let ?q = "\<lambda>h c nx. \<lparr>pq_head = h, pq_tail = Stub, pq_peeked = None, pq_next = nx, pq_count = c\<rparr>"
  let ?S = "\<lambda>h c nx pend r hist. \<lparr>sys_q = ?q h c nx, sys_pend = pend, sys_reserved = r,
    sys_cons = C_idle, sys_hist = hist, sys_out = []\<rparr>"
  note d = pq_reserve_def MAX_QUEUED_PACKETS_def pq_swap_def pq_link_def queued_def
  have "pq_reach (?S Stub 0 Map.empty Map.empty 0 [])"
    using pq_reach.Start [of Map.empty] by (simp add: pq_start_def wg_prev_queue_init_def)
  from pq_reach.Next [OF this pq_step.Reserve] have "pq_reach (?S Stub 1 Map.empty Map.empty 1 [])"
    by (simp add: d)
  from pq_reach.Next [OF this pq_step.Reserve] have "pq_reach (?S Stub 2 Map.empty Map.empty 2 [])"
    by (simp add: d numeral_2_eq_2)
  from pq_reach.Next [OF this pq_step.Swap [of _ 7]]
  have "pq_reach (?S (Skb_node 7) 2 Map.empty [Stub \<mapsto> Skb_node 7] 1 [7])" by (simp add: d)
  from pq_reach.Next [OF this pq_step.Swap [of _ 9]]
  have "pq_reach (?S (Skb_node 9) 2 Map.empty [Stub \<mapsto> Skb_node 7, Skb_node 7 \<mapsto> Skb_node 9] 0 [7, 9])"
    by (simp add: d)
  from pq_reach.Next [OF this pq_step.Link [of _ "Skb_node 7" 9]]
  have "pq_reach (?S (Skb_node 9) 2 [Skb_node 7 \<mapsto> Skb_node 9] [Stub \<mapsto> Skb_node 7] 0 [7, 9])"
    by (simp add: d fun_upd_twist)
  from pq_reach.Next [OF this pq_step.Link [of _ Stub 7]]
  have "pq_reach (?S (Skb_node 9) 2 [Stub \<mapsto> Skb_node 7, Skb_node 7 \<mapsto> Skb_node 9] Map.empty 0 [7, 9])"
    by (simp add: d fun_upd_twist)
  from pq_reach.Next [OF this pq_step.Front_done [of _ "Some 7"]] show ?thesis
    by (simp add: pq_front_def pq_settle_def pq_take_def demo_run_def)
qed

theorem prev_queue_linearizable_witness:
  "pq_reach demo_run \<and> sys_out demo_run = [7] \<and> sys_out demo_run = take 1 (sys_hist demo_run)"
  using prev_queue_linearizable [OF demo_run_reach] demo_run_reach by (simp add: demo_run_def)

end
