(* ===== verification/Allowed_Ips.thy ===== *)
theory Allowed_Ips
  imports Net_Types
begin

text \<open>
  The routing table of allowed addresses (kernel/allowedips.c): a compressed binary trie
  on address prefixes, one for each address family, with its insertion, removal and
  longest-prefix lookup. A node is a value of \<open>allowedips_node\<close>, a null pointer is
  \<open>Nil_node\<close>; the pointer surgery of \<open>add\<close> and \<open>remove_node\<close> is the rebuilding of the path
  from the root. Keys are words of 32 or 128 bits in host order, as \<open>swap_endian\<close> leaves
  them.
\<close>

unbundle bit_operations_syntax

section \<open>Keys\<close>

text \<open>Position of the highest set bit, counted from one (\<open>fls\<close>, \<open>fls64\<close>).\<close>

fun fls_nat :: "nat \<Rightarrow> nat" where
  "fls_nat n = (if n = 0 then 0 else Suc (fls_nat (n div 2)))"

declare fls_nat.simps [simp del]

definition fls :: "'a::len word \<Rightarrow> nat" where
  "fls w = fls_nat (unat w)"

definition fls128 :: "u64 \<Rightarrow> u64 \<Rightarrow> nat" where
  "fls128 a b = (if a \<noteq> 0 then fls a + 64 else fls b)"

definition common_bits :: "'a::len word \<Rightarrow> 'a word \<Rightarrow> nat" where
  "common_bits bits key =
     (if LENGTH('a) = 32 then 32 - fls (bits XOR key)
      else if LENGTH('a) = 128 then
        128 - fls128 (ucast (drop_bit 64 bits) XOR ucast (drop_bit 64 key)) (ucast bits XOR ucast key)
      else 0)"

text \<open>
  The bytes of a key as \<open>swap_endian\<close> stores it on a little-endian machine: one 32-bit
  word, or the high 64-bit word followed by the low one.
\<close>

definition key_byte :: "'a::len word \<Rightarrow> nat \<Rightarrow> u8" where
  "key_byte key j =
     ucast (drop_bit (if LENGTH('a) = 32 then 8 * j else if j < 8 then 64 + 8 * j else 8 * (j - 8)) key)"

text \<open>\<open>bit_at_a\<close> and \<open>bit_at_b\<close> as \<open>copy_and_assign_cidr\<close> computes them, read by \<open>choose\<close>.\<close>

definition choose_bit :: "nat \<Rightarrow> 'a::len word \<Rightarrow> bool" where
  "choose_bit cidr key =
     bit (key_byte key ((cidr div 8) XOR ((LENGTH('a) div 8 - 1) mod 8))) (7 - cidr mod 8)"

section \<open>The trie\<close>

datatype ('k, 'p) allowedips_node =
  Nil_node
| Node (n_peer: "'p option") (n_cidr: nat) (n_bits: 'k)
    (n_bit0: "('k, 'p) allowedips_node") (n_bit1: "('k, 'p) allowedips_node")

type_synonym ('a, 'p) trie = "('a word, 'p) allowedips_node"

definition prefix_matches :: "'a::len word \<Rightarrow> nat \<Rightarrow> 'a word \<Rightarrow> bool" where
  "prefix_matches bits cidr key = (common_bits bits key \<ge> cidr)"

fun find_node :: "('a::len, 'p) trie \<Rightarrow> 'a word \<Rightarrow> 'p option \<Rightarrow> 'p option" where
  "find_node Nil_node key found = found"
| "find_node (Node peer cidr bits l r) key found =
     (if prefix_matches bits cidr key then
        let found1 = (case peer of Some p \<Rightarrow> Some p | None \<Rightarrow> found) in
        if cidr = LENGTH('a) then found1
        else if choose_bit cidr key then find_node r key found1 else find_node l key found1
      else found)"

text \<open>
  \<open>lookup\<close>: the snapshots of the root that its attempts see, in order; a peer whose last
  reference is gone (\<open>alive\<close> is false for it) makes it try again.
\<close>

fun lookup :: "('p \<Rightarrow> bool) \<Rightarrow> ('a::len, 'p) trie list \<Rightarrow> 'a word \<Rightarrow> 'p option option" where
  "lookup alive [] key = None"
| "lookup alive (root # later) key =
     (case find_node root key None of
        None \<Rightarrow> Some None
      | Some p \<Rightarrow> if alive p then Some (Some p) else lookup alive later key)"

text \<open>\<open>node_placement\<close>: whether the exact node exists, and the last node on the way to it.\<close>

fun node_placement ::
  "('a::len, 'p) trie \<Rightarrow> 'a word \<Rightarrow> nat \<Rightarrow> ('a, 'p) trie \<Rightarrow> bool \<times> ('a, 'p) trie" where
  "node_placement Nil_node key cidr parent = (False, parent)"
| "node_placement (Node peer c bits l r) key cidr parent =
     (if c \<le> cidr \<and> prefix_matches bits c key then
        if c = cidr then (True, Node peer c bits l r)
        else if choose_bit c key then node_placement r key cidr (Node peer c bits l r)
        else node_placement l key cidr (Node peer c bits l r)
      else (False, parent))"

text \<open>\<open>choose_and_connect_node\<close> on a node without children in that slot.\<close>

definition connect :: "('a::len, 'p) trie \<Rightarrow> ('a, 'p) trie \<Rightarrow> ('a, 'p) trie" where
  "connect parent node =
     (case parent of
        Nil_node \<Rightarrow> node
      | Node p c b l r \<Rightarrow>
          if choose_bit c (n_bits node) then Node p c b l node else Node p c b node r)"

text \<open>
  \<open>add\<close> below the root: \<open>ok1\<close> and \<open>ok2\<close> are the outcomes of its two allocations; None is
  \<open>-ENOMEM\<close> with the trie as it was.
\<close>

fun add_node ::
  "bool \<Rightarrow> bool \<Rightarrow> 'a::len word \<Rightarrow> nat \<Rightarrow> 'p \<Rightarrow> ('a, 'p) trie \<Rightarrow> ('a, 'p) trie option" where
  "add_node ok1 ok2 key cidr p Nil_node =
     (if ok1 then Some (Node (Some p) cidr key Nil_node Nil_node) else None)"
| "add_node ok1 ok2 key cidr p (Node peer c bits l r) =
     (if c \<le> cidr \<and> prefix_matches bits c key then
        if c = cidr then Some (Node (Some p) c bits l r)
        else if choose_bit c key
        then map_option (Node peer c bits l) (add_node ok1 ok2 key cidr p r)
        else map_option (\<lambda>l'. Node peer c bits l' r) (add_node ok1 ok2 key cidr p l)
      else if \<not> ok1 then None
      else
        let newnode = Node (Some p) cidr key Nil_node Nil_node;
            down = Node peer c bits l r;
            cidr1 = min cidr (common_bits bits key)
        in
        if cidr = cidr1 then Some (connect newnode down)
        else if \<not> ok2 then None
        else Some (connect (connect (Node None cidr1 key Nil_node Nil_node) down) newnode))"

definition add_ip ::
  "bool \<Rightarrow> bool \<Rightarrow> 'a::len word \<Rightarrow> nat \<Rightarrow> 'p option \<Rightarrow> ('a, 'p) trie \<Rightarrow> errno option \<times> ('a, 'p) trie" where
  "add_ip ok1 ok2 key cidr peer trie =
     (case peer of
        None \<Rightarrow> (Some EINVAL, trie)
      | Some p \<Rightarrow>
          if cidr > LENGTH('a) then (Some EINVAL, trie)
          else (case add_node ok1 ok2 key cidr p trie of
                  None \<Rightarrow> (Some ENOMEM, trie) | Some t \<Rightarrow> (None, t)))"

text \<open>\<open>remove_node\<close> on the node itself, before its parent is looked at.\<close>

fun splice :: "('k, 'p) allowedips_node \<Rightarrow> ('k, 'p) allowedips_node" where
  "splice Nil_node = Nil_node"
| "splice (Node p c b l r) =
     (if l \<noteq> Nil_node \<and> r \<noteq> Nil_node then Node None c b l r
      else if l = Nil_node then r else l)"

definition is_leaf :: "('k, 'p) allowedips_node \<Rightarrow> bool" where
  "is_leaf t = (case t of Nil_node \<Rightarrow> False | Node _ _ _ l r \<Rightarrow> l = Nil_node \<and> r = Nil_node)"

text \<open>
  The path to the exact node, with \<open>remove_node\<close> at its end: a childless node takes its
  peerless parent with it, whose other child moves up.
\<close>

fun remove_at :: "'a::len word \<Rightarrow> nat \<Rightarrow> ('a, 'p) trie \<Rightarrow> ('a, 'p) trie" where
  "remove_at key cidr Nil_node = Nil_node"
| "remove_at key cidr (Node p c b l r) =
     (if c = cidr then splice (Node p c b l r)
      else if choose_bit c key then
        (if is_leaf r \<and> n_cidr r = cidr \<and> p = None then l
         else Node p c b l (remove_at key cidr r))
      else
        (if is_leaf l \<and> n_cidr l = cidr \<and> p = None then r
         else Node p c b (remove_at key cidr l) r))"

definition remove_ip ::
  "'a::len word \<Rightarrow> nat \<Rightarrow> 'p \<Rightarrow> ('a, 'p) trie \<Rightarrow> errno option \<times> ('a, 'p) trie" where
  "remove_ip key cidr peer trie =
     (if cidr > LENGTH('a) then (Some EINVAL, trie)
      else
        (case node_placement trie key cidr Nil_node of
           (True, node) \<Rightarrow>
             if n_peer node = Some peer then (None, remove_at key cidr trie) else (None, trie)
         | (False, _) \<Rightarrow> (None, trie)))"

section \<open>Bits of keys\<close>

lemma fls_nat_le: "fls_nat n \<le> k \<longleftrightarrow> n < 2 ^ k"
proof (induction n arbitrary: k rule: fls_nat.induct)
  case (1 n)
  show ?case
  proof (cases "n = 0")
    case False
    then show ?thesis
      using "1.IH" by (cases k) (auto simp: fls_nat.simps [of n] less_mult_imp_div_less
          div_less_iff_less_mult mult.commute)
  qed (simp add: fls_nat.simps)
qed

lemma fls_le: "fls (w :: 'a::len word) \<le> k \<longleftrightarrow> drop_bit k w = 0"
proof -
  have "drop_bit k w = 0 \<longleftrightarrow> unat w div 2 ^ k = 0"
    by (metis drop_bit_eq_div unat_drop_bit_eq unat_eq_zero)
  then show ?thesis by (simp add: fls_def fls_nat_le div_eq_0_iff)
qed

lemma fls_bound: "fls (w :: 'a::len word) \<le> LENGTH('a)"
  by (simp add: fls_le)

text \<open>Two keys agree on their first \<open>c\<close> bits.\<close>

definition kbit :: "'a::len word \<Rightarrow> nat \<Rightarrow> bool" where
  "kbit k i = bit k (LENGTH('a) - 1 - i)"

definition pre :: "nat \<Rightarrow> 'a::len word \<Rightarrow> 'a word \<Rightarrow> bool" where
  "pre c a b \<longleftrightarrow> (\<forall>i<c. kbit a i = kbit b i)"

lemma pre_drop_bit:
  fixes a b :: "'a::len word"
  assumes "c \<le> LENGTH('a)"
  shows "pre c a b \<longleftrightarrow> drop_bit (LENGTH('a) - c) (a XOR b) = 0"
proof
  assume p: "pre c a b"
  show "drop_bit (LENGTH('a) - c) (a XOR b) = 0"
  proof (rule bit_word_eqI)
    fix n assume "n < LENGTH('a)"
    show "bit (drop_bit (LENGTH('a) - c) (a XOR b)) n = bit (0 :: 'a word) n"
    proof (cases "n < c")
      case True
      then have "LENGTH('a) - c + n = LENGTH('a) - 1 - (c - 1 - n)" "c - 1 - n < c" using assms by auto
      with p show ?thesis by (auto simp: bit_simps pre_def kbit_def)
    next
      case False
      then have "\<not> LENGTH('a) - c + n < LENGTH('a)" using assms by auto
      then have "\<not> bit (a XOR b) (LENGTH('a) - c + n)" using bit_imp_le_length by blast
      then show ?thesis by (simp add: bit_simps)
    qed
  qed
next
  assume z: "drop_bit (LENGTH('a) - c) (a XOR b) = 0"
  show "pre c a b" unfolding pre_def kbit_def
  proof (intro allI impI)
    fix i assume "i < c"
    then have "LENGTH('a) - c + (c - 1 - i) = LENGTH('a) - 1 - i" using assms by auto
    with arg_cong [OF z, where f = "\<lambda>w. bit w (c - 1 - i)"]
    show "bit a (LENGTH('a) - 1 - i) = bit b (LENGTH('a) - 1 - i)" by (simp add: bit_simps)
  qed
qed

text \<open>The two widths that occur.\<close>

definition ip_width :: "'a::len itself \<Rightarrow> bool" where
  "ip_width t \<longleftrightarrow> LENGTH('a) = 32 \<or> LENGTH('a) = 128"

lemma ip_width_32 [simp]: "ip_width TYPE(32)" and ip_width_128 [simp]: "ip_width TYPE(128)"
  by (simp_all add: ip_width_def)

lemma fls_nat_div: "fls_nat (n div 2 ^ m) = fls_nat n - m"
proof -
  have "fls_nat (n div 2 ^ m) \<le> k \<longleftrightarrow> fls_nat n - m \<le> k" for k
  proof -
    have "n div 2 ^ m < 2 ^ k \<longleftrightarrow> n < 2 ^ (k + m)"
      by (simp add: div_less_iff_less_mult power_add)
    moreover have "fls_nat n \<le> k + m \<longleftrightarrow> fls_nat n - m \<le> k" by linarith
    ultimately show ?thesis by (simp add: fls_nat_le)
  qed
  then show ?thesis by (meson order_antisym order_refl)
qed

lemma fls_split:
  fixes w :: "'a::len word"
  assumes "LENGTH('a) = 128"
  shows "fls w = fls128 (ucast (drop_bit 64 w)) (ucast w)"
proof -
  have lt: "unat w < 2 ^ 128" using unsigned_less [of w] assms by simp
  have "unat (drop_bit 64 w) = unat w div 2 ^ 64"
    by (simp only: unat_drop_bit_eq) (simp add: drop_bit_eq_div)
  moreover have "unat w div 2 ^ 64 < 2 ^ 64" using lt by (simp add: div_less_iff_less_mult)
  ultimately have hi: "unat (ucast (drop_bit 64 w) :: u64) = unat w div 2 ^ 64"
    by (simp add: unsigned_ucast_eq take_bit_eq_mod)
  have lo: "unat (ucast w :: u64) = unat w mod 2 ^ 64" by (simp add: unsigned_ucast_eq take_bit_eq_mod)
  show ?thesis
  proof (cases "unat w < 2 ^ 64")
    case True
    then have "(ucast (drop_bit 64 w) :: u64) = 0" using hi by (metis div_less unat_eq_zero)
    then show ?thesis using True lo by (simp add: fls128_def fls_def)
  next
    case False
    then have "unat w div 2 ^ 64 \<noteq> 0" by (simp add: div_eq_0_iff)
    then have "(ucast (drop_bit 64 w) :: u64) \<noteq> 0" using hi by (metis unat_0)
    moreover have "64 \<le> fls_nat (unat w)" using False fls_nat_le [of "unat w" 64] by linarith
    ultimately show ?thesis using hi fls_nat_div [of "unat w" 64] by (simp add: fls128_def fls_def)
  qed
qed

lemma common_bits_fls:
  fixes a b :: "'a::len word"
  assumes "ip_width TYPE('a)"
  shows "common_bits a b = LENGTH('a) - fls (a XOR b)"
  using assms fls_split [of "a XOR b"]
  by (auto simp: ip_width_def common_bits_def unsigned_xor_eq)

lemma common_bits_pre:
  fixes a b :: "'a::len word"
  assumes "ip_width TYPE('a)" "c \<le> LENGTH('a)"
  shows "c \<le> common_bits a b \<longleftrightarrow> pre c a b"
  using common_bits_fls [OF assms(1), of a b] fls_bound [of "a XOR b"] fls_le [of "a XOR b" "LENGTH('a) - c"]
    pre_drop_bit [OF assms(2), of a b] assms(2) by auto

lemma xor_byte_3: "x < 4 \<Longrightarrow> x XOR 3 = 3 - (x :: nat)"
proof -
  assume "x < 4"
  then have "x = 0 \<or> x = 1 \<or> x = 2 \<or> x = 3" by linarith
  then show ?thesis by auto
qed

lemma xor_byte_7: "x < 16 \<Longrightarrow> x XOR 7 = (if x < 8 then 7 - x else 23 - (x :: nat))"
proof -
  have "\<forall>x\<in>set [0..<16]. x XOR 7 = (if x < 8 then 7 - x else 23 - (x :: nat))" by code_simp
  then show "x < 16 \<Longrightarrow> ?thesis" by simp
qed

lemma bit_byte: "n < 8 \<Longrightarrow> bit (ucast (drop_bit m (w :: 'a::len word)) :: u8) n = bit w (m + n)"
  by (simp add: bit_simps)

lemma choose_bit_kbit:
  fixes key :: "'a::len word"
  assumes "ip_width TYPE('a)" "c < LENGTH('a)"
  shows "choose_bit c key = kbit key c"
proof -
  obtain x y where c: "c = 8 * x + y" "y < 8" by (metis div_mult_mod_eq mult.commute mod_less_divisor zero_less_numeral)
  then have dm: "c div 8 = x" "c mod 8 = y" by auto
  have byte: "bit (ucast (drop_bit m key) :: u8) (7 - y) = bit key n" if "m + (7 - y) = n" for m n
    using bit_byte [of "7 - y" m key] that by simp
  from assms have "LENGTH('a) = 32 \<or> LENGTH('a) = 128" by (simp add: ip_width_def)
  then show ?thesis
  proof
    assume len: "LENGTH('a) = 32"
    with c assms(2) have "x < 4" "8 * (3 - x) + (7 - y) = 31 - c" by auto
    with len dm byte show ?thesis
      by (simp add: choose_bit_def key_byte_def kbit_def xor_byte_3)
  next
    assume len: "LENGTH('a) = 128"
    show ?thesis
    proof (cases "x < 8")
      case True
      with c have "64 + 8 * (7 - x) + (7 - y) = 127 - c" "7 - x < 8" by auto
      with True len dm byte show ?thesis
        by (simp add: choose_bit_def key_byte_def kbit_def xor_byte_7)
    next
      case False
      with c len assms(2) have "x < 16" "8 * (15 - x) + (7 - y) = 127 - c" "\<not> 23 - x < 8" by auto
      with False len dm byte show ?thesis
        by (simp add: choose_bit_def key_byte_def kbit_def xor_byte_7)
    qed
  qed
qed

section \<open>The table a trie stands for\<close>

text \<open>The peer of the exact prefix, found as \<open>node_placement\<close> finds its node.\<close>

fun at :: "('a::len, 'p) trie \<Rightarrow> nat \<Rightarrow> 'a word \<Rightarrow> 'p option" where
  "at Nil_node cidr key = None"
| "at (Node p c b l r) cidr key =
     (if c \<le> cidr \<and> prefix_matches b c key then
        if c = cidr then p else at (if choose_bit c key then r else l) cidr key
      else None)"

fun below :: "nat \<Rightarrow> 'a::len word \<Rightarrow> bool \<Rightarrow> ('a, 'p) trie \<Rightarrow> bool" where
  "below c b v Nil_node = True"
| "below c b v (Node _ c' b' _ _) = (c < c' \<and> pre c b b' \<and> kbit b' c = v)"

fun trie_wf :: "('a::len, 'p) trie \<Rightarrow> bool" where
  "trie_wf Nil_node = True"
| "trie_wf (Node p c b l r) =
     (c \<le> LENGTH('a) \<and> (p = None \<longrightarrow> l \<noteq> Nil_node \<and> r \<noteq> Nil_node) \<and>
      below c b False l \<and> below c b True r \<and> trie_wf l \<and> trie_wf r)"

lemma pre_refl [simp]: "pre c a a"
  by (simp add: pre_def)

lemma pre_sym: "pre c a b = pre c b a"
  by (auto simp: pre_def)

lemma pre_trans: "pre c a b \<Longrightarrow> pre c b d \<Longrightarrow> pre c a d"
  by (simp add: pre_def)

lemma pre_mono: "pre c a b \<Longrightarrow> c' \<le> c \<Longrightarrow> pre c' a b"
  by (simp add: pre_def)

lemma pre_kbit: "pre c a b \<Longrightarrow> i < c \<Longrightarrow> kbit a i = kbit b i"
  by (simp add: pre_def)

lemma pre_Suc: "pre (Suc c) a b \<longleftrightarrow> pre c a b \<and> kbit a c = kbit b c"
  by (auto simp: pre_def less_Suc_eq)

lemma prefix_matches_pre:
  "ip_width TYPE('a) \<Longrightarrow> c \<le> LENGTH('a) \<Longrightarrow> prefix_matches b c k = pre c b (k :: 'a::len word)"
  by (simp add: prefix_matches_def common_bits_pre)

lemma full_length_leaf:
  fixes b :: "'a::len word"
  assumes "trie_wf (Node p c0 b l r)" "\<not> c0 < LENGTH('a)"
  shows "l = Nil_node" "r = Nil_node"
proof -
  have "\<not> below c0 b v (Node p' c' b' l' r')" if "trie_wf (Node p' c' b' l' r')" for v p' c' b' l' r'
    using that assms by auto
  with assms(1) show "l = Nil_node" "r = Nil_node" by (metis allowedips_node.exhaust trie_wf.simps(2))+
qed

text \<open>On a well-formed trie the tests of the code are tests of bits.\<close>

lemma at_wf:
  fixes b :: "'a::len word"
  assumes "ip_width TYPE('a)" "trie_wf (Node p c0 b l r)"
  shows "at (Node p c0 b l r) c k =
    (if c0 \<le> c \<and> pre c0 b k then if c0 = c then p else at (if kbit k c0 then r else l) c k else None)"
proof (cases "c0 < LENGTH('a)")
  case True
  then show ?thesis using assms by (simp add: prefix_matches_pre choose_bit_kbit)
next
  case False
  then show ?thesis
    using full_length_leaf [OF assms(2) False] assms by (simp add: prefix_matches_pre)
qed

lemma at_below:
  fixes t :: "('a::len, 'p) trie"
  assumes "ip_width TYPE('a)" "trie_wf t" "below c b v t" "at t cd k = Some p"
  shows "c < cd \<and> pre c b k \<and> kbit k c = v"
proof (cases t)
  case (Node q c' b' l r)
  have "c' \<le> cd" "pre c' b' k"
    using assms(4) at_wf [OF assms(1), of q c' b' l r] assms(2) Node by (auto split: if_splits)
  moreover have "c < c'" "pre c b b'" "kbit b' c = v" using assms(3) Node by auto
  ultimately show ?thesis by (meson pre_kbit pre_mono pre_trans order_less_le_trans order_less_imp_le)
qed (use assms in simp)

lemma below_child: "below c b v (Node p c0 b0 l r) \<Longrightarrow> below c0 b0 v' t \<Longrightarrow> below c b v t"
  by (cases t) (auto intro: pre_trans [OF _ pre_mono] dest: pre_kbit)

lemma below_trans:
  "below c b v (Node p c0 b0 l r) \<Longrightarrow> pre c b b' \<Longrightarrow> below c b' v (Node p' c0 b0 l' r')"
  by (auto intro: pre_trans simp: pre_sym [of c b b'])

section \<open>Lookup is longest-prefix match\<close>

definition is_lpm :: "('a::len, 'p) trie \<Rightarrow> 'a word \<Rightarrow> 'p option \<Rightarrow> bool" where
  "is_lpm t k res \<longleftrightarrow>
     (case res of
        None \<Rightarrow> \<forall>c. at t c k = None
      | Some p \<Rightarrow> \<exists>c. at t c k = Some p \<and> (\<forall>c'>c. at t c' k = None))"

lemma find_node_lpm:
  fixes t :: "('a::len, 'p) trie"
  assumes "ip_width TYPE('a)" "trie_wf t"
  shows "(\<exists>c p. at t c k = Some p \<and> find_node t k found = Some p \<and> (\<forall>c'>c. at t c' k = None)) \<or>
    (\<forall>c. at t c k = None) \<and> find_node t k found = found"
  using assms(2)
proof (induction t arbitrary: found)
  case (Node p c0 b l r)
  note at = at_wf [OF assms(1) Node.prems]
  show ?case
  proof (cases "pre c0 b k")
    case False
    then show ?thesis using Node.prems assms(1) unfolding at by (simp add: prefix_matches_pre)
  next
    case True
    let ?t = "if kbit k c0 then r else l" and ?found = "case p of Some q \<Rightarrow> Some q | None \<Rightarrow> found"
    have find: "find_node (Node p c0 b l r) k found = find_node ?t k ?found"
      using Node.prems assms(1) True
      by (cases l; cases r) (auto simp: prefix_matches_pre choose_bit_kbit Let_def)
    have gt: "at ?t c k = Some q \<Longrightarrow> c0 < c" for c q
      using at_below [OF assms(1), of ?t c0 b "kbit k c0" c k q] Node.prems by (auto split: if_splits)
    have "(\<exists>c p. at ?t c k = Some p \<and> find_node ?t k ?found = Some p \<and> (\<forall>c'>c. at ?t c' k = None)) \<or>
      (\<forall>c. at ?t c k = None) \<and> find_node ?t k ?found = ?found"
      using Node.IH Node.prems by simp
    then show ?thesis
    proof (elim disjE conjE exE)
      fix c q assume "at ?t c k = Some q" "find_node ?t k ?found = Some q" "\<forall>c'>c. at ?t c' k = None"
      moreover from this gt have "c0 < c" by blast
      ultimately show ?thesis
        using True unfolding find at by (intro disjI1 exI [of _ c] exI [of _ q]) auto
    next
      assume none: "\<forall>c. at ?t c k = None" and f: "find_node ?t k ?found = ?found"
      show ?thesis
      proof (cases p)
        case None
        then show ?thesis using none f unfolding find at by (intro disjI2) auto
      next
        case (Some q)
        then show ?thesis using none f True unfolding find at
          by (intro disjI1 exI [of _ c0] exI [of _ q]) simp
      qed
    qed
  qed
qed simp

section \<open>Insertion\<close>

definition inserted :: "'a::len word \<Rightarrow> nat \<Rightarrow> 'p \<Rightarrow> ('a, 'p) trie \<Rightarrow> ('a, 'p) trie \<Rightarrow> bool" where
  "inserted key cidr p t t' \<longleftrightarrow>
     trie_wf t' \<and>
     (\<forall>c k. at t' c k = (if c = cidr \<and> pre cidr key k then Some p else at t c k)) \<and>
     (\<forall>c b v. below c b v t \<longrightarrow> c < cidr \<longrightarrow> pre c b key \<longrightarrow> kbit key c = v \<longrightarrow> below c b v t')"

lemma insertedI:
  assumes "trie_wf t'" "\<And>c k. at t' c k = (if c = cidr \<and> pre cidr key k then Some p else at t c k)"
    "\<And>c b v. below c b v t \<Longrightarrow> c < cidr \<Longrightarrow> pre c b key \<Longrightarrow> kbit key c = v \<Longrightarrow> below c b v t'"
  shows "inserted key cidr p t t'"
  using assms by (simp add: inserted_def)

lemma insert_leaf:
  fixes key :: "'a::len word"
  assumes "ip_width TYPE('a)" "cidr \<le> LENGTH('a)"
  shows "inserted key cidr p Nil_node (Node (Some p) cidr key Nil_node Nil_node)"
  using assms by (intro insertedI) (auto simp: prefix_matches_pre)

lemma insert_here:
  fixes key :: "'a::len word"
  assumes "ip_width TYPE('a)" "trie_wf (Node q cidr b l r)" "pre cidr b key"
  shows "inserted key cidr p (Node q cidr b l r) (Node (Some p) cidr b l r)"
proof (intro insertedI)
  show wf: "trie_wf (Node (Some p) cidr b l r)" using assms(2) by simp
  have "pre cidr b k = pre cidr key k" for k using assms(3) by (meson pre_sym pre_trans)
  then show "at (Node (Some p) cidr b l r) c k =
      (if c = cidr \<and> pre cidr key k then Some p else at (Node q cidr b l r) c k)" for c k
    unfolding at_wf [OF assms(1) wf] at_wf [OF assms(1,2)] by simp
qed simp

lemma insert_child:
  fixes key :: "'a::len word"
  assumes "ip_width TYPE('a)" "trie_wf (Node q c0 b l r)" "pre c0 b key" "c0 < cidr"
    and ins: "inserted key cidr p (if kbit key c0 then r else l) t'"
  shows "inserted key cidr p (Node q c0 b l r)
    (if kbit key c0 then Node q c0 b l t' else Node q c0 b t' r)" (is "inserted _ _ _ ?t ?t'")
proof (intro insertedI)
  have bel: "below c0 b (kbit key c0) t'"
    using ins assms(2-4) by (auto simp: inserted_def split: if_splits)
  have "t' \<noteq> Nil_node"
  proof
    assume "t' = Nil_node"
    moreover have "at t' cidr key = Some p" using ins by (simp add: inserted_def)
    ultimately show False by simp
  qed
  with bel ins assms(2) show wf: "trie_wf ?t'" by (auto simp: inserted_def)
  fix c k
  have ch: "at (if kbit k c0 then (if kbit key c0 then t' else r) else (if kbit key c0 then l else t')) c k =
      (if kbit k c0 = kbit key c0 \<and> c = cidr \<and> pre cidr key k then Some p
       else at (if kbit k c0 then r else l) c k)"
    using ins by (auto simp: inserted_def)
  have eq: "?t' = Node q c0 b (if kbit key c0 then l else t') (if kbit key c0 then t' else r)" by simp
  have "c = cidr \<and> pre cidr key k \<Longrightarrow> c0 \<le> c \<and> c0 \<noteq> c \<and> pre c0 b k \<and> kbit k c0 = kbit key c0"
    using assms(3,4) by (metis less_imp_le less_irrefl pre_kbit pre_mono pre_trans)
  then show "at ?t' c k = (if c = cidr \<and> pre cidr key k then Some p else at ?t c k)"
    unfolding eq at_wf [OF assms(1) wf [unfolded eq]] at_wf [OF assms(1,2)] using ch by auto
qed auto

text \<open>The new node goes above the old subtree, or beside it under a node without a peer.\<close>

lemma below_none:
  fixes t :: "('a::len, 'p) trie"
  assumes "ip_width TYPE('a)" "trie_wf t" "below c b v t" "\<not> (c < cd \<and> pre c b k \<and> kbit k c = v)"
  shows "at t cd k = None"
  using at_below [OF assms(1-3), of cd k] assms(4) by (cases "at t cd k") auto

lemma insert_above:
  fixes key :: "'a::len word"
  assumes "ip_width TYPE('a)" "trie_wf t" "t = Node q c0 b l r" "pre cidr b key" "cidr < c0"
  shows "inserted key cidr p t
    (if kbit b cidr then Node (Some p) cidr key Nil_node t else Node (Some p) cidr key t Nil_node)"
    (is "inserted _ _ _ _ ?t'")
proof (intro insertedI)
  have bel: "below cidr key (kbit b cidr) t" using assms(3-5) by (simp add: pre_sym)
  have le: "cidr \<le> LENGTH('a)" using assms(2,3,5) by simp
  show wf: "trie_wf ?t'" using bel assms(2) le by auto
  fix c k
  have eq: "?t' = Node (Some p) cidr key (if kbit b cidr then Nil_node else t) (if kbit b cidr then t else Nil_node)"
    by simp
  show "at ?t' c k = (if c = cidr \<and> pre cidr key k then Some p else at t c k)"
    unfolding eq at_wf [OF assms(1) wf [unfolded eq]] using below_none [OF assms(1,2) bel, of c k] by auto
next
  show "below c b' v ?t'" if "c < cidr" "pre c b' key" "kbit key c = v" for c b' v
    using that by auto
qed

lemma insert_beside:
  fixes key :: "'a::len word"
  assumes "ip_width TYPE('a)" "trie_wf t" "t = Node q c0 b l r" "cidr \<le> LENGTH('a)"
    "pre m b key" "kbit b m \<noteq> kbit key m" "m < c0" "m < cidr"
  shows "inserted key cidr p t
    (if kbit key m then Node None m key t (Node (Some p) cidr key Nil_node Nil_node)
     else Node None m key (Node (Some p) cidr key Nil_node Nil_node) t)"
    (is "inserted _ _ _ _ ?t'")
proof (intro insertedI)
  let ?n = "Node (Some p) cidr key Nil_node Nil_node"
  have bel: "below m key (\<not> kbit key m) t" using assms(3,5-7) by (auto simp: pre_sym)
  show wf: "trie_wf ?t'" using bel assms(2-4,8) by auto
  have nwf: "trie_wf ?n" using assms(4) by simp
  fix c k
  have eq: "?t' = Node None m key (if kbit key m then t else ?n) (if kbit key m then ?n else t)" by simp
  show "at ?t' c k = (if c = cidr \<and> pre cidr key k then Some p else at t c k)"
    unfolding eq at_wf [OF assms(1) wf [unfolded eq]]
    using below_none [OF assms(1,2) bel, of c k] assms(8) at_wf [OF assms(1) nwf, of c k]
    by (auto dest: pre_kbit intro: pre_mono)
next
  show "below c b' v ?t'" if "below c b' v t" "c < cidr" "pre c b' key" "kbit key c = v" for c b' v
  proof -
    have "c < m"
    proof (rule ccontr)
      assume "\<not> c < m"
      then consider "c = m" | "m < c" by linarith
      then have "kbit b m = kbit key m"
        by cases (use that assms(3) in \<open>auto dest: pre_kbit\<close>)
      with assms(6) show False by simp
    qed
    with that show ?thesis by auto
  qed
qed

lemma common_bits_split:
  fixes b key :: "'a::len word"
  assumes "ip_width TYPE('a)" "common_bits b key < LENGTH('a)"
  shows "pre (common_bits b key) b key" "kbit b (common_bits b key) \<noteq> kbit key (common_bits b key)"
proof -
  let ?m = "common_bits b key"
  show p: "pre ?m b key" using common_bits_pre [OF assms(1), of ?m b key] assms(2) by simp
  have "\<not> pre (Suc ?m) b key" using common_bits_pre [OF assms(1), of "Suc ?m" b key] assms(2) by simp
  with p show "kbit b ?m \<noteq> kbit key ?m" by (simp add: pre_Suc)
qed

lemma add_node_inserted:
  fixes key :: "'a::len word"
  assumes "ip_width TYPE('a)" "cidr \<le> LENGTH('a)"
  shows "trie_wf t \<Longrightarrow> add_node ok1 ok2 key cidr p t = Some t' \<Longrightarrow> inserted key cidr p t t'"
proof (induction t arbitrary: t')
  case Nil_node
  then show ?case using insert_leaf [OF assms] by (auto split: if_splits)
next
  case (Node q c0 b l r)
  have c0: "c0 \<le> LENGTH('a)" using Node.prems(1) by simp
  note pm = prefix_matches_pre [OF assms(1) c0, of b key]
  show ?case
  proof (cases "c0 \<le> cidr \<and> pre c0 b key")
    case True
    show ?thesis
    proof (cases "c0 = cidr")
      case True
      with \<open>c0 \<le> cidr \<and> pre c0 b key\<close> Node.prems pm insert_here [OF assms(1) Node.prems(1) [unfolded True]]
      show ?thesis by auto
    next
      case False
      with True assms(2) have lt: "c0 < cidr" "choose_bit c0 key = kbit key c0"
        using choose_bit_kbit [OF assms(1), of c0 key] by auto
      from Node.prems(2) True False lt(2) pm obtain u where
        u: "add_node ok1 ok2 key cidr p (if kbit key c0 then r else l) = Some u"
          "t' = (if kbit key c0 then Node q c0 b l u else Node q c0 b u r)"
        by (auto split: if_splits)
      have "inserted key cidr p (if kbit key c0 then r else l) u"
        using Node.IH Node.prems(1) u(1) by (auto split: if_splits)
      from insert_child [OF assms(1) Node.prems(1) _ lt(1) this] True u(2) show ?thesis by simp
    qed
  next
    case False
    let ?m = "common_bits b key" and ?t = "Node q c0 b l r"
    have c0_pre: "pre c0 b key \<longleftrightarrow> c0 \<le> ?m" using common_bits_pre [OF assms(1) c0] by simp
    show ?thesis
    proof (cases "cidr \<le> ?m")
      case True
      then have "cidr < c0" "pre cidr b key"
        using False c0_pre common_bits_pre [OF assms(1,2), of b key] by auto
      moreover have "t' = (if kbit b cidr then Node (Some p) cidr key Nil_node ?t else Node (Some p) cidr key ?t Nil_node)"
        using Node.prems(2) False True pm calculation(1) c0 choose_bit_kbit [OF assms(1), of cidr b]
        by (auto simp: connect_def Let_def split: if_splits)
      ultimately show ?thesis using insert_above [OF assms(1) Node.prems(1) refl, of cidr key p] by simp
    next
      case m: False
      then have lt: "?m < cidr" "?m < c0" using False c0_pre by auto
      then have len: "?m < LENGTH('a)" using assms(2) by simp
      note split = common_bits_split [OF assms(1) len]
      have "t' = (if kbit key ?m then Node None ?m key ?t (Node (Some p) cidr key Nil_node Nil_node)
          else Node None ?m key (Node (Some p) cidr key Nil_node Nil_node) ?t)"
        using Node.prems(2) False m pm split(2) choose_bit_kbit [OF assms(1) len]
        by (auto simp: connect_def Let_def split: if_splits)
      then show ?thesis using insert_beside [OF assms(1) Node.prems(1) refl assms(2) split lt(2,1), of p] by simp
    qed
  qed
qed

section \<open>Removal\<close>

definition removed :: "'a::len word \<Rightarrow> nat \<Rightarrow> ('a, 'p) trie \<Rightarrow> ('a, 'p) trie \<Rightarrow> bool" where
  "removed key cidr t t' \<longleftrightarrow>
     trie_wf t' \<and> (\<forall>c k. at t' c k = (if c = cidr \<and> pre cidr key k then None else at t c k)) \<and>
     (\<forall>c b v. below c b v t \<longrightarrow> below c b v t')"

lemma removedI:
  assumes "trie_wf t'" "\<And>c k. at t' c k = (if c = cidr \<and> pre cidr key k then None else at t c k)"
    "\<And>c b v. below c b v t \<Longrightarrow> below c b v t'"
  shows "removed key cidr t t'"
  using assms by (simp add: removed_def)

lemma remove_here:
  fixes key :: "'a::len word"
  assumes "ip_width TYPE('a)" "trie_wf (Node p cidr b l r)" "pre cidr b key"
  shows "removed key cidr (Node p cidr b l r) (splice (Node p cidr b l r))" (is "removed _ _ ?t ?t'")
proof (intro removedI)
  have pre_eq: "pre cidr b k = pre cidr key k" for k using assms(3) by (meson pre_sym pre_trans)
  have bl: "below cidr b False l" "below cidr b True r" "trie_wf l" "trie_wf r" using assms(2) by auto
  show wf: "trie_wf ?t'" using assms(2) by auto
  show "below c b' v ?t'" if "below c b' v ?t" for c b' v
    using that below_child [OF that bl(1)] below_child [OF that bl(2)] by auto
  fix c k
  note l = below_none [OF assms(1) bl(3,1), of c k] and r = below_none [OF assms(1) bl(4,2), of c k]
  show "at ?t' c k = (if c = cidr \<and> pre cidr key k then None else at ?t c k)"
  proof (cases "l \<noteq> Nil_node \<and> r \<noteq> Nil_node")
    case True
    then have "?t' = Node None cidr b l r" by simp
    with wf have "trie_wf (Node None cidr b l r)" by simp
    from at_wf [OF assms(1) this] show ?thesis
      unfolding at_wf [OF assms(1,2)] \<open>?t' = _\<close> by (auto simp: pre_eq)
  next
    case False
    then have "?t' = (if l = Nil_node then r else l)" by auto
    with False l r show ?thesis unfolding at_wf [OF assms(1,2)] by (auto simp: pre_eq)
  qed
qed

lemma remove_child:
  fixes key :: "'a::len word"
  assumes "ip_width TYPE('a)" "trie_wf (Node p c0 b l r)" "pre c0 b key" "c0 < cidr"
    and rem: "removed key cidr (if kbit key c0 then r else l) t'" and ne: "t' \<noteq> Nil_node \<or> p \<noteq> None"
  shows "removed key cidr (Node p c0 b l r)
    (if kbit key c0 then Node p c0 b l t' else Node p c0 b t' r)" (is "removed _ _ ?t ?t'")
proof (intro removedI)
  have "below c0 b (kbit key c0) t'" using rem assms(2) by (auto simp: removed_def split: if_splits)
  with rem ne assms(2) show wf: "trie_wf ?t'" by (auto simp: removed_def)
  show "below c b' v ?t'" if "below c b' v ?t" for c b' v using that by auto
  fix c k
  have eq: "?t' = Node p c0 b (if kbit key c0 then l else t') (if kbit key c0 then t' else r)" by simp
  have "c = cidr \<and> pre cidr key k \<Longrightarrow> c0 \<noteq> c \<and> kbit k c0 = kbit key c0"
    using assms(3,4) by (metis less_irrefl pre_kbit)
  then show "at ?t' c k = (if c = cidr \<and> pre cidr key k then None else at ?t c k)"
    unfolding eq at_wf [OF assms(1) wf [unfolded eq]] at_wf [OF assms(1,2)] using rem
    by (auto simp: removed_def)
qed

text \<open>A childless node and its peerless parent: the sibling moves up.\<close>

lemma remove_with_parent:
  fixes key :: "'a::len word"
  assumes "ip_width TYPE('a)" "trie_wf (Node None c0 b l r)" "c0 < cidr"
    and leaf: "(if kbit key c0 then r else l) = Node q cidr b' Nil_node Nil_node" and m: "pre cidr b' key"
  shows "removed key cidr (Node None c0 b l r) (if kbit key c0 then l else r)" (is "removed _ _ ?t ?t'")
proof (intro removedI)
  have bl: "below c0 b False l" "below c0 b True r" "trie_wf l" "trie_wf r" using assms(2) by auto
  show "trie_wf ?t'" using bl by simp
  show "below c a v ?t'" if "below c a v ?t" for c a v
    using below_child [OF that bl(1)] below_child [OF that bl(2)] by auto
  fix c k
  have pre_eq: "pre cidr b' k = pre cidr key k" using m by (meson pre_sym pre_trans)
  have lf: "at (Node q cidr b' Nil_node Nil_node) c k = (if cidr = c \<and> pre cidr key k then q else None)"
    using at_wf [OF assms(1), of q cidr b' Nil_node Nil_node c k] leaf bl pre_eq by (auto split: if_splits)
  note l = below_none [OF assms(1) bl(3,1), of c k] and r = below_none [OF assms(1) bl(4,2), of c k]
  have "c = cidr \<and> pre cidr key k \<Longrightarrow> kbit k c0 = kbit key c0"
    using assms(3) by (metis pre_kbit)
  then show "at ?t' c k = (if c = cidr \<and> pre cidr key k then None else at ?t c k)"
    unfolding at_wf [OF assms(1,2)] using lf leaf l r by (auto split: if_splits)
qed

lemma at_path:
  fixes key :: "'a::len word"
  assumes "ip_width TYPE('a)" "trie_wf (Node q c0 b l r)" "at (Node q c0 b l r) cidr key = Some p" "c0 \<noteq> cidr"
  shows "c0 < cidr" "pre c0 b key" "at (if kbit key c0 then r else l) cidr key = Some p"
    "choose_bit c0 key = kbit key c0"
proof -
  show *: "c0 < cidr" "pre c0 b key" "at (if kbit key c0 then r else l) cidr key = Some p"
    using at_wf [OF assms(1,2), of cidr key] assms(3,4) by (auto split: if_splits)
  have "(if kbit key c0 then r else l) \<noteq> Nil_node" using *(3) by auto
  then have "c0 < LENGTH('a)" using full_length_leaf [OF assms(2)] by (auto split: if_splits)
  then show "choose_bit c0 key = kbit key c0" by (rule choose_bit_kbit [OF assms(1)])
qed

lemma remove_at_Nil:
  fixes t :: "('a::len, 'p) trie"
  assumes "ip_width TYPE('a)" "trie_wf t" "at t cidr key = Some p" "remove_at key cidr t = Nil_node"
  shows "is_leaf t \<and> n_cidr t = cidr"
proof (cases t)
  case (Node q c0 b l r)
  show ?thesis
  proof (cases "c0 = cidr")
    case True
    with assms(4) Node show ?thesis by (auto simp: is_leaf_def split: if_splits)
  next
    case False
    have "q = None \<longrightarrow> l \<noteq> Nil_node \<and> r \<noteq> Nil_node" using assms(2) Node by simp
    with assms(4) Node False show ?thesis by (auto split: if_splits)
  qed
qed (use assms in simp)

lemma remove_at_removed:
  fixes key :: "'a::len word"
  assumes "ip_width TYPE('a)"
  shows "trie_wf t \<Longrightarrow> at t cidr key = Some p \<Longrightarrow> removed key cidr t (remove_at key cidr t)"
proof (induction t)
  case (Node q c0 b l r)
  show ?case
  proof (cases "c0 = cidr")
    case True
    then have "pre cidr b key"
      using at_wf [OF assms Node.prems(1), of cidr key] Node.prems(2) by (auto split: if_splits)
    with True remove_here [OF assms Node.prems(1) [unfolded True]] show ?thesis by simp
  next
    case False
    note path = at_path [OF assms Node.prems False]
    let ?c = "if kbit key c0 then r else l"
    have wf: "trie_wf ?c" using Node.prems(1) by simp
    show ?thesis
    proof (cases "is_leaf ?c \<and> n_cidr ?c = cidr \<and> q = None")
      case True
      then obtain q' b' where leaf: "?c = Node q' cidr b' Nil_node Nil_node"
        by (cases ?c) (auto simp: is_leaf_def)
      with path(3) wf have "pre cidr b' key"
        using at_wf [OF assms, of q' cidr b' Nil_node Nil_node cidr key] by (auto split: if_splits)
      moreover have "remove_at key cidr (Node q c0 b l r) = (if kbit key c0 then l else r)"
        using True False path(4) by (auto split: if_splits)
      ultimately show ?thesis
        using remove_with_parent [OF assms _ path(1) leaf] Node.prems(1) True by simp
    next
      case nl: False
      have "removed key cidr ?c (remove_at key cidr ?c)" using Node.IH wf path(3) by (auto split: if_splits)
      moreover have "remove_at key cidr ?c \<noteq> Nil_node \<or> q \<noteq> None"
        using remove_at_Nil [OF assms wf path(3)] nl by auto
      moreover have "remove_at key cidr (Node q c0 b l r) =
          (if kbit key c0 then Node q c0 b l (remove_at key cidr ?c) else Node q c0 b (remove_at key cidr ?c) r)"
        using nl False path(4) by (auto split: if_splits)
      ultimately show ?thesis using remove_child [OF assms Node.prems(1) path(2,1)] by simp
    qed
  qed
qed simp

lemma placement_at:
  "node_placement t key cidr par = (True, n) \<Longrightarrow> n_peer n = at t cidr key"
  by (induction t arbitrary: par) (auto split: if_splits)

lemma placement_found:
  "at t cidr key = Some p \<Longrightarrow> \<exists>n. node_placement t key cidr par = (True, n)"
  by (induction t arbitrary: par) (auto split: if_splits)

lemma remove_ip_eq:
  fixes t :: "('a::len, 'p) trie"
  shows "remove_ip key cidr p t =
    (if cidr > LENGTH('a) then (Some EINVAL, t)
     else (None, if at t cidr key = Some p then remove_at key cidr t else t))"
proof -
  obtain e n where pl: "node_placement t key cidr Nil_node = (e, n)" by fastforce
  show ?thesis
  proof (cases e)
    case True
    with pl placement_at [of t key cidr Nil_node n] show ?thesis by (simp add: remove_ip_def)
  next
    case False
    with pl placement_found [of t cidr key _ Nil_node] have "at t cidr key \<noteq> Some p" for p by fastforce
    with False pl show ?thesis by (simp add: remove_ip_def)
  qed
qed

end
