(* ===== verification/Allowed_Table.thy ===== *)
theory Allowed_Table
  imports Allowed_Ips
begin

text \<open>
  The table of allowed addresses with its two tries and the per-peer lists of nodes
  (\<open>struct allowedips\<close> and the exported functions of kernel/allowedips.c). The locale
  \<open>prefix_table\<close> is the contract of one trie; it is interpreted on the operations of
  Allowed\_Ips at both address widths, and the properties of the table rest on it.
\<close>

unbundle bit_operations_syntax

section \<open>The contract of a prefix table\<close>

definition longest :: "(nat \<Rightarrow> 'k \<Rightarrow> 'p option) \<Rightarrow> 'k \<Rightarrow> 'p option \<Rightarrow> bool" where
  "longest m k res \<longleftrightarrow>
     (case res of
        None \<Rightarrow> \<forall>c. m c k = None
      | Some p \<Rightarrow> \<exists>c. m c k = Some p \<and> (\<forall>c'>c. m c' k = None))"

lemma longest_unique: "longest m k a \<Longrightarrow> longest m k b \<Longrightarrow> a = b"
  unfolding longest_def
  by (cases a; cases b) (auto, metis linorder_neqE_nat option.distinct(1) option.inject)

locale prefix_table =
  fixes wf :: "'t \<Rightarrow> bool"
    and look :: "'t \<Rightarrow> nat \<Rightarrow> 'k \<Rightarrow> 'p option"
    and ins :: "'o \<Rightarrow> 'k \<Rightarrow> nat \<Rightarrow> 'p \<Rightarrow> 't \<Rightarrow> errno option \<times> 't"
    and del :: "'k \<Rightarrow> nat \<Rightarrow> 'p \<Rightarrow> 't \<Rightarrow> errno option \<times> 't"
    and find :: "'t \<Rightarrow> 'k \<Rightarrow> 'p option"
    and same :: "nat \<Rightarrow> 'k \<Rightarrow> 'k \<Rightarrow> bool"
  assumes ins_ok: "wf t \<Longrightarrow> ins out key c p t = (None, t') \<Longrightarrow>
      wf t' \<and> look t' = (\<lambda>c' k. if c' = c \<and> same c key k then Some p else look t c' k)"
    and ins_err: "ins out key c p t = (Some e, t') \<Longrightarrow> t' = t"
    and del_ok: "wf t \<Longrightarrow> del key c p t = (None, t') \<Longrightarrow>
      wf t' \<and> look t' = (\<lambda>c' k. if c' = c \<and> same c key k \<and> look t c key = Some p then None else look t c' k)"
    and del_err: "del key c p t = (Some e, t') \<Longrightarrow> t' = t"
    and find_longest: "wf t \<Longrightarrow> longest (look t) k (find t k)"
    and same_refl: "same c k k"
begin

lemma ins_wf: "wf t \<Longrightarrow> wf (snd (ins out key c p t))"
  by (cases "ins out key c p t", cases "fst (ins out key c p t)") (auto dest: ins_ok ins_err)

lemma del_wf: "wf t \<Longrightarrow> wf (snd (del key c p t))"
  by (cases "del key c p t", cases "fst (del key c p t)") (auto dest: del_ok del_err)

text \<open>What a lookup finds is what the exact entries of the table determine.\<close>

lemma find_eqI: "wf t \<Longrightarrow> longest (look t) k r \<Longrightarrow> find t k = r"
  using find_longest longest_unique by metis

lemma find_inserted:
  assumes "wf t" "ins out key c p t = (None, t')" "same c key k" "\<And>c'. c < c' \<Longrightarrow> look t c' k = None"
  shows "find t' k = Some p"
proof -
  from ins_ok [OF assms(1,2)] have "wf t'" "look t' = (\<lambda>c' k. if c' = c \<and> same c key k then Some p else look t c' k)"
    by auto
  then show ?thesis using assms(3,4) by (intro find_eqI) (auto simp: longest_def)
qed

lemma find_unrelated:
  assumes "wf t" "ins out key c p t = (None, t')" "\<not> same c key k"
  shows "find t' k = find t k"
proof -
  from ins_ok [OF assms(1,2)] have t': "wf t'" "look t' = (\<lambda>c' k. if c' = c \<and> same c key k then Some p else look t c' k)"
    by auto
  have "longest (look t') k (find t k)"
    using find_longest [OF assms(1), of k] assms(3) by (auto simp: longest_def t'(2) split: option.splits)
  with t'(1) show ?thesis by (rule find_eqI)
qed

end

section \<open>The operations of the trie satisfy it\<close>

definition ins_op :: "bool \<times> bool \<Rightarrow> 'a::len word \<Rightarrow> nat \<Rightarrow> 'p \<Rightarrow> ('a, 'p) trie \<Rightarrow> errno option \<times> ('a, 'p) trie" where
  "ins_op out key c p t = add_ip (fst out) (snd out) key c (Some p) t"

definition find_op :: "('a::len, 'p) trie \<Rightarrow> 'a word \<Rightarrow> 'p option" where
  "find_op t k = find_node t k None"

lemma trie_ins_ok:
  fixes t :: "('a::len, 'p) trie"
  assumes "ip_width TYPE('a)" "trie_wf t" "ins_op out key c p t = (None, t')"
  shows "trie_wf t' \<and> at t' = (\<lambda>c' k. if c' = c \<and> pre c key k then Some p else at t c' k)"
proof -
  have "c \<le> LENGTH('a)" "add_node (fst out) (snd out) key c p t = Some t'"
    using assms(3) by (auto simp: ins_op_def add_ip_def split: if_splits option.splits)
  from add_node_inserted [OF assms(1) this(1) assms(2) this(2)] show ?thesis
    by (auto simp: inserted_def fun_eq_iff)
qed

lemma trie_del_ok:
  fixes t :: "('a::len, 'p) trie"
  assumes "ip_width TYPE('a)" "trie_wf t" "remove_ip key c p t = (None, t')"
  shows "trie_wf t' \<and>
    at t' = (\<lambda>c' k. if c' = c \<and> pre c key k \<and> at t c key = Some p then None else at t c' k)"
proof (cases "at t c key = Some p")
  case True
  then have "t' = remove_at key c t" using assms(3) by (auto simp: remove_ip_eq split: if_splits)
  with remove_at_removed [OF assms(1,2) True] True show ?thesis by (auto simp: removed_def fun_eq_iff)
next
  case False
  then show ?thesis using assms by (auto simp: remove_ip_eq split: if_splits)
qed

lemma trie_find_longest:
  fixes t :: "('a::len, 'p) trie"
  assumes "ip_width TYPE('a)" "trie_wf t"
  shows "longest (at t) k (find_op t k)"
  using find_node_lpm [OF assms, of k None] by (auto simp: longest_def find_op_def)

lemma trie_ins_err: "ins_op out key c p t = (Some e, t') \<Longrightarrow> t' = t"
  by (auto simp: ins_op_def add_ip_def split: if_splits option.splits)

lemma trie_del_err: "remove_ip key c p t = (Some e, t') \<Longrightarrow> t' = t"
  by (auto simp: remove_ip_eq split: if_splits)

interpretation ip4: prefix_table trie_wf at ins_op remove_ip find_op "pre :: nat \<Rightarrow> u32 \<Rightarrow> u32 \<Rightarrow> bool"
proof (unfold_locales, goal_cases)
  case 1 then show ?case by (rule trie_ins_ok [OF ip_width_32])
next
  case 2 then show ?case by (rule trie_ins_err)
next
  case 3 then show ?case by (rule trie_del_ok [OF ip_width_32])
next
  case 4 then show ?case by (rule trie_del_err)
next
  case 5 then show ?case by (rule trie_find_longest [OF ip_width_32])
qed simp

interpretation ip6: prefix_table trie_wf at ins_op remove_ip find_op "pre :: nat \<Rightarrow> addr6 \<Rightarrow> addr6 \<Rightarrow> bool"
proof (unfold_locales, goal_cases)
  case 1 then show ?case by (rule trie_ins_ok [OF ip_width_128])
next
  case 2 then show ?case by (rule trie_ins_err)
next
  case 3 then show ?case by (rule trie_del_ok [OF ip_width_128])
next
  case 4 then show ?case by (rule trie_del_err)
next
  case 5 then show ?case by (rule trie_find_longest [OF ip_width_128])
qed simp

section \<open>The table\<close>

text \<open>\<open>swap_endian\<close>: a network-order byte string as a host-order word.\<close>

definition swap_endian :: "bytes \<Rightarrow> 'a::len word" where
  "swap_endian src = of_nat (foldl (\<lambda>acc b. acc * 256 + unat b) 0 src)"

text \<open>
  A node on a peer's list, as \<open>wg_allowedips_read_node\<close> identifies it: its prefix with the
  bits after it cleared, and its length.
\<close>

datatype al_key = K4 u32 nat | K6 addr6 nat

definition mask_key :: "nat \<Rightarrow> 'a::len word \<Rightarrow> 'a word" where
  "mask_key c k = push_bit (LENGTH('a) - c) (drop_bit (LENGTH('a) - c) k)"

record 'p allowedips =
  root4 :: "(32, 'p) trie"
  root6 :: "(128, 'p) trie"
  al_seq :: u64
  al_lists :: "'p \<Rightarrow> al_key list"

definition wg_allowedips_init :: "'p allowedips" where
  "wg_allowedips_init = \<lparr>root4 = Nil_node, root6 = Nil_node, al_seq = 1, al_lists = (\<lambda>_. [])\<rparr>"

text \<open>\<open>list_del\<close> of a node from the list of the peer that had it.\<close>

definition al_unlink :: "'p option \<Rightarrow> al_key \<Rightarrow> ('p \<Rightarrow> al_key list) \<Rightarrow> 'p \<Rightarrow> al_key list" where
  "al_unlink old e ls =
     (case old of None \<Rightarrow> ls | Some q \<Rightarrow> ls(q := filter (\<lambda>x. x \<noteq> e) (ls q)))"

text \<open>\<open>list_add_tail\<close> of a new node, \<open>list_move_tail\<close> of an existing one.\<close>

definition al_move :: "'p option \<Rightarrow> 'p \<Rightarrow> al_key \<Rightarrow> ('p \<Rightarrow> al_key list) \<Rightarrow> 'p \<Rightarrow> al_key list" where
  "al_move old p e ls = (let ls1 = al_unlink old e ls in ls1(p := ls1 p @ [e]))"

definition wg_allowedips_insert_v4 ::
  "bool \<times> bool \<Rightarrow> bytes \<Rightarrow> nat \<Rightarrow> 'p option \<Rightarrow> 'p allowedips \<Rightarrow> errno option \<times> 'p allowedips" where
  "wg_allowedips_insert_v4 out ip cidr peer table =
     (let key = swap_endian ip; table1 = table\<lparr>al_seq := al_seq table + 1\<rparr> in
      case add_ip (fst out) (snd out) key cidr peer (root4 table1) of
        (Some e, _) \<Rightarrow> (Some e, table1)
      | (None, r) \<Rightarrow>
          (None, table1\<lparr>root4 := r,
             al_lists := al_move (at (root4 table) cidr key) (the peer) (K4 (mask_key cidr key) cidr)
                           (al_lists table1)\<rparr>))"

definition wg_allowedips_insert_v6 ::
  "bool \<times> bool \<Rightarrow> bytes \<Rightarrow> nat \<Rightarrow> 'p option \<Rightarrow> 'p allowedips \<Rightarrow> errno option \<times> 'p allowedips" where
  "wg_allowedips_insert_v6 out ip cidr peer table =
     (let key = swap_endian ip; table1 = table\<lparr>al_seq := al_seq table + 1\<rparr> in
      case add_ip (fst out) (snd out) key cidr peer (root6 table1) of
        (Some e, _) \<Rightarrow> (Some e, table1)
      | (None, r) \<Rightarrow>
          (None, table1\<lparr>root6 := r,
             al_lists := al_move (at (root6 table) cidr key) (the peer) (K6 (mask_key cidr key) cidr)
                           (al_lists table1)\<rparr>))"

definition wg_allowedips_remove_v4 ::
  "bytes \<Rightarrow> nat \<Rightarrow> 'p \<Rightarrow> 'p allowedips \<Rightarrow> errno option \<times> 'p allowedips" where
  "wg_allowedips_remove_v4 ip cidr peer table =
     (let key = swap_endian ip; table1 = table\<lparr>al_seq := al_seq table + 1\<rparr> in
      case remove_ip key cidr peer (root4 table1) of
        (Some e, _) \<Rightarrow> (Some e, table1)
      | (None, r) \<Rightarrow>
          (None, table1\<lparr>root4 := r,
             al_lists := (if at (root4 table) cidr key = Some peer
                          then al_unlink (Some peer) (K4 (mask_key cidr key) cidr) (al_lists table1)
                          else al_lists table1)\<rparr>))"

definition wg_allowedips_remove_v6 ::
  "bytes \<Rightarrow> nat \<Rightarrow> 'p \<Rightarrow> 'p allowedips \<Rightarrow> errno option \<times> 'p allowedips" where
  "wg_allowedips_remove_v6 ip cidr peer table =
     (let key = swap_endian ip; table1 = table\<lparr>al_seq := al_seq table + 1\<rparr> in
      case remove_ip key cidr peer (root6 table1) of
        (Some e, _) \<Rightarrow> (Some e, table1)
      | (None, r) \<Rightarrow>
          (None, table1\<lparr>root6 := r,
             al_lists := (if at (root6 table) cidr key = Some peer
                          then al_unlink (Some peer) (K6 (mask_key cidr key) cidr) (al_lists table1)
                          else al_lists table1)\<rparr>))"

text \<open>\<open>remove_node\<close> on a node of a peer's list.\<close>

fun al_remove_node :: "al_key \<Rightarrow> 'p allowedips \<Rightarrow> 'p allowedips" where
  "al_remove_node (K4 k c) table =
     table\<lparr>root4 := remove_at k c (root4 table),
           al_lists := al_unlink (at (root4 table) c k) (K4 k c) (al_lists table)\<rparr>"
| "al_remove_node (K6 k c) table =
     table\<lparr>root6 := remove_at k c (root6 table),
           al_lists := al_unlink (at (root6 table) c k) (K6 k c) (al_lists table)\<rparr>"

definition wg_allowedips_remove_by_peer :: "'p \<Rightarrow> 'p allowedips \<Rightarrow> 'p allowedips" where
  "wg_allowedips_remove_by_peer peer table =
     (if al_lists table peer = [] then table
      else fold al_remove_node (al_lists table peer) (table\<lparr>al_seq := al_seq table + 1\<rparr>))"

definition wg_allowedips_lookup_v4 :: "('p \<Rightarrow> bool) \<Rightarrow> 'p allowedips list \<Rightarrow> bytes \<Rightarrow> 'p option option" where
  "wg_allowedips_lookup_v4 alive seen ip = lookup alive (map root4 seen) (swap_endian ip)"

definition wg_allowedips_lookup_v6 :: "('p \<Rightarrow> bool) \<Rightarrow> 'p allowedips list \<Rightarrow> bytes \<Rightarrow> 'p option option" where
  "wg_allowedips_lookup_v6 alive seen ip = lookup alive (map root6 seen) (swap_endian ip)"

text \<open>The header a packet has determines which trie is searched and for which address.\<close>

definition wg_allowedips_lookup_dst ::
  "('p \<Rightarrow> bool) \<Rightarrow> 'p allowedips list \<Rightarrow> u16 \<Rightarrow> net_hdr \<Rightarrow> 'p option option" where
  "wg_allowedips_lookup_dst alive seen protocol hdr =
     (if protocol = ETH_P_IP then
        (case hdr of V4_hdr h \<Rightarrow> lookup alive (map root4 seen) (ip_daddr h) | _ \<Rightarrow> Some None)
      else if protocol = ETH_P_IPV6 then
        (case hdr of V6_hdr h \<Rightarrow> lookup alive (map root6 seen) (ip6_daddr h) | _ \<Rightarrow> Some None)
      else Some None)"

definition wg_allowedips_lookup_src ::
  "('p \<Rightarrow> bool) \<Rightarrow> 'p allowedips list \<Rightarrow> u16 \<Rightarrow> net_hdr \<Rightarrow> 'p option option" where
  "wg_allowedips_lookup_src alive seen protocol hdr =
     (if protocol = ETH_P_IP then
        (case hdr of V4_hdr h \<Rightarrow> lookup alive (map root4 seen) (ip_saddr h) | _ \<Rightarrow> Some None)
      else if protocol = ETH_P_IPV6 then
        (case hdr of V6_hdr h \<Rightarrow> lookup alive (map root6 seen) (ip6_saddr h) | _ \<Rightarrow> Some None)
      else Some None)"

text \<open>
  \<open>wg_allowedips_read_node\<close>: the bytes of the node's key in network order, with the bits
  after the prefix cleared byte by byte.
\<close>

definition be_bytes :: "'a::len word \<Rightarrow> bytes" where
  "be_bytes w = map (\<lambda>i. ucast (drop_bit (LENGTH('a) - 8 * Suc i) w)) [0..<LENGTH('a) div 8]"

definition wg_allowedips_read_node :: "'a::len word \<Rightarrow> nat \<Rightarrow> bytes \<times> nat \<times> u16" where
  "wg_allowedips_read_node bits cidr =
     (let cidr_bytes = (cidr + 7) div 8;
          ip = take cidr_bytes (be_bytes bits) @ replicate (LENGTH('a) div 8 - cidr_bytes) 0;
          ip1 = (if cidr \<noteq> 0
                 then ip[cidr_bytes - 1 := ip ! (cidr_bytes - 1) AND push_bit ((8 - cidr mod 8) mod 8) (- 1)]
                 else ip)
      in (ip1, cidr, if LENGTH('a) = 32 then AF_INET else AF_INET6))"

section \<open>The nodes on the lists\<close>

lemma kbit_mask_key:
  fixes k :: "'a::len word"
  assumes "c \<le> LENGTH('a)" "i < LENGTH('a)"
  shows "kbit (mask_key c k) i \<longleftrightarrow> i < c \<and> kbit k i"
proof -
  have "LENGTH('a) - c \<le> LENGTH('a) - Suc i \<longleftrightarrow> i < c" using assms by linarith
  moreover have "i < c \<Longrightarrow> LENGTH('a) - c + (LENGTH('a) - Suc (i + (LENGTH('a) - c))) = LENGTH('a) - Suc i"
    using assms by linarith
  ultimately show ?thesis using assms(2) by (auto simp: kbit_def mask_key_def bit_push_bit_iff bit_drop_bit_eq)
qed

lemma kbit_eqI:
  fixes a b :: "'a::len word"
  assumes "\<And>i. i < LENGTH('a) \<Longrightarrow> kbit a i = kbit b i"
  shows "a = b"
proof (rule bit_word_eqI)
  fix n assume "n < LENGTH('a)"
  then show "bit a n = bit b n" using assms [of "LENGTH('a) - 1 - n"] by (simp add: kbit_def)
qed

lemma pre_mask_key:
  fixes a b :: "'a::len word"
  assumes "c \<le> LENGTH('a)"
  shows "pre c a b \<longleftrightarrow> mask_key c a = mask_key c b"
proof
  assume "pre c a b"
  then show "mask_key c a = mask_key c b" by (intro kbit_eqI) (auto simp: kbit_mask_key assms pre_def)
next
  assume eq: "mask_key c a = mask_key c b"
  show "pre c a b" unfolding pre_def
  proof (intro allI impI)
    fix i assume "i < c"
    then show "kbit a i = kbit b i"
      using kbit_mask_key [OF assms, of i a] kbit_mask_key [OF assms, of i b] assms eq by simp
  qed
qed

lemma mask_key_idem: "c \<le> LENGTH('a) \<Longrightarrow> mask_key c (mask_key c k) = mask_key c (k :: 'a::len word)"
  by (intro kbit_eqI) (auto simp: kbit_mask_key)

lemma pre_mask_self: "c \<le> LENGTH('a) \<Longrightarrow> pre c (mask_key c k) (k :: 'a::len word)"
  by (simp add: pre_mask_key mask_key_idem)

lemma at_le:
  fixes t :: "('a::len, 'p) trie"
  assumes "ip_width TYPE('a)" "trie_wf t" "at t c k = Some p"
  shows "c \<le> LENGTH('a)"
  using assms(2,3)
proof (induction t)
  case (Node q c0 b l r)
  show ?case
  proof (cases "c0 = c")
    case True
    then show ?thesis using Node.prems(1) by simp
  next
    case False
    from at_path(3) [OF assms(1) Node.prems False] Node.IH Node.prems(1) show ?thesis
      by (cases "kbit k c0") simp_all
  qed
qed simp

lemma at_pre:
  fixes t :: "('a::len, 'p) trie"
  assumes "ip_width TYPE('a)" "trie_wf t" "pre c a b"
  shows "at t c a = at t c b"
  using assms(2)
proof (induction t)
  case (Node q c0 b0 l r)
  have eq: "pre c0 b0 a = pre c0 b0 b" if "c0 \<le> c"
    using assms(3) that by (meson pre_mono pre_sym pre_trans)
  have ch: "at (if kbit a c0 then r else l) c a = at (if kbit b c0 then r else l) c b" if "c0 \<le> c" "c0 \<noteq> c"
    using pre_kbit [OF assms(3), of c0] that Node.IH Node.prems by (cases "kbit b c0") simp_all
  show ?case
    unfolding at_wf [OF assms(1) Node.prems(1), of c a] at_wf [OF assms(1) Node.prems(1), of c b]
    by (rule if_cong) (use eq ch in auto)
qed simp

definition al_inv :: "'p allowedips \<Rightarrow> bool" where
  "al_inv tb \<longleftrightarrow>
     trie_wf (root4 tb) \<and> trie_wf (root6 tb) \<and> (\<forall>p. distinct (al_lists tb p)) \<and>
     (\<forall>p k c. K4 k c \<in> set (al_lists tb p) \<longleftrightarrow> at (root4 tb) c k = Some p \<and> mask_key c k = k) \<and>
     (\<forall>p k c. K6 k c \<in> set (al_lists tb p) \<longleftrightarrow> at (root6 tb) c k = Some p \<and> mask_key c k = k)"

lemma al_invD:
  assumes "al_inv tb"
  shows "trie_wf (root4 tb)" and "trie_wf (root6 tb)" and "distinct (al_lists tb p)"
    and "K4 k c \<in> set (al_lists tb p) \<longleftrightarrow> at (root4 tb) c k = Some p \<and> mask_key c k = k"
    and "K6 k6 c \<in> set (al_lists tb p) \<longleftrightarrow> at (root6 tb) c k6 = Some p \<and> mask_key c k6 = k6"
  using assms by (simp_all add: al_inv_def)

lemma al_inv_seq [simp]: "al_inv (tb\<lparr>al_seq := n\<rparr>) = al_inv tb"
  by (simp add: al_inv_def)

lemma al_init_inv: "al_inv wg_allowedips_init"
  by (simp add: al_inv_def wg_allowedips_init_def)

lemma unlink_set:
  "set (al_unlink old e ls q) = {x \<in> set (ls q). \<not> (x = e \<and> old = Some q)}"
  "distinct (ls q) \<Longrightarrow> distinct (al_unlink old e ls q)"
  by (auto simp: al_unlink_def split: option.split)

lemma move_set:
  "set (al_move old p e ls q) = {x \<in> set (ls q). \<not> (x = e \<and> old = Some q)} \<union> (if q = p then {e} else {})"
  by (auto simp: al_move_def Let_def unlink_set)

lemma move_distinct:
  assumes "distinct (ls q)" "e \<in> set (ls q) \<Longrightarrow> old = Some q"
  shows "distinct (al_move old p e ls q)"
  using assms by (auto simp: al_move_def Let_def unlink_set)

text \<open>
  The entry of a changed prefix on the lists of one family: what \<open>add\<close> and \<open>remove_node\<close>
  do to a trie they do to the lists.
\<close>

lemma lists_insert:
  fixes t t' :: "('a::len, 'p) trie"
  assumes "ip_width TYPE('a)" "trie_wf t" "c0 \<le> LENGTH('a)"
    and t': "at t' = (\<lambda>c k. if c = c0 \<and> pre c0 key k then Some p else at t c k)"
    and K: "\<And>k c k' c'. (K k c = K k' c') = (k = k' \<and> c = c')"
    and ls: "\<And>q k c. K k c \<in> set (ls q) \<longleftrightarrow> at t c k = Some q \<and> mask_key c k = k"
  shows "K k c \<in> set (al_move (at t c0 key) p (K (mask_key c0 key) c0) ls q) \<longleftrightarrow>
    at t' c k = Some q \<and> mask_key c k = k"
proof -
  have "mask_key c k = k \<Longrightarrow> c = c0 \<and> pre c0 key k \<longleftrightarrow> k = mask_key c0 key \<and> c = c0"
    using pre_mask_key [OF assms(3), of key k] by auto
  moreover have "at t c0 key = at t c0 (mask_key c0 key)"
    using at_pre [OF assms(1,2)] pre_mask_self [OF assms(3), of key] pre_sym by metis
  moreover have "mask_key c0 (mask_key c0 key) = mask_key c0 key" by (rule mask_key_idem [OF assms(3)])
  ultimately show ?thesis unfolding move_set t' using K ls by auto
qed

lemma lists_insert_distinct:
  fixes t :: "('a::len, 'p) trie"
  assumes "ip_width TYPE('a)" "trie_wf t" "c0 \<le> LENGTH('a)" "distinct (ls q)"
    and ls: "\<And>q k c. K k c \<in> set (ls q) \<longleftrightarrow> at t c k = Some q \<and> mask_key c k = k"
  shows "distinct (al_move (at t c0 key) p (K (mask_key c0 key) c0) ls q)"
proof (rule move_distinct [of ls, OF assms(4)])
  assume "K (mask_key c0 key) c0 \<in> set (ls q)"
  then show "at t c0 key = Some q"
    using ls at_pre [OF assms(1,2) pre_mask_self [OF assms(3), of key]] by simp
qed

lemma lists_remove:
  fixes t t' :: "('a::len, 'p) trie"
  assumes "ip_width TYPE('a)" "trie_wf t" "at t c0 key = Some p"
    and t': "at t' = (\<lambda>c k. if c = c0 \<and> pre c0 key k then None else at t c k)"
    and K: "\<And>k c k' c'. (K k c = K k' c') = (k = k' \<and> c = c')"
    and ls: "\<And>q k c. K k c \<in> set (ls q) \<longleftrightarrow> at t c k = Some q \<and> mask_key c k = k"
  shows "K k c \<in> set (al_unlink (Some p) (K (mask_key c0 key) c0) ls q) \<longleftrightarrow>
    at t' c k = Some q \<and> mask_key c k = k"
proof -
  have le: "c0 \<le> LENGTH('a)" using at_le [OF assms(1-3)] .
  have "mask_key c k = k \<Longrightarrow> c = c0 \<and> pre c0 key k \<longleftrightarrow> k = mask_key c0 key \<and> c = c0"
    using pre_mask_key [OF le, of key k] by auto
  moreover have "at t c0 (mask_key c0 key) = Some p"
    using at_pre [OF assms(1,2)] pre_mask_self [OF le, of key] assms(3) by metis
  ultimately show ?thesis unfolding unlink_set t' using K ls by auto
qed

section \<open>Every operation keeps the table well-formed\<close>

lemma insert_v4_inv:
  assumes "al_inv tb" "wg_allowedips_insert_v4 out ip c peer tb = (None, tb')"
  shows "al_inv tb' \<and> root6 tb' = root6 tb \<and> (\<exists>p. peer = Some p \<and>
    at (root4 tb') = (\<lambda>c' k. if c' = c \<and> pre c (swap_endian ip) k then Some p else at (root4 tb) c' k))"
proof -
  let ?key = "swap_endian ip :: 32 word"
  obtain r p where p: "peer = Some p" and r: "ins_op out ?key c p (root4 tb) = (None, r)" "c \<le> 32"
      and tb': "tb' = tb\<lparr>al_seq := al_seq tb + 1, root4 := r,
        al_lists := al_move (at (root4 tb) c ?key) p (K4 (mask_key c ?key) c) (al_lists tb)\<rparr>"
    using assms(2) by (cases peer) (auto simp: wg_allowedips_insert_v4_def Let_def ins_op_def add_ip_def
        split: prod.splits option.splits if_splits)
  note D = al_invD [OF assms(1)]
  note t' = ip4.ins_ok [OF D(1) r(1)]
  have K4: "K4 k c' \<in> set (al_lists tb' q) \<longleftrightarrow> at (root4 tb') c' k = Some q \<and> mask_key c' k = k" for k c' q
    using lists_insert [OF ip_width_32 D(1), where K = K4 and ls = "al_lists tb" and t' = r] r(2) t' D(4)
    by (simp add: tb')
  have "distinct (al_lists tb' q)" for q
    using lists_insert_distinct [OF ip_width_32 D(1), where K = K4 and ls = "al_lists tb"] r(2) D(3,4)
    by (simp add: tb')
  moreover have "K6 k c' \<in> set (al_lists tb' q) \<longleftrightarrow> at (root6 tb') c' k = Some q \<and> mask_key c' k = k" for k c' q
    using D(5) by (auto simp: tb' move_set)
  ultimately have "al_inv tb'" unfolding al_inv_def using K4 t' D(2) by (auto simp: tb')
  with t' p show ?thesis by (simp add: tb')
qed

lemma insert_v6_inv:
  assumes "al_inv tb" "wg_allowedips_insert_v6 out ip c peer tb = (None, tb')"
  shows "al_inv tb' \<and> root4 tb' = root4 tb \<and> (\<exists>p. peer = Some p \<and>
    at (root6 tb') = (\<lambda>c' k. if c' = c \<and> pre c (swap_endian ip) k then Some p else at (root6 tb) c' k))"
proof -
  let ?key = "swap_endian ip :: 128 word"
  obtain r p where p: "peer = Some p" and r: "ins_op out ?key c p (root6 tb) = (None, r)" "c \<le> 128"
      and tb': "tb' = tb\<lparr>al_seq := al_seq tb + 1, root6 := r,
        al_lists := al_move (at (root6 tb) c ?key) p (K6 (mask_key c ?key) c) (al_lists tb)\<rparr>"
    using assms(2) by (cases peer) (auto simp: wg_allowedips_insert_v6_def Let_def ins_op_def add_ip_def
        split: prod.splits option.splits if_splits)
  note D = al_invD [OF assms(1)]
  note t' = ip6.ins_ok [OF D(2) r(1)]
  have K6: "K6 k c' \<in> set (al_lists tb' q) \<longleftrightarrow> at (root6 tb') c' k = Some q \<and> mask_key c' k = k" for k c' q
    using lists_insert [OF ip_width_128 D(2), where K = K6 and ls = "al_lists tb" and t' = r] r(2) t' D(5)
    by (simp add: tb')
  have "distinct (al_lists tb' q)" for q
    using lists_insert_distinct [OF ip_width_128 D(2), where K = K6 and ls = "al_lists tb"] r(2) D(3,5)
    by (simp add: tb')
  moreover have "K4 k c' \<in> set (al_lists tb' q) \<longleftrightarrow> at (root4 tb') c' k = Some q \<and> mask_key c' k = k" for k c' q
    using D(4) by (auto simp: tb' move_set)
  ultimately have "al_inv tb'" unfolding al_inv_def using K6 t' D(1) by (auto simp: tb')
  with t' p show ?thesis by (simp add: tb')
qed

lemma remove_v4_inv:
  assumes "al_inv tb" "wg_allowedips_remove_v4 ip c p tb = (None, tb')"
  shows "al_inv tb' \<and> root6 tb' = root6 tb \<and>
    at (root4 tb') = (\<lambda>c' k. if c' = c \<and> pre c (swap_endian ip) k \<and> at (root4 tb) c (swap_endian ip) = Some p
      then None else at (root4 tb) c' k)"
proof -
  let ?key = "swap_endian ip :: 32 word"
  obtain r where r: "remove_ip ?key c p (root4 tb) = (None, r)"
      and tb': "tb' = tb\<lparr>al_seq := al_seq tb + 1, root4 := r,
        al_lists := (if at (root4 tb) c ?key = Some p
          then al_unlink (Some p) (K4 (mask_key c ?key) c) (al_lists tb) else al_lists tb)\<rparr>"
    using assms(2) by (auto simp: wg_allowedips_remove_v4_def Let_def split: prod.splits option.splits)
  note D = al_invD [OF assms(1)]
  note t' = ip4.del_ok [OF D(1) r]
  have K4: "K4 k c' \<in> set (al_lists tb' q) \<longleftrightarrow> at (root4 tb') c' k = Some q \<and> mask_key c' k = k" for k c' q
  proof (cases "at (root4 tb) c ?key = Some p")
    case True
    then show ?thesis
      using lists_remove [OF ip_width_32 D(1) True, where K = K4 and ls = "al_lists tb" and t' = r] t' D(4)
      by (simp add: tb')
  next
    case False
    then show ?thesis using D(4) t' by (simp add: tb')
  qed
  have "distinct (al_lists tb' q)" for q using D(3) by (simp add: tb' unlink_set)
  moreover have "K6 k c' \<in> set (al_lists tb' q) \<longleftrightarrow> at (root6 tb') c' k = Some q \<and> mask_key c' k = k" for k c' q
    using D(5) by (auto simp: tb' unlink_set)
  ultimately have "al_inv tb'" unfolding al_inv_def using K4 t' D(2) by (auto simp: tb')
  with t' show ?thesis by (simp add: tb')
qed

lemma remove_v6_inv:
  assumes "al_inv tb" "wg_allowedips_remove_v6 ip c p tb = (None, tb')"
  shows "al_inv tb' \<and> root4 tb' = root4 tb \<and>
    at (root6 tb') = (\<lambda>c' k. if c' = c \<and> pre c (swap_endian ip) k \<and> at (root6 tb) c (swap_endian ip) = Some p
      then None else at (root6 tb) c' k)"
proof -
  let ?key = "swap_endian ip :: 128 word"
  obtain r where r: "remove_ip ?key c p (root6 tb) = (None, r)"
      and tb': "tb' = tb\<lparr>al_seq := al_seq tb + 1, root6 := r,
        al_lists := (if at (root6 tb) c ?key = Some p
          then al_unlink (Some p) (K6 (mask_key c ?key) c) (al_lists tb) else al_lists tb)\<rparr>"
    using assms(2) by (auto simp: wg_allowedips_remove_v6_def Let_def split: prod.splits option.splits)
  note D = al_invD [OF assms(1)]
  note t' = ip6.del_ok [OF D(2) r]
  have K6: "K6 k c' \<in> set (al_lists tb' q) \<longleftrightarrow> at (root6 tb') c' k = Some q \<and> mask_key c' k = k" for k c' q
  proof (cases "at (root6 tb) c ?key = Some p")
    case True
    then show ?thesis
      using lists_remove [OF ip_width_128 D(2) True, where K = K6 and ls = "al_lists tb" and t' = r] t' D(5)
      by (simp add: tb')
  next
    case False
    then show ?thesis using D(5) t' by (simp add: tb')
  qed
  have "distinct (al_lists tb' q)" for q using D(3) by (simp add: tb' unlink_set)
  moreover have "K4 k c' \<in> set (al_lists tb' q) \<longleftrightarrow> at (root4 tb') c' k = Some q \<and> mask_key c' k = k" for k c' q
    using D(4) by (auto simp: tb' unlink_set)
  ultimately have "al_inv tb'" unfolding al_inv_def using K6 t' D(1) by (auto simp: tb')
  with t' show ?thesis by (simp add: tb')
qed

lemma remove_node4_inv:
  assumes "al_inv tb" "K4 k c \<in> set (al_lists tb p)"
  shows "al_inv (al_remove_node (K4 k c) tb) \<and>
    al_lists (al_remove_node (K4 k c) tb) = (al_lists tb)(p := filter (\<lambda>x. x \<noteq> K4 k c) (al_lists tb p))"
proof -
  note D = al_invD [OF assms(1)]
  have k: "at (root4 tb) c k = Some p" "mask_key c k = k" using assms(2) D(4) by auto
  let ?t' = "remove_at k c (root4 tb)"
  have t': "trie_wf ?t'" "at ?t' = (\<lambda>c' k'. if c' = c \<and> pre c k k' then None else at (root4 tb) c' k')"
    using remove_at_removed [OF ip_width_32 D(1) k(1)] by (auto simp: removed_def fun_eq_iff)
  let ?tb = "al_remove_node (K4 k c) tb"
  have "K4 k' c' \<in> set (al_lists ?tb q) \<longleftrightarrow> at (root4 ?tb) c' k' = Some q \<and> mask_key c' k' = k'" for k' c' q
    using lists_remove [OF ip_width_32 D(1) k(1) t'(2), where K = K4 and ls = "al_lists tb"] D(4) k by simp
  moreover have "distinct (al_lists ?tb q)" for q using D(3) by (simp add: unlink_set)
  moreover have "K6 k' c' \<in> set (al_lists ?tb q) \<longleftrightarrow> at (root6 ?tb) c' k' = Some q \<and> mask_key c' k' = k'" for k' c' q
    using D(5) by (auto simp: unlink_set)
  ultimately have "al_inv ?tb" unfolding al_inv_def using t' D(2) by auto
  with k show ?thesis by (simp add: al_unlink_def)
qed

lemma remove_node6_inv:
  assumes "al_inv tb" "K6 k c \<in> set (al_lists tb p)"
  shows "al_inv (al_remove_node (K6 k c) tb) \<and>
    al_lists (al_remove_node (K6 k c) tb) = (al_lists tb)(p := filter (\<lambda>x. x \<noteq> K6 k c) (al_lists tb p))"
proof -
  note D = al_invD [OF assms(1)]
  have k: "at (root6 tb) c k = Some p" "mask_key c k = k" using assms(2) D(5) by auto
  let ?t' = "remove_at k c (root6 tb)"
  have t': "trie_wf ?t'" "at ?t' = (\<lambda>c' k'. if c' = c \<and> pre c k k' then None else at (root6 tb) c' k')"
    using remove_at_removed [OF ip_width_128 D(2) k(1)] by (auto simp: removed_def fun_eq_iff)
  let ?tb = "al_remove_node (K6 k c) tb"
  have "K6 k' c' \<in> set (al_lists ?tb q) \<longleftrightarrow> at (root6 ?tb) c' k' = Some q \<and> mask_key c' k' = k'" for k' c' q
    using lists_remove [OF ip_width_128 D(2) k(1) t'(2), where K = K6 and ls = "al_lists tb"] D(5) k by simp
  moreover have "distinct (al_lists ?tb q)" for q using D(3) by (simp add: unlink_set)
  moreover have "K4 k' c' \<in> set (al_lists ?tb q) \<longleftrightarrow> at (root4 ?tb) c' k' = Some q \<and> mask_key c' k' = k'" for k' c' q
    using D(4) by (auto simp: unlink_set)
  ultimately have "al_inv ?tb" unfolding al_inv_def using t' D(1) by auto
  with k show ?thesis by (simp add: al_unlink_def)
qed

lemma remove_node_inv:
  assumes "al_inv tb" "e \<in> set (al_lists tb p)"
  shows "al_inv (al_remove_node e tb)"
    "al_lists (al_remove_node e tb) = (al_lists tb)(p := filter (\<lambda>x. x \<noteq> e) (al_lists tb p))"
  using assms remove_node4_inv [of tb _ _ p] remove_node6_inv [of tb _ _ p]
  by (cases e; simp del: al_remove_node.simps)+

lemma remove_list_inv:
  assumes "al_inv tb" "al_lists tb p = es"
  shows "al_inv (fold al_remove_node es tb) \<and> al_lists (fold al_remove_node es tb) = (al_lists tb)(p := [])"
  using assms
proof (induction es arbitrary: tb)
  case (Cons e es)
  let ?tb = "al_remove_node e tb"
  have e: "e \<in> set (al_lists tb p)" "filter (\<lambda>x. x \<noteq> e) es = es"
    using Cons.prems al_invD(3) [OF Cons.prems(1), of p] by (auto simp: filter_id_conv)
  note r = remove_node_inv [OF Cons.prems(1) e(1)]
  have "al_lists ?tb p = es" using r(2) Cons.prems(2) e(2) by simp
  from Cons.IH [OF r(1) this] r(2) show ?case by (auto simp: fun_eq_iff)
qed auto

lemma lists_determine:
  fixes t t' :: "('a::len, 'p) trie"
  assumes "ip_width TYPE('a)" "trie_wf t" "trie_wf t'"
    and "\<And>q k c. mask_key c k = k \<Longrightarrow> at t' c k = Some q \<longleftrightarrow> q \<noteq> p \<and> at t c k = Some q"
  shows "at t' c k = (if at t c k = Some p then None else at t c k)"
proof (cases "c \<le> LENGTH('a)")
  case True
  note eq = at_pre [OF assms(1) _ pre_mask_self [OF True, of k]]
  have iff: "at t' c k = Some q \<longleftrightarrow> q \<noteq> p \<and> at t c k = Some q" for q
    using assms(4) [OF mask_key_idem [OF True], of k q] eq [OF assms(2)] eq [OF assms(3)] by (simp only:)
  show ?thesis
  proof (cases "at t' c k")
    case None
    with iff show ?thesis by (metis option.exhaust)
  next
    case (Some q)
    with iff [of q] show ?thesis by simp
  qed
next
  case False
  then have "at t' c k = None" "at t c k = None"
    using at_le [OF assms(1,3)] at_le [OF assms(1,2)] by (meson not_None_eq)+
  then show ?thesis by simp
qed

lemma remove_by_peer_inv:
  assumes "al_inv tb"
  shows "al_inv (wg_allowedips_remove_by_peer p tb) \<and>
    at (root4 (wg_allowedips_remove_by_peer p tb)) =
      (\<lambda>c k. if at (root4 tb) c k = Some p then None else at (root4 tb) c k) \<and>
    at (root6 (wg_allowedips_remove_by_peer p tb)) =
      (\<lambda>c k. if at (root6 tb) c k = Some p then None else at (root6 tb) c k)"
proof -
  let ?tb = "wg_allowedips_remove_by_peer p tb"
  have r: "al_inv ?tb" "al_lists ?tb = (al_lists tb)(p := [])"
    using assms remove_list_inv [of "tb\<lparr>al_seq := al_seq tb + 1\<rparr>" p "al_lists tb p"]
    by (auto simp: wg_allowedips_remove_by_peer_def)
  note D = al_invD [OF assms] and D' = al_invD [OF r(1)]
  have "at (root4 ?tb) c k = Some q \<longleftrightarrow> q \<noteq> p \<and> at (root4 tb) c k = Some q" if "mask_key c k = k" for q c k
    using D(4) [of k c q] D'(4) [of k c q] r(2) that by (auto split: if_splits)
  moreover have "at (root6 ?tb) c k = Some q \<longleftrightarrow> q \<noteq> p \<and> at (root6 tb) c k = Some q" if "mask_key c k = k" for q c k
    using D(5) [of k c q] D'(5) [of k c q] r(2) that by (auto split: if_splits)
  ultimately show ?thesis
    using r(1) lists_determine [OF ip_width_32 D(1) D'(1)] lists_determine [OF ip_width_128 D(2) D'(2)]
    by (auto simp: fun_eq_iff)
qed

section \<open>Tearing the table down\<close>

text \<open>
  \<open>root_remove_peer_lists\<close> and \<open>root_free_rcu\<close> walk a trie with an explicit stack of
  \<open>MAX_ALLOWEDIPS_DEPTH\<close> slots. The walk here returns the nodes that carry a peer and the
  largest number of slots in use.
\<close>

definition MAX_ALLOWEDIPS_DEPTH :: nat where "MAX_ALLOWEDIPS_DEPTH = 129"

fun push_rcu :: "('k, 'p) allowedips_node \<Rightarrow> ('k, 'p) allowedips_node list \<Rightarrow> ('k, 'p) allowedips_node list" where
  "push_rcu Nil_node stack = stack"
| "push_rcu (Node p c b l r) stack = Node p c b l r # stack"

definition weight :: "('k, 'p) allowedips_node list \<Rightarrow> nat" where
  "weight stack = sum_list (map (\<lambda>t. Suc (2 * size t)) stack)"

lemma weight_simps [simp]: "weight [] = 0" "weight (t # st) = Suc (2 * size t) + weight st"
  by (simp_all add: weight_def)

lemma push_rcu_weight: "weight (push_rcu t st) \<le> Suc (2 * size t) + weight st"
  by (cases t) auto

function walk :: "('k, 'p) allowedips_node list \<Rightarrow> nat \<Rightarrow> ('k \<times> nat \<times> 'p) list \<times> nat" where
  "walk [] used = ([], used)"
| "walk (Nil_node # stack) used = walk stack used"
| "walk (Node p c b l r # stack) used =
     (let stack1 = push_rcu r (push_rcu l stack) in
      case walk stack1 (max used (length stack1)) of
        (vs, u) \<Rightarrow> ((case p of Some q \<Rightarrow> [(b, c, q)] | None \<Rightarrow> []) @ vs, u))"
  by pat_completeness auto
termination
proof (relation "measure (\<lambda>(st, _). weight st)")
  fix p :: "'b option" and c :: nat and b :: 'a and l r :: "('a, 'b) allowedips_node"
    and stack :: "('a, 'b) allowedips_node list" and used x
  assume "x = push_rcu r (push_rcu l stack)"
  then show "((x, max used (length x)), Node p c b l r # stack, used) \<in> measure (\<lambda>(st, _). weight st)"
    using push_rcu_weight [of r "push_rcu l stack"] push_rcu_weight [of l stack] by simp
qed auto

text \<open>The walk in the order of recursion, and how deep a trie is.\<close>

fun nodes :: "('k, 'p) allowedips_node \<Rightarrow> ('k \<times> nat \<times> 'p) list" where
  "nodes Nil_node = []"
| "nodes (Node p c b l r) = (case p of Some q \<Rightarrow> [(b, c, q)] | None \<Rightarrow> []) @ nodes r @ nodes l"

fun height :: "('k, 'p) allowedips_node \<Rightarrow> nat" where
  "height Nil_node = 0"
| "height (Node p c b l r) = Suc (max (height l) (height r))"

lemma walk_nodes: "fst (walk st used) = concat (map nodes st)"
proof (induction st used rule: walk.induct)
  case (3 p c b l r stack used)
  have "concat (map nodes (push_rcu r (push_rcu l stack))) = nodes r @ nodes l @ concat (map nodes stack)"
    by (cases l; cases r) simp_all
  with 3 show ?case by (auto simp: Let_def split: prod.split)
qed auto

fun fits :: "nat \<Rightarrow> ('k, 'p) allowedips_node list \<Rightarrow> bool" where
  "fits n [] = True"
| "fits n (t # st) = (height t + length st \<le> n \<and> fits n st)"

lemma fits_push: "fits n st \<Longrightarrow> height t + length st \<le> n \<Longrightarrow> fits n (push_rcu t st)"
  by (cases t) auto

lemma push_rcu_length: "length (push_rcu t st) \<le> Suc (length st)"
  by (cases t) auto

lemma walk_used: "used \<le> n \<Longrightarrow> length st \<le> n \<Longrightarrow> fits n st \<Longrightarrow> snd (walk st used) \<le> n"
proof (induction st used rule: walk.induct)
  case (3 p c b l r stack used)
  let ?st = "push_rcu r (push_rcu l stack)"
  have top: "Suc (height l) + length stack \<le> n" "Suc (height r) + length stack \<le> n" "fits n stack"
    using "3.prems"(3) by auto
  have fit: "fits n ?st"
    using top push_rcu_length [of l stack] by (intro fits_push) auto
  have "length ?st \<le> n"
    using top by (cases l; cases r) auto
  with "3.IH" [OF refl] fit "3.prems"(1) show ?case by (auto simp: Let_def split: prod.split)
qed auto

lemma height_bound:
  fixes t :: "('a::len, 'p) trie"
  shows "trie_wf t \<Longrightarrow> t \<noteq> Nil_node \<Longrightarrow> height t + n_cidr t \<le> Suc (LENGTH('a))"
proof (induction t)
  case (Node p c b l r)
  have "height l + c \<le> LENGTH('a)" using Node.IH(1) Node.prems(1) by (cases l) auto
  moreover have "height r + c \<le> LENGTH('a)" using Node.IH(2) Node.prems(1) by (cases r) auto
  ultimately show ?case by simp
qed simp

lemma walk_bound:
  fixes t :: "('a::len, 'p) trie"
  assumes "trie_wf t"
  shows "snd (walk [t] 1) \<le> Suc (LENGTH('a))"
  using height_bound [OF assms] by (intro walk_used) (cases t; auto)+

text \<open>The nodes of a trie are the entries of its table.\<close>

lemma nodes_at:
  fixes t :: "('a::len, 'p) trie"
  assumes "ip_width TYPE('a)"
  shows "trie_wf t \<Longrightarrow> (b, c, q) \<in> set (nodes t) \<Longrightarrow> at t c b = Some q"
proof (induction t)
  case (Node p c0 b0 l r)
  note at = at_wf [OF assms Node.prems(1)]
  have ch: "at (Node p c0 b0 l r) c b = Some q" if "at u c b = Some q" "u = (if v then r else l)" for u v
  proof -
    have "trie_wf u" "below c0 b0 v u" using Node.prems(1) that(2) by (cases v; simp)+
    from at_below [OF assms this that(1)] that show ?thesis unfolding at by auto
  qed
  from Node.prems(2) consider "p = Some q" "c = c0" "b = b0" | "(b, c, q) \<in> set (nodes r)" | "(b, c, q) \<in> set (nodes l)"
    by (auto split: option.splits)
  then show ?case
  proof cases
    case 1
    then show ?thesis unfolding at by simp
  next
    case 2
    with Node.IH(2) Node.prems(1) ch [of r True] show ?thesis by simp
  next
    case 3
    with Node.IH(1) Node.prems(1) ch [of l False] show ?thesis by simp
  qed
qed simp

lemma at_nodes:
  fixes t :: "('a::len, 'p) trie"
  assumes "ip_width TYPE('a)"
  shows "trie_wf t \<Longrightarrow> at t c k = Some q \<Longrightarrow> \<exists>b. (b, c, q) \<in> set (nodes t) \<and> pre c b k"
proof (induction t)
  case (Node p c0 b0 l r)
  show ?case
  proof (cases "c0 = c")
    case True
    with at_wf [OF assms Node.prems(1), of c k] Node.prems(2) show ?thesis by (auto split: if_splits)
  next
    case False
    from at_path(3) [OF assms Node.prems False] Node.IH Node.prems(1) show ?thesis
      by (cases "kbit k c0") fastforce+
  qed
qed simp

text \<open>\<open>wg_allowedips_free\<close>: every node with a peer leaves its peer's list.\<close>

definition wg_allowedips_free :: "'p allowedips \<Rightarrow> 'p allowedips" where
  "wg_allowedips_free table =
     (let ls4 = fold (\<lambda>(b, c, q). al_unlink (Some q) (K4 (mask_key c b) c)) (fst (walk [root4 table] 1)) (al_lists table);
          ls6 = fold (\<lambda>(b, c, q). al_unlink (Some q) (K6 (mask_key c b) c)) (fst (walk [root6 table] 1)) ls4
      in table\<lparr>al_seq := al_seq table + 1, root4 := Nil_node, root6 := Nil_node, al_lists := ls6\<rparr>)"

lemma unlink_all:
  "set (fold (\<lambda>(b, c, q). al_unlink (Some q) (K b c)) ns ls p) =
     {x \<in> set (ls p). \<forall>(b, c, q)\<in>set ns. \<not> (x = K b c \<and> q = p)}"
  by (induction ns arbitrary: ls) (auto simp: unlink_set)

lemma free_lists:
  fixes t :: "('a::len, 'p) trie"
  assumes "ip_width TYPE('a)" "trie_wf t" "at t c k = Some p" "mask_key c k = k"
  shows "\<exists>(b, c', q)\<in>set (nodes t). K k c = K (mask_key c' b) c' \<and> q = p"
  using at_nodes [OF assms(1-3)] at_le [OF assms(1-3)] pre_mask_key [of c _ k] assms(4) by fastforce

lemma free_inv:
  assumes "al_inv tb"
  shows "al_inv (wg_allowedips_free tb) \<and> al_lists (wg_allowedips_free tb) = (\<lambda>_. [])"
proof -
  note D = al_invD [OF assms]
  have "x \<notin> set (al_lists (wg_allowedips_free tb) p)" for x p
  proof (cases x)
    case (K4 k c)
    then show ?thesis
      using free_lists [OF ip_width_32 D(1), of c k p K4] D(4) [of k c p]
      by (auto simp: wg_allowedips_free_def Let_def unlink_all [where K = "\<lambda>b c. K4 (mask_key c b) c"]
          unlink_all [where K = "\<lambda>b c. K6 (mask_key c b) c"] walk_nodes) blast
  next
    case (K6 k c)
    then show ?thesis
      using free_lists [OF ip_width_128 D(2), of c k p K6] D(5) [of k c p]
      by (auto simp: wg_allowedips_free_def Let_def unlink_all [where K = "\<lambda>b c. K4 (mask_key c b) c"]
          unlink_all [where K = "\<lambda>b c. K6 (mask_key c b) c"] walk_nodes) blast
  qed
  then have "al_lists (wg_allowedips_free tb) = (\<lambda>_. [])" by (metis ext equals0I set_empty)
  then show ?thesis by (simp add: al_inv_def) (simp add: wg_allowedips_free_def Let_def)
qed

section \<open>The table refines a map from prefixes to peers\<close>

datatype 'p al_op =
  Al_insert4 "bool \<times> bool" bytes nat "'p option"
| Al_insert6 "bool \<times> bool" bytes nat "'p option"
| Al_remove4 bytes nat 'p
| Al_remove6 bytes nat 'p
| Al_remove_peer 'p
| Al_free

fun al_step :: "'p al_op \<Rightarrow> 'p allowedips \<Rightarrow> errno option \<times> 'p allowedips" where
  "al_step (Al_insert4 out ip c peer) tb = wg_allowedips_insert_v4 out ip c peer tb"
| "al_step (Al_insert6 out ip c peer) tb = wg_allowedips_insert_v6 out ip c peer tb"
| "al_step (Al_remove4 ip c p) tb = wg_allowedips_remove_v4 ip c p tb"
| "al_step (Al_remove6 ip c p) tb = wg_allowedips_remove_v6 ip c p tb"
| "al_step (Al_remove_peer p) tb = (None, wg_allowedips_remove_by_peer p tb)"
| "al_step Al_free tb = (None, wg_allowedips_free tb)"

text \<open>The specification: for each family a map from prefix length and address to a peer.\<close>

type_synonym 'p al_spec = "(nat \<Rightarrow> u32 \<Rightarrow> 'p option) \<times> (nat \<Rightarrow> addr6 \<Rightarrow> 'p option)"

definition put :: "nat \<Rightarrow> 'a::len word \<Rightarrow> 'p option \<Rightarrow> (nat \<Rightarrow> 'a word \<Rightarrow> 'p option) \<Rightarrow> nat \<Rightarrow> 'a word \<Rightarrow> 'p option" where
  "put c key v m = (\<lambda>c' k. if c' = c \<and> pre c key k then v else m c' k)"

definition purge :: "'p \<Rightarrow> (nat \<Rightarrow> 'k \<Rightarrow> 'p option) \<Rightarrow> nat \<Rightarrow> 'k \<Rightarrow> 'p option" where
  "purge p m = (\<lambda>c k. if m c k = Some p then None else m c k)"

fun spec_step :: "'p al_op \<Rightarrow> errno option \<Rightarrow> 'p al_spec \<Rightarrow> 'p al_spec" where
  "spec_step op (Some e) m = m"
| "spec_step (Al_insert4 _ ip c peer) None (m4, m6) = (put c (swap_endian ip) peer m4, m6)"
| "spec_step (Al_insert6 _ ip c peer) None (m4, m6) = (m4, put c (swap_endian ip) peer m6)"
| "spec_step (Al_remove4 ip c p) None (m4, m6) =
     (if m4 c (swap_endian ip) = Some p then put c (swap_endian ip) None m4 else m4, m6)"
| "spec_step (Al_remove6 ip c p) None (m4, m6) =
     (m4, if m6 c (swap_endian ip) = Some p then put c (swap_endian ip) None m6 else m6)"
| "spec_step (Al_remove_peer p) None (m4, m6) = (purge p m4, purge p m6)"
| "spec_step Al_free None m = (\<lambda>_ _. None, \<lambda>_ _. None)"

fun al_run :: "'p al_op list \<Rightarrow> 'p allowedips \<times> 'p al_spec \<Rightarrow> 'p allowedips \<times> 'p al_spec" where
  "al_run [] s = s"
| "al_run (op # ops) (tb, m) =
     (case al_step op tb of (res, tb') \<Rightarrow> al_run ops (tb', spec_step op res m))"

definition al_abs :: "'p allowedips \<Rightarrow> 'p al_spec" where
  "al_abs tb = (at (root4 tb), at (root6 tb))"

lemma failed_step:
  assumes "al_step op tb = (Some e, tb')"
  shows "tb' = tb\<lparr>al_seq := al_seq tb + 1\<rparr>"
  using assms
  by (cases op) (auto simp: wg_allowedips_insert_v4_def wg_allowedips_insert_v6_def
      wg_allowedips_remove_v4_def wg_allowedips_remove_v6_def Let_def split: prod.splits option.splits)

lemma al_step_refines:
  assumes "al_inv tb" "al_step op tb = (res, tb')"
  shows "al_inv tb' \<and> al_abs tb' = spec_step op res (al_abs tb)"
proof (cases res)
  case (Some e)
  with failed_step assms show ?thesis by (fastforce simp: al_abs_def)
next
  case None
  show ?thesis
  proof (cases op)
    case (Al_insert4 out ip c peer)
    with insert_v4_inv [OF assms(1)] assms(2) None show ?thesis by (fastforce simp: al_abs_def put_def)
  next
    case (Al_insert6 out ip c peer)
    with insert_v6_inv [OF assms(1)] assms(2) None show ?thesis by (fastforce simp: al_abs_def put_def)
  next
    case (Al_remove4 ip c p)
    with remove_v4_inv [OF assms(1), of ip c p tb'] assms(2) None show ?thesis
      by (auto simp: al_abs_def put_def fun_eq_iff)
  next
    case (Al_remove6 ip c p)
    with remove_v6_inv [OF assms(1), of ip c p tb'] assms(2) None show ?thesis
      by (auto simp: al_abs_def put_def fun_eq_iff)
  next
    case (Al_remove_peer p)
    with remove_by_peer_inv [OF assms(1), of p] assms(2) None show ?thesis by (auto simp: al_abs_def purge_def)
  next
    case Al_free
    with free_inv [OF assms(1)] assms(2) None show ?thesis
      by (auto simp: al_abs_def wg_allowedips_free_def Let_def fun_eq_iff)
  qed
qed

lemma al_run_refines: "al_inv tb \<Longrightarrow> al_run ops (tb, al_abs tb) = (tb', m) \<Longrightarrow> al_inv tb' \<and> m = al_abs tb'"
proof (induction ops arbitrary: tb)
  case (Cons op ops)
  obtain res tb1 where st: "al_step op tb = (res, tb1)" by fastforce
  from al_step_refines [OF Cons.prems(1) st] Cons.IH [of tb1] Cons.prems(2) st show ?case by simp
qed simp

lemma al_abs_init: "al_abs wg_allowedips_init = (\<lambda>_ _. None, \<lambda>_ _. None)"
  by (simp add: al_abs_def wg_allowedips_init_def fun_eq_iff)

text \<open>C18. After any sequence of insertions, removals, removals of all prefixes of a peer and
  teardowns, allocation failures included, the lookup of an address returns the peer of
  its longest matching prefix in the map that the same sequence of successful
  operations builds, for both address families.\<close>

theorem allowedips_refines_map:
  assumes "al_run ops (wg_allowedips_init, \<lambda>_ _. None, \<lambda>_ _. None) = (tb, m4, m6)"
  shows "\<exists>r4 r6. wg_allowedips_lookup_v4 (\<lambda>_. True) [tb] ip = Some r4 \<and> longest m4 (swap_endian ip) r4 \<and>
    wg_allowedips_lookup_v6 (\<lambda>_. True) [tb] ip = Some r6 \<and> longest m6 (swap_endian ip) r6"
proof -
  have inv: "al_inv tb" "(m4, m6) = al_abs tb"
    using al_run_refines [OF al_init_inv, of ops tb "(m4, m6)"] assms by (simp_all add: al_abs_init)
  note D = al_invD [OF inv(1)]
  show ?thesis
    using ip4.find_longest [OF D(1), of "swap_endian ip"] ip6.find_longest [OF D(2), of "swap_endian ip"] inv(2)
    by (auto simp: wg_allowedips_lookup_v4_def wg_allowedips_lookup_v6_def find_op_def al_abs_def split: option.split)
qed


definition demo_routes :: "nat al_op list" where
  "demo_routes = [Al_insert4 (True, True) [10, 0, 0, 0] 8 (Some 1),
     Al_insert4 (True, True) [10, 1, 0, 0] 16 (Some 2), Al_insert4 (True, True) [10, 3, 0, 0] 16 (Some 3),
     Al_remove_peer 3]"

lemma demo_lookup:
  "wg_allowedips_lookup_v4 (\<lambda>_. True) [fst (al_run demo_routes (wg_allowedips_init, \<lambda>_ _. None, \<lambda>_ _. None))]
     [10, 1, 2, 3] = Some (Some 2)"
  by (simp add: demo_routes_def wg_allowedips_init_def wg_allowedips_insert_v4_def Let_def swap_endian_def add_ip_def
      prefix_matches_def common_bits_def fls_def fls_nat.simps choose_bit_def key_byte_def connect_def
      wg_allowedips_remove_by_peer_def al_move_def al_unlink_def mask_key_def wg_allowedips_lookup_v4_def is_leaf_def)

theorem allowedips_refines_map_witness:
  "\<exists>tb m4 m6. al_run demo_routes (wg_allowedips_init, \<lambda>_ _. None, \<lambda>_ _. None) = (tb, m4, m6) \<and>
     wg_allowedips_lookup_v4 (\<lambda>_. True) [tb] [10, 1, 2, 3] = Some (Some 2) \<and>
     longest m4 (swap_endian [10, 1, 2, 3]) (Some 2)"
proof -
  obtain tb m4 m6 where run: "al_run demo_routes (wg_allowedips_init, \<lambda>_ _. None, \<lambda>_ _. None) = (tb, m4, m6)"
    by (metis surj_pair)
  with allowedips_refines_map [OF run, of "[10, 1, 2, 3]"] demo_lookup show ?thesis by auto
qed


section \<open>Reading a node back\<close>

lemma bit_append_byte: "x < 256 \<Longrightarrow> bit (a * 256 + x :: nat) n = (if n < 8 then bit x n else bit a (n - 8))"
proof -
  assume x: "x < 256"
  have "a * 256 + x = push_bit 8 a OR take_bit 8 x"
  proof -
    have "push_bit 8 a + take_bit 8 x = push_bit 8 a OR take_bit 8 x"
      by (rule disjunctive_add) (auto simp: bit_simps)
    then show ?thesis using x by (simp add: push_bit_eq_mult take_bit_eq_mod)
  qed
  then show ?thesis by (auto simp: bit_simps)
qed

lemma fold_bytes_bit:
  fixes bs :: bytes
  shows "bit (foldl (\<lambda>acc b. acc * 256 + unat b) (0 :: nat) bs) n \<longleftrightarrow>
     n < 8 * length bs \<and> bit (bs ! (length bs - 1 - n div 8)) (n mod 8)"
proof (induction bs arbitrary: n rule: rev_induct)
  case (snoc b bs)
  have lt: "unat b < 256" using unsigned_less [of b] by simp
  show ?case
  proof (cases "n < 8")
    case True
    then show ?thesis by (simp add: bit_append_byte lt bit_unsigned_iff)
  next
    case False
    then have "n div 8 = Suc ((n - 8) div 8)" "(n - 8) mod 8 = n mod 8"
      by (simp_all add: le_div_geq le_mod_geq)
    moreover have "n - 8 < 8 * length bs \<longleftrightarrow> n < 8 + 8 * length bs" using False by linarith
    ultimately show ?thesis using False
      by (auto simp: bit_append_byte lt snoc.IH nth_append)
  qed
qed simp

lemma swap_endian_kbit:
  assumes "8 * length bs = LENGTH('a)" "i < LENGTH('a)"
  shows "kbit (swap_endian bs :: 'a::len word) i = bit (bs ! (i div 8)) (7 - i mod 8)"
proof -
  obtain x y where i: "i = 8 * x + y" "y < 8" by (metis div_mult_mod_eq mult.commute mod_less_divisor zero_less_numeral)
  have "LENGTH('a) - 1 - i = 8 * (length bs - 1 - x) + (7 - y)" using assms i by auto
  then have "(LENGTH('a) - 1 - i) div 8 = length bs - 1 - x" "(LENGTH('a) - 1 - i) mod 8 = 7 - y" by auto
  moreover have "length bs - 1 - (length bs - 1 - x) = x" "i div 8 = x" "i mod 8 = y" using assms i by auto
  moreover have "LENGTH('a) - 1 - i < 8 * length bs" using assms by auto
  ultimately show ?thesis
    using assms(2) by (simp add: kbit_def swap_endian_def bit_simps fold_bytes_bit)
qed

lemma be_bytes_nth:
  fixes w :: "'a::len word"
  assumes "LENGTH('a) = 8 * n" "i < LENGTH('a)"
  shows "bit (be_bytes w ! (i div 8)) (7 - i mod 8) = kbit w i" "length (be_bytes w) = n"
proof -
  show "length (be_bytes w) = n" using assms by (simp add: be_bytes_def)
  obtain x y where i: "i = 8 * x + y" "y < 8" by (metis div_mult_mod_eq mult.commute mod_less_divisor zero_less_numeral)
  have "Suc x \<le> n" using assms i by auto
  then have "i div 8 = x" "i mod 8 = y" "x < n" "8 * n - 8 * Suc x + (7 - y) = 8 * n - 1 - i" using i by auto
  then show "bit (be_bytes w ! (i div 8)) (7 - i mod 8) = kbit w i"
    using assms bit_byte [of "7 - y" "8 * n - 8 * Suc x" w] by (simp add: be_bytes_def kbit_def)
qed

lemma read_node_bit:
  fixes key :: "'a::len word"
  assumes "LENGTH('a) = 8 * n" "cidr \<le> LENGTH('a)" "wg_allowedips_read_node key cidr = (ip, c, family)" "i < LENGTH('a)"
  shows "bit (ip ! (i div 8)) (7 - i mod 8) \<longleftrightarrow> i < cidr \<and> kbit key i"
proof -
  obtain x y where i: "i = 8 * x + y" "y < 8" by (metis div_mult_mod_eq mult.commute mod_less_divisor zero_less_numeral)
  obtain a b where c: "cidr = 8 * a + b" "b < 8" by (metis div_mult_mod_eq mult.commute mod_less_divisor zero_less_numeral)
  let ?cb = "if b = 0 then a else Suc a"
  have cb: "(cidr + 7) div 8 = ?cb" "cidr mod 8 = b" using c by auto
  have dm: "i div 8 = x" "i mod 8 = y" "x < n" using i assms(1,4) by auto
  note byte = be_bytes_nth [OF assms(1,4), of key, unfolded dm]
  have ip: "ip = (let ip = take ?cb (be_bytes key) @ replicate (n - ?cb) 0 in
      if cidr \<noteq> 0 then ip[?cb - 1 := ip ! (?cb - 1) AND push_bit ((8 - b) mod 8) (- 1)] else ip)"
  proof -
    have "ip = fst (wg_allowedips_read_node key cidr)" using assms(3) by simp
    then show ?thesis unfolding wg_allowedips_read_node_def Let_def cb by (simp add: assms(1))
  qed
  have le: "?cb \<le> n" using assms(1,2) c by auto
  consider "x < a" | "x = a" "b = 0" | "x = a" "0 < b" | "a < x" by linarith
  then have "bit (ip ! x) (7 - y) \<longleftrightarrow> i < cidr \<and> kbit key i"
  proof cases
    case 1
    then have "ip ! x = be_bytes key ! x" using le byte(2) dm(3)
      by (auto simp: ip Let_def nth_append nth_list_update)
    with byte(1) 1 i c show ?thesis by auto
  next
    case 2
    then have "ip ! x = 0" using le byte(2) dm(3) c
      by (auto simp: ip Let_def nth_append nth_list_update)
    with 2 i c show ?thesis by auto
  next
    case 3
    then have "ip ! x = be_bytes key ! x AND push_bit (8 - b) (- 1)" using le byte(2) dm(3) c
      by (auto simp: ip Let_def nth_append)
    with byte(1) 3 i c show ?thesis by (auto simp: bit_simps)
  next
    case 4
    then have "ip ! x = 0" using le byte(2) dm(3)
      by (auto simp: ip Let_def nth_append nth_list_update)
    with 4 i c show ?thesis by auto
  qed
  then show ?thesis by (simp add: dm)
qed

text \<open>C20. What userspace reads of a node is its prefix: the bytes that
  \<open>wg_allowedips_read_node\<close> returns denote the key with every bit after the prefix
  cleared, for each prefix length of both address families.\<close>

theorem read_node_canonical:
  fixes key :: "'a::len word"
  assumes "ip_width TYPE('a)" "cidr \<le> LENGTH('a)" "wg_allowedips_read_node key cidr = (ip, c, family)"
  shows "swap_endian ip = mask_key cidr key \<and> c = cidr \<and> length ip = LENGTH('a) div 8 \<and>
    (family = AF_INET \<longleftrightarrow> LENGTH('a) = 32)"
proof -
  let ?cb = "(cidr + 7) div 8" and ?n = "LENGTH('a) div 8"
  have n: "LENGTH('a) = 8 * ?n" using assms(1) by (auto simp: ip_width_def)
  have len: "length ip = ?n" "c = cidr" "family = AF_INET \<longleftrightarrow> LENGTH('a) = 32"
    using assms be_bytes_nth(2) [OF n, of 0 key] by (auto simp: wg_allowedips_read_node_def Let_def AF_INET_def AF_INET6_def split: if_splits)
  have "kbit (swap_endian ip :: 'a word) i = kbit (mask_key cidr key) i" if "i < LENGTH('a)" for i
  proof -
    have "bit (ip ! (i div 8)) (7 - i mod 8) \<longleftrightarrow> i < cidr \<and> kbit key i"
      by (rule read_node_bit [OF n assms(2,3) that])
    then show ?thesis using swap_endian_kbit [of ip i, where 'a = 'a] len n that kbit_mask_key [OF assms(2) that, of key] by simp
  qed
  then have "swap_endian ip = mask_key cidr key" by (rule kbit_eqI)
  with len show ?thesis by simp
qed

theorem read_node_canonical_witness:
  "wg_allowedips_read_node (0xC0A801FE :: u32) 20 = ([192, 168, 0, 0], 20, AF_INET) \<and>
   swap_endian [192, 168, 0, 0] = (mask_key 20 0xC0A801FE :: u32)"
proof -
  have r: "wg_allowedips_read_node (0xC0A801FE :: u32) 20 = ([192, 168, 0, 0], 20, AF_INET)"
    by (simp add: wg_allowedips_read_node_def be_bytes_def upt_rec mask_eq_exp_minus_1)
  from read_node_canonical [OF ip_width_32 _ r] r show ?thesis by simp
qed

end
