(* ===== verification/Ratelimiter.thy ===== *)
theory Ratelimiter
  imports Net_Types
begin

text \<open>
  The handshake rate limiter (kernel/ratelimiter.c): a token bucket for each source
  address in a hash table, with a garbage collector. Time is in nanoseconds. The
  keyed hash of the kernel is a parameter of the model; entries that the collector
  unlinks are freed, and stop counting, when the next grace period ends.
\<close>

section \<open>The table\<close>

definition PACKETS_PER_SECOND :: u64 where "PACKETS_PER_SECOND = 20"
definition PACKETS_BURSTABLE :: u64 where "PACKETS_BURSTABLE = 5"
definition PACKET_COST :: u64 where "PACKET_COST = NSEC_PER_SEC div PACKETS_PER_SECOND"
definition TOKEN_MAX :: u64 where "TOKEN_MAX = PACKET_COST * PACKETS_BURSTABLE"

lemmas rl_consts = NSEC_PER_SEC_def PACKETS_PER_SECOND_def PACKETS_BURSTABLE_def PACKET_COST_def TOKEN_MAX_def

record ratelimiter_entry =
  last_time_ns :: u64
  tokens :: u64
  rl_ip :: u64
  rl_net :: nat

text \<open>The keyed hash of the network namespace and the address; the code masks it to the table.\<close>

type_synonym rl_hash = "bool \<Rightarrow> nat \<Rightarrow> u64 \<Rightarrow> nat"

text \<open>
  The static variables of the file: the two tables (no buckets while there is no user),
  the counters, whether the collector is queued, the count of users, and the number
  of entries that are unlinked and not freed yet.
\<close>

record ratelimiter =
  table_v4 :: "ratelimiter_entry list list"
  table_v6 :: "ratelimiter_entry list list"
  total_entries :: nat
  max_entries :: nat
  rl_unlinked :: nat
  gc_work :: bool
  init_refcnt :: u64

text \<open>A source: the family, the network namespace and the address, or the /64 of an IPv6 address.\<close>

datatype rl_src = Src4 nat u32 | Src6 nat addr6

fun src_v6 :: "rl_src \<Rightarrow> bool" where
  "src_v6 (Src4 _ _) = False" | "src_v6 (Src6 _ _) = True"

fun src_net :: "rl_src \<Rightarrow> nat" where
  "src_net (Src4 n _) = n" | "src_net (Src6 n _) = n"

fun src_ip :: "rl_src \<Rightarrow> u64" where
  "src_ip (Src4 _ a) = ucast a" | "src_ip (Src6 _ a) = ucast (drop_bit 64 a)"

definition rl_table :: "bool \<Rightarrow> ratelimiter \<Rightarrow> ratelimiter_entry list list" where
  "rl_table v6 rl = (if v6 then table_v6 rl else table_v4 rl)"

definition set_rl_table :: "bool \<Rightarrow> ratelimiter_entry list list \<Rightarrow> ratelimiter \<Rightarrow> ratelimiter" where
  "set_rl_table v6 tab rl = (if v6 then rl\<lparr>table_v6 := tab\<rparr> else rl\<lparr>table_v4 := tab\<rparr>)"

definition bucket_index :: "rl_hash \<Rightarrow> rl_src \<Rightarrow> nat \<Rightarrow> nat" where
  "bucket_index hash s table_size = hash (src_v6 s) (src_net s) (src_ip s) AND (table_size - 1)"

text \<open>The token bucket of one entry.\<close>

definition entry_take :: "u64 \<Rightarrow> ratelimiter_entry \<Rightarrow> bool \<times> ratelimiter_entry" where
  "entry_take now e =
     (let tok = min TOKEN_MAX (tokens e + now - last_time_ns e);
          ret = (tok \<ge> PACKET_COST)
      in (ret, e\<lparr>last_time_ns := now, tokens := (if ret then tok - PACKET_COST else tok)\<rparr>))"

definition entry_matches :: "nat \<Rightarrow> u64 \<Rightarrow> ratelimiter_entry \<Rightarrow> bool" where
  "entry_matches net ip e = (rl_net e = net \<and> rl_ip e = ip)"

fun bucket_take :: "nat \<Rightarrow> u64 \<Rightarrow> u64 \<Rightarrow> ratelimiter_entry list \<Rightarrow> (bool \<times> ratelimiter_entry list) option" where
  "bucket_take net ip now [] = None"
| "bucket_take net ip now (e # es) =
     (if entry_matches net ip e then
        Some (fst (entry_take now e), snd (entry_take now e) # es)
      else map_option (\<lambda>(ret, es'). (ret, e # es')) (bucket_take net ip now es))"

text \<open>\<open>wg_ratelimiter_allow\<close>; \<open>alloc_ok\<close> is the outcome of \<open>kmem_cache_alloc\<close>.\<close>

definition wg_ratelimiter_allow ::
  "rl_hash \<Rightarrow> bool \<Rightarrow> u64 \<Rightarrow> rl_src option \<Rightarrow> ratelimiter \<Rightarrow> bool \<times> ratelimiter" where
  "wg_ratelimiter_allow hash alloc_ok now src rl =
     (case src of
        None \<Rightarrow> (False, rl)
      | Some s \<Rightarrow>
          let tab = rl_table (src_v6 s) rl;
              i = bucket_index hash s (length tab)
          in
          (case bucket_take (src_net s) (src_ip s) now (tab ! i) of
             Some (ret, b) \<Rightarrow> (ret, set_rl_table (src_v6 s) (tab[i := b]) rl)
           | None \<Rightarrow>
               if Suc (total_entries rl) > max_entries rl \<or> \<not> alloc_ok then (False, rl)
               else
                 (True, set_rl_table (src_v6 s)
                    (tab[i := \<lparr>last_time_ns = now, tokens = TOKEN_MAX - PACKET_COST,
                               rl_ip = src_ip s, rl_net = src_net s\<rparr> # tab ! i])
                    (rl\<lparr>total_entries := Suc (total_entries rl)\<rparr>))))"

text \<open>\<open>wg_ratelimiter_gc_entries\<close>: \<open>work\<close> is false when everything is torn down.\<close>

definition gc_stale :: "bool \<Rightarrow> u64 \<Rightarrow> ratelimiter_entry \<Rightarrow> bool" where
  "gc_stale work now e = (\<not> work \<or> now - last_time_ns e > NSEC_PER_SEC)"

definition wg_ratelimiter_gc_entries :: "bool \<Rightarrow> u64 \<Rightarrow> ratelimiter \<Rightarrow> ratelimiter" where
  "wg_ratelimiter_gc_entries work now rl =
     (let sweep = map (filter (\<lambda>e. \<not> gc_stale work now e));
          gone = (\<lambda>tab. sum_list (map (\<lambda>b. length (filter (gc_stale work now) b)) tab))
      in rl\<lparr>table_v4 := sweep (table_v4 rl), table_v6 := sweep (table_v6 rl),
            rl_unlinked := rl_unlinked rl + gone (table_v4 rl) + gone (table_v6 rl),
            gc_work := work\<rparr>)"

text \<open>The end of a grace period: \<open>entry_free\<close> runs for every unlinked entry.\<close>

definition entry_free_all :: "ratelimiter \<Rightarrow> ratelimiter" where
  "entry_free_all rl = rl\<lparr>total_entries := total_entries rl - rl_unlinked rl, rl_unlinked := 0\<rparr>"

function roundup_from :: "nat \<Rightarrow> nat \<Rightarrow> nat" where
  "roundup_from p n = (if p \<ge> n \<or> p = 0 then p else roundup_from (2 * p) n)"
  by pat_completeness auto
termination by (relation "measure (\<lambda>(p, n). n - p)") auto

definition roundup_pow_of_two :: "nat \<Rightarrow> nat" where
  "roundup_pow_of_two n = roundup_from 1 n"

definition rl_table_size :: "nat \<Rightarrow> nat \<Rightarrow> nat" where
  "rl_table_size page_shift totalram =
     (if totalram > 2 ^ 30 div 2 ^ page_shift then 8192
      else max 16 (roundup_pow_of_two (totalram * 2 ^ page_shift div 2 ^ 14 div 8)))"

text \<open>
  \<open>page_shift\<close> and \<open>totalram\<close> describe the machine; the allocations of the slab cache
  and of the two tables may fail. Tearing down cancels the collector, unlinks all
  entries and waits for their grace period.
\<close>

definition wg_ratelimiter_init ::
  "nat \<Rightarrow> nat \<Rightarrow> bool \<Rightarrow> bool \<Rightarrow> bool \<Rightarrow> ratelimiter \<Rightarrow> unit result \<times> ratelimiter" where
  "wg_ratelimiter_init page_shift totalram cache_ok v4_ok v6_ok rl =
     (let n = rl_table_size page_shift totalram in
      if init_refcnt rl + 1 \<noteq> 1 then (Inr (), rl\<lparr>init_refcnt := init_refcnt rl + 1\<rparr>)
      else if \<not> cache_ok then (Inl ENOMEM, rl)
      else if \<not> v4_ok \<or> \<not> v6_ok then (Inl ENOMEM, rl\<lparr>max_entries := n * 8\<rparr>)
      else (Inr (), rl\<lparr>init_refcnt := 1, table_v4 := replicate n [], table_v6 := replicate n [],
                       max_entries := n * 8, gc_work := True\<rparr>))"

definition wg_ratelimiter_uninit :: "u64 \<Rightarrow> ratelimiter \<Rightarrow> ratelimiter" where
  "wg_ratelimiter_uninit now rl =
     (if init_refcnt rl = 0 then rl
      else if init_refcnt rl - 1 \<noteq> 0 then rl\<lparr>init_refcnt := init_refcnt rl - 1\<rparr>
      else (entry_free_all (wg_ratelimiter_gc_entries False now (rl\<lparr>init_refcnt := 0\<rparr>)))
             \<lparr>table_v4 := [], table_v6 := []\<rparr>)"

section \<open>The bucket of a source\<close>

text \<open>The entry of a source, and the tokens it would have at time \<open>t\<close>.\<close>

definition rl_entry :: "rl_hash \<Rightarrow> rl_src \<Rightarrow> ratelimiter \<Rightarrow> ratelimiter_entry option" where
  "rl_entry hash s rl =
     (let tab = rl_table (src_v6 s) rl;
          i = bucket_index hash s (length tab)
      in List.find (entry_matches (src_net s) (src_ip s)) (tab ! i))"

definition level :: "nat \<Rightarrow> ratelimiter_entry \<Rightarrow> nat" where
  "level t e = min (unat TOKEN_MAX) (unat (tokens e) + t - unat (last_time_ns e))"

definition avail :: "rl_hash \<Rightarrow> rl_src \<Rightarrow> nat \<Rightarrow> ratelimiter \<Rightarrow> nat" where
  "avail hash s t rl = (case rl_entry hash s rl of None \<Rightarrow> unat TOKEN_MAX | Some e \<Rightarrow> level t e)"

text \<open>Entries are never full beyond the maximum and never from the future.\<close>

definition entry_ok :: "nat \<Rightarrow> ratelimiter_entry \<Rightarrow> bool" where
  "entry_ok t e \<longleftrightarrow> tokens e \<le> TOKEN_MAX \<and> unat (last_time_ns e) \<le> t"

definition rl_ok :: "nat \<Rightarrow> ratelimiter \<Rightarrow> bool" where
  "rl_ok t rl \<longleftrightarrow>
     (\<forall>v6. rl_table v6 rl \<noteq> [] \<and> (\<forall>b\<in>set (rl_table v6 rl). \<forall>e\<in>set b. entry_ok t e))"

text \<open>The entries in the tables, and that the counter counts them and those not freed yet.\<close>

definition rl_live :: "ratelimiter \<Rightarrow> nat" where
  "rl_live rl = sum_list (map length (table_v4 rl)) + sum_list (map length (table_v6 rl))"

definition rl_counted :: "ratelimiter \<Rightarrow> bool" where
  "rl_counted rl \<longleftrightarrow> total_entries rl = rl_live rl + rl_unlinked rl"

lemma unat_consts: "unat PACKET_COST = 50000000" "unat TOKEN_MAX = 250000000" "unat NSEC_PER_SEC = 1000000000"
  by (simp_all add: rl_consts)

lemma and_nat_le: "(a :: nat) AND b \<le> b"
  using AND_upper2 [of "int b" "int a"] by (simp flip: of_nat_and_eq)

lemma bucket_index_less: "0 < n \<Longrightarrow> bucket_index hash s n < n"
  unfolding bucket_index_def
  by (rule le_less_trans [OF _ diff_less [of 1 n]]) (simp_all add: and_nat_le)

text \<open>Two sources share a bucket when they agree on family, namespace and address.\<close>

definition same_src :: "rl_src \<Rightarrow> rl_src \<Rightarrow> bool" where
  "same_src s s' \<longleftrightarrow> src_v6 s = src_v6 s' \<and> src_net s = src_net s' \<and> src_ip s = src_ip s'"

lemma entry_take_ident [simp]:
  "entry_matches n i (snd (entry_take now e)) = entry_matches n i e"
  by (simp add: entry_take_def entry_matches_def Let_def)

lemma entry_take_key [simp]:
  "rl_net (snd (entry_take now e)) = rl_net e" "rl_ip (snd (entry_take now e)) = rl_ip e"
  by (simp_all add: entry_take_def Let_def)

lemma bucket_take_None: "bucket_take net ip now b = None \<longleftrightarrow> List.find (entry_matches net ip) b = None"
  by (induction b) auto

lemma bucket_take_find:
  "bucket_take net ip now b = Some (ret, b') \<Longrightarrow>
   \<exists>e. List.find (entry_matches net ip) b = Some e \<and> ret = fst (entry_take now e) \<and>
       List.find (entry_matches net ip) b' = Some (snd (entry_take now e)) \<and>
       e \<in> set b \<and> set b' \<subseteq> insert (snd (entry_take now e)) (set b) \<and> length b' = length b"
  by (induction b arbitrary: b') (auto split: if_splits, fastforce+)

lemma bucket_take_other:
  "bucket_take net ip now b = Some (ret, b') \<Longrightarrow> (n, i) \<noteq> (net, ip) \<Longrightarrow>
   List.find (entry_matches n i) b' = List.find (entry_matches n i) b"
  by (induction b arbitrary: b') (auto simp: entry_matches_def split: if_splits)

lemma rl_entry_set:
  "rl_table v rl \<noteq> [] \<Longrightarrow> i < length (rl_table v rl) \<Longrightarrow>
   rl_entry hash s (set_rl_table v ((rl_table v rl)[i := b]) rl) =
     (if src_v6 s = v \<and> bucket_index hash s (length (rl_table v rl)) = i
      then List.find (entry_matches (src_net s) (src_ip s)) b else rl_entry hash s rl)"
  by (auto simp: rl_entry_def rl_table_def set_rl_table_def Let_def nth_list_update bucket_index_less)

lemma same_src_index: "same_src s s' \<Longrightarrow> bucket_index hash s n = bucket_index hash s' n"
  by (simp add: same_src_def bucket_index_def)

text \<open>The 64-bit arithmetic on one entry does not wrap before time \<open>2 ^ 63\<close>.\<close>

lemma refill_exact:
  assumes "entry_ok t e" "t < 2 ^ 63"
  shows "unat (min TOKEN_MAX (tokens e + of_nat t - last_time_ns e)) = level t e"
proof -
  have t: "unat (of_nat t :: u64) = t"
    using assms(2) by (simp add: unat_of_nat take_bit_nat_eq_self)
  have le: "unat (tokens e) \<le> 250000000" "unat (last_time_ns e) \<le> t"
    using assms(1) by (auto simp: entry_ok_def word_le_nat_alt unat_consts)
  have 1: "unat (tokens e + of_nat t) = unat (tokens e) + t"
    using le assms(2) by (subst unat_plus_if') (simp add: t)
  have 2: "unat (tokens e + of_nat t - last_time_ns e) = unat (tokens e) + t - unat (last_time_ns e)"
    using le 1 by (subst unat_sub) (auto simp: word_le_nat_alt)
  show ?thesis
    by (simp add: level_def min_def word_le_nat_alt 2)
qed

lemma entry_take_level:
  assumes "entry_ok t e" "t < 2 ^ 63"
  shows "fst (entry_take (of_nat t) e) = (level t e \<ge> unat PACKET_COST)"
    "level t (snd (entry_take (of_nat t) e)) =
       level t e - (if fst (entry_take (of_nat t) e) then unat PACKET_COST else 0)"
    "entry_ok t (snd (entry_take (of_nat t) e))"
proof -
  have t: "unat (of_nat t :: u64) = t"
    using assms(2) by (simp add: unat_of_nat take_bit_nat_eq_self)
  note r = refill_exact [OF assms]
  show 1: "fst (entry_take (of_nat t) e) = (level t e \<ge> unat PACKET_COST)"
    by (simp add: entry_take_def Let_def r word_le_nat_alt)
  have tok: "unat (tokens (snd (entry_take (of_nat t) e))) =
      level t e - (if fst (entry_take (of_nat t) e) then unat PACKET_COST else 0)"
    unfolding 1 by (auto simp: entry_take_def Let_def r word_le_nat_alt unat_sub)
  have le: "level t e \<le> unat TOKEN_MAX"
    by (simp add: level_def)
  have last: "last_time_ns (snd (entry_take (of_nat t) e)) = of_nat t"
    by (simp add: entry_take_def Let_def)
  show "level t (snd (entry_take (of_nat t) e)) =
       level t e - (if fst (entry_take (of_nat t) e) then unat PACKET_COST else 0)"
    unfolding level_def [of t "snd _"] tok last t using le by simp
  show "entry_ok t (snd (entry_take (of_nat t) e))"
    unfolding entry_ok_def last t word_le_nat_alt tok using le by simp
qed

section \<open>Histories\<close>

text \<open>A history: packets that are checked, collector runs and ends of grace periods, with their times.\<close>

datatype rl_event = Rl_check u64 bool "rl_src option" | Rl_gc u64 | Rl_grace

fun rl_step :: "rl_hash \<Rightarrow> rl_event \<Rightarrow> ratelimiter \<Rightarrow> bool \<times> ratelimiter" where
  "rl_step hash (Rl_check t alloc_ok src) rl = wg_ratelimiter_allow hash alloc_ok t src rl"
| "rl_step hash (Rl_gc t) rl = (False, wg_ratelimiter_gc_entries True t rl)"
| "rl_step hash Rl_grace rl = (False, entry_free_all rl)"

fun rl_time :: "u64 \<Rightarrow> rl_event \<Rightarrow> u64" where
  "rl_time _ (Rl_check t _ _) = t" | "rl_time _ (Rl_gc t) = t" | "rl_time t Rl_grace = t"

fun rl_about :: "rl_src \<Rightarrow> rl_event \<Rightarrow> bool" where
  "rl_about s (Rl_check _ _ (Some s')) = same_src s s'" | "rl_about s _ = False"

fun rl_run :: "rl_hash \<Rightarrow> rl_event list \<Rightarrow> ratelimiter \<Rightarrow> ratelimiter" where
  "rl_run hash [] rl = rl"
| "rl_run hash (ev # evs) rl = rl_run hash evs (snd (rl_step hash ev rl))"

fun rl_passed :: "rl_hash \<Rightarrow> rl_src \<Rightarrow> rl_event list \<Rightarrow> ratelimiter \<Rightarrow> nat" where
  "rl_passed hash s [] rl = 0"
| "rl_passed hash s (ev # evs) rl =
     (if rl_about s ev \<and> fst (rl_step hash ev rl) then 1 else 0) +
     rl_passed hash s evs (snd (rl_step hash ev rl))"

text \<open>The clock does not run backwards; \<open>rl_clock t evs = Some t'\<close> gives the time of the last event.\<close>

fun rl_clock :: "u64 \<Rightarrow> rl_event list \<Rightarrow> u64 option" where
  "rl_clock t [] = Some t"
| "rl_clock t (ev # evs) = (if rl_time t ev < t then None else rl_clock (rl_time t ev) evs)"

lemma rl_ok_mono: "rl_ok t rl \<Longrightarrow> t \<le> t' \<Longrightarrow> rl_ok t' rl"
  by (fastforce simp: rl_ok_def entry_ok_def)

lemma avail_elapse: "t \<le> t' \<Longrightarrow> avail hash s t' rl \<le> avail hash s t rl + (t' - t)"
  by (auto simp: avail_def level_def split: option.split)

lemma rl_table_set [simp]:
  "rl_table v (set_rl_table v' tab rl) = (if v = v' then tab else rl_table v rl)"
  by (simp add: rl_table_def set_rl_table_def)

lemma rl_ok_set:
  assumes "rl_ok t rl" "\<And>e. e \<in> set b \<Longrightarrow> entry_ok t e"
  shows "rl_ok t (set_rl_table v ((rl_table v rl)[i := b]) rl)"
  using assms set_update_subset_insert [of "rl_table v rl" i b] unfolding rl_ok_def
  by (auto simp: subset_iff)

lemma rl_entry_ok:
  assumes "rl_ok t rl" "rl_entry hash s rl = Some e"
  shows "entry_ok t e"
proof -
  have "rl_table (src_v6 s) rl \<noteq> []" using assms(1) by (simp add: rl_ok_def)
  then have "rl_table (src_v6 s) rl ! bucket_index hash s (length (rl_table (src_v6 s) rl))
      \<in> set (rl_table (src_v6 s) rl)"
    by (simp add: bucket_index_less)
  then show ?thesis
    using assms by (auto simp: rl_ok_def rl_entry_def Let_def find_Some_iff)
qed

lemma rl_entry_fields [simp]:
  "rl_entry hash s (rl\<lparr>total_entries := n\<rparr>) = rl_entry hash s rl"
  "rl_entry hash s (rl\<lparr>rl_unlinked := n\<rparr>) = rl_entry hash s rl"
  "rl_table v (rl\<lparr>total_entries := n\<rparr>) = rl_table v rl"
  "rl_table v (rl\<lparr>rl_unlinked := n\<rparr>) = rl_table v rl"
  by (simp_all add: rl_entry_def rl_table_def Let_def)

text \<open>
  One check, seen by any source: the entry of the source that is checked pays for a
  packet that passes, and the entry of no other source changes.
\<close>

lemma allow_entry:
  assumes ok: "rl_ok t rl"
    and al: "wg_ratelimiter_allow hash a now (Some s') rl = (ret, rl')"
  shows "(\<not> same_src s s' \<longrightarrow> rl_entry hash s rl' = rl_entry hash s rl) \<and>
    (same_src s s' \<longrightarrow>
       (case rl_entry hash s rl of
          Some e \<Rightarrow> ret = fst (entry_take now e) \<and> rl_entry hash s rl' = Some (snd (entry_take now e))
        | None \<Rightarrow> if ret then rl_entry hash s rl' = Some \<lparr>last_time_ns = now, tokens = TOKEN_MAX - PACKET_COST,
                               rl_ip = src_ip s, rl_net = src_net s\<rparr>
                  else rl_entry hash s rl' = None))"
proof -
  define v where "v = src_v6 s'"
  define tab where "tab = rl_table v rl"
  define i where "i = bucket_index hash s' (length tab)"
  note defs = v_def [symmetric] tab_def [symmetric] i_def [symmetric]
  have ne: "tab \<noteq> []" "i < length tab"
    using ok by (auto simp: tab_def i_def rl_ok_def bucket_index_less)
  have own: "same_src s s' \<Longrightarrow> rl_entry hash s rl = List.find (entry_matches (src_net s') (src_ip s')) (tab ! i) \<and>
      src_v6 s = v \<and> src_net s = src_net s' \<and> src_ip s = src_ip s' \<and> bucket_index hash s (length tab) = i"
    by (simp add: rl_entry_def Let_def v_def tab_def i_def same_src_def bucket_index_def)
  have set: "rl_entry hash s (set_rl_table v (tab[i := b]) r) =
      (if src_v6 s = v \<and> bucket_index hash s (length tab) = i
       then List.find (entry_matches (src_net s) (src_ip s)) b else rl_entry hash s r)"
    if "rl_table v r = tab" for b r
    using rl_entry_set [of v r i hash s b] ne that by simp
  have oth: "\<not> same_src s s' \<Longrightarrow> src_v6 s = v \<Longrightarrow> bucket_index hash s (length tab) = i \<Longrightarrow>
      rl_entry hash s rl = List.find (entry_matches (src_net s) (src_ip s)) (tab ! i) \<and>
      (src_net s, src_ip s) \<noteq> (src_net s', src_ip s')"
    by (auto simp: rl_entry_def Let_def v_def tab_def same_src_def)
  show ?thesis
  proof (cases "bucket_take (src_net s') (src_ip s') now (tab ! i)")
    case None
    then have nf: "List.find (entry_matches (src_net s') (src_ip s')) (tab ! i) = None"
      by (simp add: bucket_take_None)
    consider "\<not> ret" "rl' = rl" | "ret" "rl' = set_rl_table v
        (tab[i := \<lparr>last_time_ns = now, tokens = TOKEN_MAX - PACKET_COST,
                   rl_ip = src_ip s', rl_net = src_net s'\<rparr> # tab ! i])
        (rl\<lparr>total_entries := Suc (total_entries rl)\<rparr>)"
      using al None by (auto simp: wg_ratelimiter_allow_def Let_def defs split: if_splits)
    then show ?thesis
    proof cases
      case 1
      then show ?thesis using own nf by auto
    next
      case 2
      have "rl_entry hash s rl' = (if src_v6 s = v \<and> bucket_index hash s (length tab) = i
          then List.find (entry_matches (src_net s) (src_ip s))
            (\<lparr>last_time_ns = now, tokens = TOKEN_MAX - PACKET_COST,
              rl_ip = src_ip s', rl_net = src_net s'\<rparr> # tab ! i)
          else rl_entry hash s rl)"
        unfolding 2(2) by (subst set) (simp_all add: defs)
      then show ?thesis
        using 2(1) own oth nf by (auto simp: entry_matches_def)
    qed
  next
    case (Some p)
    then obtain b where b: "bucket_take (src_net s') (src_ip s') now (tab ! i) = Some (ret, b)"
      and rl': "rl' = set_rl_table v (tab[i := b]) rl"
      using al by (auto simp: wg_ratelimiter_allow_def Let_def defs split: prod.splits)
    have "rl_entry hash s rl' = (if src_v6 s = v \<and> bucket_index hash s (length tab) = i
        then List.find (entry_matches (src_net s) (src_ip s)) b else rl_entry hash s rl)"
      unfolding rl' by (subst set) (simp_all add: defs)
    then show ?thesis
      using bucket_take_find [OF b] bucket_take_other [OF b, of "src_net s" "src_ip s"] oth own by auto
  qed
qed

lemma allow_ok:
  assumes ok: "rl_ok t rl" "t < 2 ^ 63"
  shows "rl_ok t (snd (wg_ratelimiter_allow hash a (of_nat t) src rl))"
proof (cases src)
  case None
  then show ?thesis using ok by (simp add: wg_ratelimiter_allow_def)
next
  case (Some s)
  define v where "v = src_v6 s"
  define i where "i = bucket_index hash s (length (rl_table v rl))"
  note defs = v_def [symmetric] i_def [symmetric]
  have t: "unat (of_nat t :: u64) = t"
    using ok(2) by (simp add: unat_of_nat take_bit_nat_eq_self)
  have "rl_table v rl ! i \<in> set (rl_table v rl)"
    using ok(1) by (simp add: rl_ok_def i_def bucket_index_less)
  then have old: "e \<in> set (rl_table v rl ! i) \<Longrightarrow> entry_ok t e" for e
    using ok(1) by (auto simp: rl_ok_def)
  have take: "entry_ok t e" if "bucket_take (src_net s) (src_ip s) (of_nat t) (rl_table v rl ! i) = Some (ret, b)"
    "e \<in> set b" for ret b e
    using bucket_take_find [OF that(1)] that(2) old entry_take_level(3) [OF _ ok(2)] by fastforce
  have fresh: "entry_ok t \<lparr>last_time_ns = of_nat t, tokens = TOKEN_MAX - PACKET_COST, rl_ip = p, rl_net = n\<rparr>" for p n
    by (simp add: entry_ok_def t rl_consts)
  have cnt: "rl_ok t (rl\<lparr>total_entries := n\<rparr>)" for n
    using ok(1) by (simp add: rl_ok_def)
  have new: "rl_ok t (set_rl_table v ((rl_table v rl)[i := \<lparr>last_time_ns = of_nat t,
      tokens = TOKEN_MAX - PACKET_COST, rl_ip = p, rl_net = n\<rparr> # rl_table v rl ! i])
      (rl\<lparr>total_entries := k\<rparr>))" for p n k
    using rl_ok_set [OF cnt, of "\<lparr>last_time_ns = of_nat t, tokens = TOKEN_MAX - PACKET_COST,
        rl_ip = p, rl_net = n\<rparr> # rl_table v rl ! i" v k i] old fresh by auto
  show ?thesis
    using ok(1) take new rl_ok_set [OF ok(1), of _ v i]
    by (auto simp: wg_ratelimiter_allow_def Some Let_def defs split: option.split)
qed

lemma avail_le: "avail hash s t rl \<le> unat TOKEN_MAX"
  by (auto simp: avail_def level_def split: option.split)

lemma allow_avail:
  assumes ok: "rl_ok t rl" "t < 2 ^ 63"
    and al: "wg_ratelimiter_allow hash a (of_nat t) (Some s') rl = (ret, rl')"
  shows "avail hash s t rl' + (if same_src s s' \<and> ret then unat PACKET_COST else 0) \<le> avail hash s t rl"
proof (cases "rl_entry hash s rl")
  case None
  have "unat (of_nat t :: u64) = t"
    using ok(2) by (simp add: unat_of_nat take_bit_nat_eq_self)
  then show ?thesis
    using allow_entry [OF ok(1) al, of s] None
    by (auto simp: avail_def level_def rl_consts split: if_splits)
next
  case (Some e)
  then show ?thesis
    using allow_entry [OF ok(1) al, of s] entry_take_level [OF rl_entry_ok [OF ok(1) Some] ok(2)]
    by (auto simp: avail_def)
qed

text \<open>The collector takes only full buckets, which a new entry would start as well.\<close>

lemma find_filter_or:
  "List.find P (filter Q xs) = List.find P xs \<or> (\<exists>e. List.find P xs = Some e \<and> \<not> Q e)"
  by (induction xs) auto

lemma gc_stale_full:
  assumes "entry_ok t e" "t < 2 ^ 63" "gc_stale True (of_nat t) e"
  shows "level t e = unat TOKEN_MAX"
proof -
  have t: "unat (of_nat t :: u64) = t"
    using assms(2) by (simp add: unat_of_nat take_bit_nat_eq_self)
  then have "unat (of_nat t - last_time_ns e) = t - unat (last_time_ns e)"
    using assms(1) by (subst unat_sub) (auto simp: word_le_nat_alt entry_ok_def)
  then show ?thesis
    using assms(3) by (simp add: gc_stale_def level_def word_less_nat_alt unat_consts)
qed

lemma gc_tables [simp]:
  "rl_table v (wg_ratelimiter_gc_entries w now rl) = map (filter (\<lambda>e. \<not> gc_stale w now e)) (rl_table v rl)"
  by (simp add: rl_table_def wg_ratelimiter_gc_entries_def Let_def)

lemma gc_avail:
  assumes ok: "rl_ok t rl" "t < 2 ^ 63"
  shows "avail hash s t (wg_ratelimiter_gc_entries True (of_nat t) rl) \<le> avail hash s t rl"
proof -
  define tab where "tab = rl_table (src_v6 s) rl"
  have i: "bucket_index hash s (length tab) < length tab"
    using ok(1) by (simp add: tab_def rl_ok_def bucket_index_less)
  consider "rl_entry hash s (wg_ratelimiter_gc_entries True (of_nat t) rl) = rl_entry hash s rl"
    | e where "rl_entry hash s rl = Some e" "gc_stale True (of_nat t) e"
    using find_filter_or [of "entry_matches (src_net s) (src_ip s)" "\<lambda>e. \<not> gc_stale True (of_nat t) e"
        "tab ! bucket_index hash s (length tab)"] i
    by (auto simp: rl_entry_def Let_def tab_def)
  then show ?thesis
  proof cases
    case 1
    then show ?thesis by (simp add: avail_def)
  next
    case 2
    then have "avail hash s t rl = unat TOKEN_MAX"
      using gc_stale_full [OF rl_entry_ok [OF ok(1) 2(1)] ok(2)] by (simp add: avail_def)
    then show ?thesis using avail_le by simp
  qed
qed

lemma gc_ok: "rl_ok t rl \<Longrightarrow> rl_ok t (wg_ratelimiter_gc_entries w now rl)"
  by (auto simp: rl_ok_def)

lemma free_ok [simp]: "rl_ok t (entry_free_all rl) = rl_ok t rl"
  by (simp add: rl_ok_def entry_free_all_def)

lemma rl_step_avail:
  assumes ok: "rl_ok (unat t) rl" and le: "t \<le> rl_time t ev" and lt: "rl_time t ev < 2 ^ 63"
  shows "rl_ok (unat (rl_time t ev)) (snd (rl_step hash ev rl))"
    "avail hash s (unat (rl_time t ev)) (snd (rl_step hash ev rl)) +
       (if rl_about s ev \<and> fst (rl_step hash ev rl) then unat PACKET_COST else 0)
     \<le> avail hash s (unat t) rl + (unat (rl_time t ev) - unat t)"
proof -
  have le': "unat t \<le> unat (rl_time t ev)" using le by (simp add: word_le_nat_alt)
  have lt': "unat (rl_time t ev) < 2 ^ 63" using lt by (simp add: word_less_nat_alt)
  have ok': "rl_ok (unat (rl_time t ev)) rl" using rl_ok_mono [OF ok le'] .
  show "rl_ok (unat (rl_time t ev)) (snd (rl_step hash ev rl))"
    using ok' allow_ok [OF ok' lt'] gc_ok [OF ok'] by (cases ev) simp_all
  have "avail hash s (unat (rl_time t ev)) (snd (rl_step hash ev rl)) +
      (if rl_about s ev \<and> fst (rl_step hash ev rl) then unat PACKET_COST else 0)
    \<le> avail hash s (unat (rl_time t ev)) rl"
  proof (cases ev)
    case (Rl_check t' a src)
    show ?thesis
    proof (cases src)
      case None
      then show ?thesis by (simp add: Rl_check wg_ratelimiter_allow_def)
    next
      case (Some s')
      then show ?thesis
        using allow_avail [OF ok' lt', of hash a s' _ _ s]
        by (cases "wg_ratelimiter_allow hash a t' (Some s') rl") (simp add: Rl_check)
    qed
  next
    case (Rl_gc t')
    then show ?thesis using gc_avail [OF ok' lt'] by simp
  next
    case Rl_grace
    then show ?thesis by (simp add: avail_def entry_free_all_def)
  qed
  then show "avail hash s (unat (rl_time t ev)) (snd (rl_step hash ev rl)) +
       (if rl_about s ev \<and> fst (rl_step hash ev rl) then unat PACKET_COST else 0)
     \<le> avail hash s (unat t) rl + (unat (rl_time t ev) - unat t)"
    using avail_elapse [OF le', of hash s rl] by linarith
qed

lemma rl_clock_mono: "rl_clock t evs = Some t' \<Longrightarrow> t \<le> t'"
  by (induction evs arbitrary: t) (fastforce split: if_splits)+

lemma rl_run_avail:
  assumes "rl_ok (unat t) rl" "rl_clock t evs = Some t'" "t' < 2 ^ 63"
  shows "unat PACKET_COST * rl_passed hash s evs rl + avail hash s (unat t') (rl_run hash evs rl)
     \<le> avail hash s (unat t) rl + (unat t' - unat t)"
  using assms
proof (induction evs arbitrary: t rl)
  case (Cons ev evs)
  then have le: "t \<le> rl_time t ev" and cl: "rl_clock (rl_time t ev) evs = Some t'"
    by (auto split: if_splits)
  have le': "rl_time t ev \<le> t'" using rl_clock_mono [OF cl] .
  then have lt: "rl_time t ev < 2 ^ 63" using Cons.prems(3) by (rule le_less_trans)
  note st = rl_step_avail [OF Cons.prems(1) le lt, of hash]
  show ?case
    using Cons.IH [OF st(1) cl Cons.prems(3)] st(2) [of s] le le'
    by (auto simp: algebra_simps word_le_nat_alt)
qed simp

section \<open>Memory\<close>

lemma live_set:
  assumes "i < length (rl_table v rl)"
  shows "rl_live (set_rl_table v ((rl_table v rl)[i := b]) rl) + length (rl_table v rl ! i) = rl_live rl + length b"
  using assms elem_le_sum_list [of i "map length (rl_table v rl)"]
  by (cases v) (auto simp: rl_live_def set_rl_table_def rl_table_def map_update sum_list_update)

lemma set_rl_table_other [simp]:
  "total_entries (set_rl_table v tab rl) = total_entries rl"
  "max_entries (set_rl_table v tab rl) = max_entries rl"
  "rl_unlinked (set_rl_table v tab rl) = rl_unlinked rl"
  by (simp_all add: set_rl_table_def)

lemma live_same:
  assumes "i < length (rl_table v rl)" "length b = length (rl_table v rl ! i)"
  shows "rl_live (set_rl_table v ((rl_table v rl)[i := b]) rl) = rl_live rl"
  using live_set [OF assms(1), of b] assms(2) by simp

lemma live_cons:
  assumes "i < length (rl_table v rl)"
  shows "rl_live (set_rl_table v ((rl_table v rl)[i := e # rl_table v rl ! i]) rl) = Suc (rl_live rl)"
  using live_set [OF assms(1), of "e # rl_table v rl ! i"] by simp

lemma set_rl_table_total [simp]:
  "set_rl_table v tab (rl\<lparr>total_entries := n\<rparr>) = (set_rl_table v tab rl)\<lparr>total_entries := n\<rparr>"
  "rl_live (rl\<lparr>total_entries := n\<rparr>) = rl_live rl"
  by (simp_all add: set_rl_table_def rl_live_def)

definition rl_bounded :: "ratelimiter \<Rightarrow> bool" where
  "rl_bounded rl \<longleftrightarrow> rl_counted rl \<and> total_entries rl \<le> max_entries rl \<and>
     table_v4 rl \<noteq> [] \<and> table_v6 rl \<noteq> []"

lemma allow_bounded:
  assumes "rl_bounded rl"
  shows "rl_bounded (snd (wg_ratelimiter_allow hash a now src rl))"
proof (cases src)
  case None
  then show ?thesis using assms by (simp add: wg_ratelimiter_allow_def)
next
  case (Some s)
  define v where "v = src_v6 s"
  define i where "i = bucket_index hash s (length (rl_table v rl))"
  note defs = v_def [symmetric] i_def [symmetric]
  have i: "i < length (rl_table v rl)"
    using assms by (simp add: i_def bucket_index_less rl_bounded_def rl_table_def)
  have tabs: "table_v4 (set_rl_table v ((rl_table v r)[i := b]) r') \<noteq> []"
    "table_v6 (set_rl_table v ((rl_table v r)[i := b]) r') \<noteq> []"
    if "table_v4 r \<noteq> []" "table_v6 r \<noteq> []" "table_v4 r' \<noteq> []" "table_v6 r' \<noteq> []" for r r' b
    using that by (auto simp: set_rl_table_def rl_table_def)
  show ?thesis
    using assms live_same [OF i] live_cons [OF i]
    by (auto simp: wg_ratelimiter_allow_def Some Let_def defs rl_bounded_def rl_counted_def tabs
        dest!: bucket_take_find split: option.split)
qed

lemma gc_live: "sum_list (map length (map (filter (\<lambda>e. \<not> P e)) tab)) + sum_list (map (\<lambda>b. length (filter P b)) tab)
    = sum_list (map length tab)"
proof (induction tab)
  case (Cons b tab)
  then show ?case using sum_length_filter_compl [of P b] by simp
qed simp

lemma gc_counted: "rl_counted rl \<Longrightarrow> rl_counted (wg_ratelimiter_gc_entries w now rl)"
  using gc_live [of "gc_stale w now" "table_v4 rl"] gc_live [of "gc_stale w now" "table_v6 rl"]
  by (simp add: rl_counted_def rl_live_def wg_ratelimiter_gc_entries_def Let_def)

lemma gc_bounded: "rl_bounded rl \<Longrightarrow> rl_bounded (wg_ratelimiter_gc_entries w now rl)"
  using gc_counted [of rl w now]
  by (simp add: rl_bounded_def) (simp add: wg_ratelimiter_gc_entries_def Let_def)

lemma free_bounded: "rl_bounded rl \<Longrightarrow> rl_bounded (entry_free_all rl)"
  by (auto simp: rl_bounded_def rl_counted_def entry_free_all_def rl_live_def)

lemma rl_run_bounded: "rl_bounded rl \<Longrightarrow> rl_bounded (rl_run hash evs rl)"
proof (induction evs arbitrary: rl)
  case (Cons ev evs)
  then have "rl_bounded (snd (rl_step hash ev rl))"
    by (cases ev) (simp_all add: allow_bounded gc_bounded free_bounded)
  then show ?case using Cons.IH by simp
qed simp

lemma gc_all: "rl_live (wg_ratelimiter_gc_entries False now rl) = 0"
  by (auto simp: rl_live_def wg_ratelimiter_gc_entries_def gc_stale_def Let_def)

lemma uninit_counted: "rl_counted rl \<Longrightarrow> init_refcnt rl = 1 \<Longrightarrow> total_entries (wg_ratelimiter_uninit now rl) = 0"
  using gc_counted [of "rl\<lparr>init_refcnt := 0\<rparr>" False now] gc_all [of now "rl\<lparr>init_refcnt := 0\<rparr>"]
  by (simp add: wg_ratelimiter_uninit_def entry_free_all_def rl_counted_def) (simp add: rl_live_def)

lemma uninit_down: "init_refcnt rl = 1 \<Longrightarrow>
    rl_live (wg_ratelimiter_uninit now rl) = 0 \<and> \<not> gc_work (wg_ratelimiter_uninit now rl)"
  by (simp add: wg_ratelimiter_uninit_def rl_live_def entry_free_all_def wg_ratelimiter_gc_entries_def Let_def)

lemma rl_run_fixed:
  "max_entries (rl_run hash evs rl) = max_entries rl \<and> init_refcnt (rl_run hash evs rl) = init_refcnt rl"
proof (induction evs arbitrary: rl)
  case (Cons ev evs)
  have "max_entries (snd (rl_step hash ev rl)) = max_entries rl \<and>
      init_refcnt (snd (rl_step hash ev rl)) = init_refcnt rl"
    by (cases ev) (auto simp: wg_ratelimiter_allow_def Let_def wg_ratelimiter_gc_entries_def
        entry_free_all_def set_rl_table_def split: option.splits)
  then show ?case using Cons.IH by simp
qed simp

lemma table_size_pos: "0 < rl_table_size page_shift totalram"
  by (simp add: rl_table_size_def less_max_iff_disj)

section \<open>Properties\<close>

text \<open>Nine packets in a burst from one address, one of another, a collector run and a later packet.\<close>

definition demo_events :: "rl_event list" where
  "demo_events =
     replicate 9 (Rl_check 10 True (Some (Src4 1 0x0A000001))) @
     [Rl_check 20 True (Some (Src4 1 0x0A000002)), Rl_gc 3000000000, Rl_grace,
      Rl_check 3000000000 True (Some (Src4 1 0x0A000001))]"

definition demo_hash :: rl_hash where
  "demo_hash v6 net ip = unat (ip AND 15)"

definition demo_limiter :: ratelimiter where
  "demo_limiter = \<lparr>table_v4 = replicate 16 [], table_v6 = replicate 16 [], total_entries = 0,
     max_entries = 128, rl_unlinked = 0, gc_work = True, init_refcnt = 1\<rparr>"

text \<open>C21. The rate limit holds for every source, whatever other sources send and whenever
  the collector runs: over any history from time \<open>t\<close> to \<open>t'\<close>, however the keyed hash
  distributes the sources, the packets of one source (one IPv4 address or one IPv6 /64
  of a namespace) that pass cost at most a full bucket plus the time that went by. So
  at most 5 packets pass at once, and 20 for each second after that; being forgotten
  by the collector gives a source nothing.\<close>

theorem ratelimiter_rate_bound:
  assumes "rl_ok (unat t) rl" "rl_clock t evs = Some t'" "t' < 2 ^ 63"
  shows "unat PACKET_COST * rl_passed hash s evs rl \<le> unat TOKEN_MAX + (unat t' - unat t)"
  using rl_run_avail [OF assms, of hash s] avail_le [of hash s "unat t" rl] by linarith

theorem ratelimiter_rate_bound_witness:
  "rl_passed demo_hash (Src4 1 0x0A000001) demo_events demo_limiter = 6 \<and>
   unat PACKET_COST * rl_passed demo_hash (Src4 1 0x0A000001) demo_events demo_limiter
     \<le> unat TOKEN_MAX + (unat (3000000000 :: u64) - unat (0 :: u64))"
proof
  show "rl_passed demo_hash (Src4 1 0x0A000001) demo_events demo_limiter = 6"
    by code_simp
  have "rl_clock 0 demo_events = Some 3000000000" by code_simp
  then show "unat PACKET_COST * rl_passed demo_hash (Src4 1 0x0A000001) demo_events demo_limiter
     \<le> unat TOKEN_MAX + (unat (3000000000 :: u64) - unat (0 :: u64))"
    by (intro ratelimiter_rate_bound) (auto simp: demo_limiter_def rl_ok_def rl_table_def)
qed

text \<open>C22. The memory of the limiter is bounded and accounted for: along every history the
  counter is the number of entries in the tables plus those that wait for their
  grace period, and never exceeds the limit of eight entries per bucket that the
  initialisation sets; and when the last user is gone no entry is left, whatever
  the hash and whichever allocations failed.\<close>

theorem ratelimiter_memory_bounded:
  assumes "wg_ratelimiter_init page_shift totalram cache_ok v4_ok v6_ok rl0 = (Inr (), rl1)"
    and "init_refcnt rl0 = 0" "total_entries rl0 = 0" "rl_unlinked rl0 = 0"
    and "rl = rl_run hash evs rl1"
  shows "total_entries rl = rl_live rl + rl_unlinked rl \<and>
    total_entries rl \<le> 8 * rl_table_size page_shift totalram \<and>
    total_entries (wg_ratelimiter_uninit now rl) = 0 \<and>
    rl_live (wg_ratelimiter_uninit now rl) = 0 \<and> \<not> gc_work (wg_ratelimiter_uninit now rl)"
proof -
  let ?n = "rl_table_size page_shift totalram"
  have rl1: "rl1 = rl0\<lparr>init_refcnt := 1, table_v4 := replicate ?n [], table_v6 := replicate ?n [],
      max_entries := ?n * 8, gc_work := True\<rparr>"
    using assms(1,2) by (auto simp: wg_ratelimiter_init_def Let_def split: if_splits)
  have "rl_bounded rl1"
    using assms(3,4) by (simp add: rl1 rl_bounded_def rl_counted_def rl_live_def table_size_pos)
  then have b: "rl_bounded rl" and fixed: "max_entries rl = ?n * 8" "init_refcnt rl = 1"
    unfolding assms(5) by (simp_all add: rl_run_bounded rl_run_fixed) (simp_all add: rl1)
  then show ?thesis
    using uninit_counted [of rl now] uninit_down [of rl now] by (simp add: rl_bounded_def rl_counted_def)
qed

theorem ratelimiter_memory_bounded_witness:
  "total_entries (rl_run demo_hash demo_events demo_limiter) = 1 \<and>
   total_entries (wg_ratelimiter_uninit 0 (rl_run demo_hash demo_events demo_limiter)) = 0"
proof
  show "total_entries (rl_run demo_hash demo_events demo_limiter) = 1" by code_simp
  have "wg_ratelimiter_init 12 16 True True True
      \<lparr>table_v4 = [], table_v6 = [], total_entries = 0, max_entries = 0, rl_unlinked = 0,
       gc_work = False, init_refcnt = 0\<rparr> = (Inr (), demo_limiter)"
    by (simp add: wg_ratelimiter_init_def Let_def rl_table_size_def roundup_pow_of_two_def demo_limiter_def)
  then show "total_entries (wg_ratelimiter_uninit 0 (rl_run demo_hash demo_events demo_limiter)) = 0"
    using ratelimiter_memory_bounded [OF _ _ _ _ refl, of 12 16 True True True _ demo_limiter demo_hash demo_events 0] by simp
qed

end
