(* ===== verification/Messages.thy ===== *)
theory Messages
  imports Skb
begin

text \<open>
  The message formats of kernel/messages.h: the four WireGuard messages as records,
  with their layout as bytes. Little-endian members are held as the numbers they
  denote.
\<close>

definition NOISE_PUBLIC_KEY_LEN :: nat where "NOISE_PUBLIC_KEY_LEN = 32"
definition NOISE_SYMMETRIC_KEY_LEN :: nat where "NOISE_SYMMETRIC_KEY_LEN = 32"
definition NOISE_TIMESTAMP_LEN :: nat where "NOISE_TIMESTAMP_LEN = 12"
definition NOISE_AUTHTAG_LEN :: nat where "NOISE_AUTHTAG_LEN = 16"
definition NOISE_HASH_LEN :: nat where "NOISE_HASH_LEN = 32"
definition COOKIE_LEN :: nat where "COOKIE_LEN = 16"
definition COOKIE_NONCE_LEN :: nat where "COOKIE_NONCE_LEN = 24"
definition COOKIE_SECRET_MAX_AGE :: u64 where "COOKIE_SECRET_MAX_AGE = 2 * 60"
definition COOKIE_SECRET_LATENCY :: u64 where "COOKIE_SECRET_LATENCY = 5"
definition REKEY_AFTER_MESSAGES :: u64 where "REKEY_AFTER_MESSAGES = push_bit 60 1"
definition REKEY_TIMEOUT :: u64 where "REKEY_TIMEOUT = 5"
definition REKEY_AFTER_TIME :: u64 where "REKEY_AFTER_TIME = 120"
definition REJECT_AFTER_TIME :: u64 where "REJECT_AFTER_TIME = 180"
definition INITIATIONS_PER_SECOND :: u64 where "INITIATIONS_PER_SECOND = 50"
definition KEEPALIVE_TIMEOUT :: u64 where "KEEPALIVE_TIMEOUT = 10"
definition MAX_TIMER_HANDSHAKES :: nat where "MAX_TIMER_HANDSHAKES = 90 div 5"
definition MAX_QUEUED_INCOMING_HANDSHAKES :: nat where "MAX_QUEUED_INCOMING_HANDSHAKES = 4096"
definition MAX_STAGED_PACKETS :: nat where "MAX_STAGED_PACKETS = 128"
definition MESSAGE_PADDING_MULTIPLE :: nat where "MESSAGE_PADDING_MULTIPLE = 16"

definition noise_encrypted_len :: "nat \<Rightarrow> nat" where
  "noise_encrypted_len plain_len = plain_len + NOISE_AUTHTAG_LEN"

text \<open>\<open>wg_birthdate_has_expired\<close> of kernel/timers.h; \<open>now\<close> is the clock it reads.\<close>

definition wg_birthdate_has_expired :: "u64 \<Rightarrow> u64 \<Rightarrow> u64 \<Rightarrow> bool" where
  "wg_birthdate_has_expired now birthday_nanoseconds expiration_seconds \<longleftrightarrow>
     sint (birthday_nanoseconds + expiration_seconds * NSEC_PER_SEC) \<le> sint now"

section \<open>Little-endian integers\<close>

definition put_le32 :: "u32 \<Rightarrow> bytes" where
  "put_le32 w = rev (put_be32 w)"

fun get_le32 :: "bytes \<Rightarrow> u32" where
  "get_le32 (a # b # c # d # _) = get_be32 d c b a"
| "get_le32 _ = 0"

definition put_le64 :: "u64 \<Rightarrow> bytes" where
  "put_le64 w = put_le32 (ucast w) @ put_le32 (ucast (drop_bit 32 w))"

definition get_le64 :: "bytes \<Rightarrow> u64" where
  "get_le64 bs = ucast (get_le32 bs) OR push_bit 32 (ucast (get_le32 (drop 4 bs)))"

section \<open>Messages\<close>

definition MESSAGE_HANDSHAKE_INITIATION :: u32 where "MESSAGE_HANDSHAKE_INITIATION = 1"
definition MESSAGE_HANDSHAKE_RESPONSE :: u32 where "MESSAGE_HANDSHAKE_RESPONSE = 2"
definition MESSAGE_HANDSHAKE_COOKIE :: u32 where "MESSAGE_HANDSHAKE_COOKIE = 3"
definition MESSAGE_DATA :: u32 where "MESSAGE_DATA = 4"

record message_macs =
  mac1 :: bytes
  mac2 :: bytes

record message_handshake_initiation =
  mi_sender_index :: u32
  mi_unencrypted_ephemeral :: bytes
  mi_encrypted_static :: bytes
  mi_encrypted_timestamp :: bytes
  mi_macs :: message_macs

record message_handshake_response =
  mr_sender_index :: u32
  mr_receiver_index :: u32
  mr_unencrypted_ephemeral :: bytes
  mr_encrypted_nothing :: bytes
  mr_macs :: message_macs

record message_handshake_cookie =
  mc_receiver_index :: u32
  mc_nonce :: bytes
  mc_encrypted_cookie :: bytes

record message_data =
  md_key_idx :: u32
  md_counter :: u64
  md_encrypted_data :: bytes

definition sizeof_message_header :: nat where "sizeof_message_header = 4"
definition sizeof_message_macs :: nat where "sizeof_message_macs = 2 * COOKIE_LEN"

definition sizeof_initiation :: nat where
  "sizeof_initiation = sizeof_message_header + 4 + NOISE_PUBLIC_KEY_LEN +
     noise_encrypted_len NOISE_PUBLIC_KEY_LEN + noise_encrypted_len NOISE_TIMESTAMP_LEN + sizeof_message_macs"

definition sizeof_response :: nat where
  "sizeof_response = sizeof_message_header + 4 + 4 + NOISE_PUBLIC_KEY_LEN + noise_encrypted_len 0 +
     sizeof_message_macs"

definition sizeof_cookie :: nat where
  "sizeof_cookie = sizeof_message_header + 4 + COOKIE_NONCE_LEN + noise_encrypted_len COOKIE_LEN"

definition sizeof_message_data :: nat where
  "sizeof_message_data = sizeof_message_header + 4 + 8"

definition message_data_len :: "nat \<Rightarrow> nat" where
  "message_data_len plain_len = noise_encrypted_len plain_len + sizeof_message_data"

lemmas message_sizes = sizeof_initiation_def sizeof_response_def sizeof_cookie_def sizeof_message_data_def
  sizeof_message_header_def sizeof_message_macs_def noise_encrypted_len_def NOISE_PUBLIC_KEY_LEN_def
  NOISE_SYMMETRIC_KEY_LEN_def NOISE_TIMESTAMP_LEN_def NOISE_AUTHTAG_LEN_def NOISE_HASH_LEN_def
  COOKIE_LEN_def COOKIE_NONCE_LEN_def message_data_len_def

text \<open>The layouts, and reading a message back through a cast of the packet's data.\<close>

definition macs_bytes :: "message_macs \<Rightarrow> bytes" where
  "macs_bytes m = mac1 m @ mac2 m"

definition initiation_bytes :: "message_handshake_initiation \<Rightarrow> bytes" where
  "initiation_bytes m = put_le32 MESSAGE_HANDSHAKE_INITIATION @ put_le32 (mi_sender_index m) @
     mi_unencrypted_ephemeral m @ mi_encrypted_static m @ mi_encrypted_timestamp m @ macs_bytes (mi_macs m)"

definition response_bytes :: "message_handshake_response \<Rightarrow> bytes" where
  "response_bytes m = put_le32 MESSAGE_HANDSHAKE_RESPONSE @ put_le32 (mr_sender_index m) @
     put_le32 (mr_receiver_index m) @ mr_unencrypted_ephemeral m @ mr_encrypted_nothing m @ macs_bytes (mr_macs m)"

definition cookie_bytes :: "message_handshake_cookie \<Rightarrow> bytes" where
  "cookie_bytes m = put_le32 MESSAGE_HANDSHAKE_COOKIE @ put_le32 (mc_receiver_index m) @
     mc_nonce m @ mc_encrypted_cookie m"

definition data_bytes :: "message_data \<Rightarrow> bytes" where
  "data_bytes m = put_le32 MESSAGE_DATA @ put_le32 (md_key_idx m) @ put_le64 (md_counter m) @ md_encrypted_data m"

definition field :: "nat \<Rightarrow> nat \<Rightarrow> bytes \<Rightarrow> bytes" where
  "field off n bs = take n (drop off bs)"

definition read_initiation :: "bytes \<Rightarrow> message_handshake_initiation" where
  "read_initiation bs = \<lparr>mi_sender_index = get_le32 (drop 4 bs), mi_unencrypted_ephemeral = field 8 32 bs,
     mi_encrypted_static = field 40 48 bs, mi_encrypted_timestamp = field 88 28 bs,
     mi_macs = \<lparr>mac1 = field 116 16 bs, mac2 = field 132 16 bs\<rparr>\<rparr>"

definition read_response :: "bytes \<Rightarrow> message_handshake_response" where
  "read_response bs = \<lparr>mr_sender_index = get_le32 (drop 4 bs), mr_receiver_index = get_le32 (drop 8 bs),
     mr_unencrypted_ephemeral = field 12 32 bs, mr_encrypted_nothing = field 44 16 bs,
     mr_macs = \<lparr>mac1 = field 60 16 bs, mac2 = field 76 16 bs\<rparr>\<rparr>"

definition read_cookie :: "bytes \<Rightarrow> message_handshake_cookie" where
  "read_cookie bs = \<lparr>mc_receiver_index = get_le32 (drop 4 bs), mc_nonce = field 8 24 bs,
     mc_encrypted_cookie = field 32 32 bs\<rparr>"

definition read_data :: "bytes \<Rightarrow> message_data" where
  "read_data bs = \<lparr>md_key_idx = get_le32 (drop 4 bs), md_counter = get_le64 (drop 8 bs),
     md_encrypted_data = drop 16 bs\<rparr>"

section \<open>Lemmas\<close>

lemma length_put_le [simp]: "length (put_le32 w) = 4" "length (put_le64 v) = 8"
  by (simp_all add: put_le32_def put_le64_def)

lemma get_put_le32 [simp]: "get_le32 (put_le32 w @ bs) = w"
  by (simp add: put_le32_def put_be32_def)

lemma get_put_le32_nil [simp]: "get_le32 (put_le32 w) = w"
  using get_put_le32 [of w "[]"] by simp

lemma get_put_le64 [simp]: "get_le64 (put_le64 w @ bs) = w"
proof -
  have "get_le64 (put_le64 w @ bs) = ucast (ucast w :: u32) OR push_bit 32 (ucast (ucast (drop_bit 32 w) :: u32))"
    by (simp add: get_le64_def put_le64_def)
  also have "\<dots> = w" by (rule bit_word_eqI) (auto simp: bit_simps)
  finally show ?thesis .
qed

text \<open>Every member has the size of its array.\<close>

definition macs_wf :: "message_macs \<Rightarrow> bool" where
  "macs_wf m \<longleftrightarrow> length (mac1 m) = 16 \<and> length (mac2 m) = 16"

definition initiation_wf :: "message_handshake_initiation \<Rightarrow> bool" where
  "initiation_wf m \<longleftrightarrow> length (mi_unencrypted_ephemeral m) = 32 \<and> length (mi_encrypted_static m) = 48 \<and>
     length (mi_encrypted_timestamp m) = 28 \<and> macs_wf (mi_macs m)"

definition response_wf :: "message_handshake_response \<Rightarrow> bool" where
  "response_wf m \<longleftrightarrow> length (mr_unencrypted_ephemeral m) = 32 \<and> length (mr_encrypted_nothing m) = 16 \<and>
     macs_wf (mr_macs m)"

definition cookie_wf :: "message_handshake_cookie \<Rightarrow> bool" where
  "cookie_wf m \<longleftrightarrow> length (mc_nonce m) = 24 \<and> length (mc_encrypted_cookie m) = 32"

lemma read_initiation_bytes: "initiation_wf m \<Longrightarrow> read_initiation (initiation_bytes m) = m"
  by (simp add: read_initiation_def initiation_bytes_def initiation_wf_def macs_wf_def macs_bytes_def field_def)

lemma read_response_bytes: "response_wf m \<Longrightarrow> read_response (response_bytes m) = m"
  by (simp add: read_response_def response_bytes_def response_wf_def macs_wf_def macs_bytes_def field_def)

lemma read_cookie_bytes: "cookie_wf m \<Longrightarrow> read_cookie (cookie_bytes m) = m"
  by (simp add: read_cookie_def cookie_bytes_def cookie_wf_def field_def)

lemma read_data_bytes: "read_data (data_bytes m) = m"
  by (simp add: read_data_def data_bytes_def)

lemma message_lengths:
  "initiation_wf i \<Longrightarrow> length (initiation_bytes i) = sizeof_initiation"
  "response_wf r \<Longrightarrow> length (response_bytes r) = sizeof_response"
  "cookie_wf c \<Longrightarrow> length (cookie_bytes c) = sizeof_cookie"
  "length (data_bytes d) = sizeof_message_data + length (md_encrypted_data d)"
  by (simp_all add: initiation_bytes_def response_bytes_def cookie_bytes_def data_bytes_def initiation_wf_def
      response_wf_def cookie_wf_def macs_wf_def macs_bytes_def message_sizes)

end
