(* ===== verification/Peer_Lookup.thy ===== *)
theory Peer_Lookup
  imports Messages
begin

text \<open>
  The two hash tables of kernel/peerlookup.c: peers by public key, and handshakes and
  keypairs by the 32-bit index that the remote side echoes. A bucket is the list of
  its entries. The keyed hash, the random numbers and whether a peer's reference count
  is still positive are parameters. The theorems show that both tables are maps.
\<close>

type_synonym pid = nat
type_synonym kid = nat

section \<open>Public keys\<close>

record pubkey_hashtable =
  pk_siphash :: "bytes \<Rightarrow> u64"
  pk_buckets :: "nat \<Rightarrow> (bytes \<times> pid) list"

definition pubkey_bucket :: "pubkey_hashtable \<Rightarrow> bytes \<Rightarrow> nat" where
  "pubkey_bucket table pubkey = unat (pk_siphash table pubkey AND 2047)"

definition wg_pubkey_hashtable_alloc :: "bool \<Rightarrow> (bytes \<Rightarrow> u64) \<Rightarrow> pubkey_hashtable option" where
  "wg_pubkey_hashtable_alloc alloc_ok siphash =
     (if alloc_ok then Some \<lparr>pk_siphash = siphash, pk_buckets = (\<lambda>_. [])\<rparr> else None)"

definition wg_pubkey_hashtable_add :: "bytes \<Rightarrow> pid \<Rightarrow> pubkey_hashtable \<Rightarrow> pubkey_hashtable" where
  "wg_pubkey_hashtable_add remote_static peer table =
     (let b = pubkey_bucket table remote_static in
      table\<lparr>pk_buckets := (pk_buckets table)(b := (remote_static, peer) # pk_buckets table b)\<rparr>)"

text \<open>A node is unlinked from whatever list it is in.\<close>

definition wg_pubkey_hashtable_remove :: "pid \<Rightarrow> pubkey_hashtable \<Rightarrow> pubkey_hashtable" where
  "wg_pubkey_hashtable_remove peer table =
     table\<lparr>pk_buckets := (\<lambda>b. filter (\<lambda>e. snd e \<noteq> peer) (pk_buckets table b))\<rparr>"

definition wg_pubkey_hashtable_lookup :: "(pid \<Rightarrow> bool) \<Rightarrow> bytes \<Rightarrow> pubkey_hashtable \<Rightarrow> pid option" where
  "wg_pubkey_hashtable_lookup alive pubkey table =
     (case List.find (\<lambda>e. fst e = pubkey) (pk_buckets table (pubkey_bucket table pubkey)) of
        None \<Rightarrow> None
      | Some (_, peer) \<Rightarrow> if alive peer then Some peer else None)"

section \<open>Indices\<close>

text \<open>What an entry is embedded in: a peer's handshake or a keypair.\<close>

datatype ientry = Handshake_entry pid | Keypair_entry kid

definition INDEX_HASHTABLE_HANDSHAKE :: u32 where "INDEX_HASHTABLE_HANDSHAKE = 1"
definition INDEX_HASHTABLE_KEYPAIR :: u32 where "INDEX_HASHTABLE_KEYPAIR = 2"

fun ientry_type :: "ientry \<Rightarrow> u32" where
  "ientry_type (Handshake_entry _) = INDEX_HASHTABLE_HANDSHAKE"
| "ientry_type (Keypair_entry _) = INDEX_HASHTABLE_KEYPAIR"

record index_hashtable_entry =
  ie_of :: ientry
  ie_peer :: pid
  ie_index :: u32

type_synonym index_hashtable = "nat \<Rightarrow> index_hashtable_entry list"

definition index_bucket :: "u32 \<Rightarrow> nat" where
  "index_bucket i = unat (i AND 8191)"

definition wg_index_hashtable_alloc :: "bool \<Rightarrow> index_hashtable option" where
  "wg_index_hashtable_alloc alloc_ok = (if alloc_ok then Some (\<lambda>_. []) else None)"

definition wg_index_hashtable_remove :: "ientry \<Rightarrow> index_hashtable \<Rightarrow> index_hashtable" where
  "wg_index_hashtable_remove e t = (\<lambda>b. filter (\<lambda>x. ie_of x \<noteq> e) (t b))"

definition index_used :: "index_hashtable \<Rightarrow> u32 \<Rightarrow> bool" where
  "index_used t i \<longleftrightarrow> list_ex (\<lambda>x. ie_index x = i) (t (index_bucket i))"

text \<open>
  The search: each random number is looked up without the lock, then again under it;
  \<open>env\<close> is what other contexts do to the table in between, and between two attempts.
  The search does not return when no random number of the list is free.
\<close>

fun index_search ::
  "(nat \<Rightarrow> index_hashtable \<Rightarrow> index_hashtable) \<Rightarrow> u32 list \<Rightarrow> index_hashtable_entry \<Rightarrow> index_hashtable \<Rightarrow>
   (u32 \<times> index_hashtable) option" where
  "index_search env [] e t = None"
| "index_search env (r # rs) e t =
     (if index_used t r then index_search env rs e t
      else
        let t1 = env (length rs) t in
        if index_used t1 r then index_search env rs e t1
        else Some (r, t1(index_bucket r := e\<lparr>ie_index := r\<rparr> # t1 (index_bucket r))))"

definition wg_index_hashtable_insert ::
  "(nat \<Rightarrow> index_hashtable \<Rightarrow> index_hashtable) \<Rightarrow> u32 list \<Rightarrow> index_hashtable_entry \<Rightarrow> index_hashtable \<Rightarrow>
   (u32 \<times> index_hashtable) option" where
  "wg_index_hashtable_insert env rs e t = index_search env rs e (wg_index_hashtable_remove (ie_of e) t)"

definition wg_index_hashtable_replace ::
  "ientry \<Rightarrow> ientry \<Rightarrow> pid \<Rightarrow> index_hashtable \<Rightarrow> bool \<times> index_hashtable" where
  "wg_index_hashtable_replace old new peer t =
     (if \<exists>b<8192. list_ex (\<lambda>x. ie_of x = old) (t b)
      then (True, \<lambda>b. map (\<lambda>x. if ie_of x = old then \<lparr>ie_of = new, ie_peer = peer, ie_index = ie_index x\<rparr> else x) (t b))
      else (False, t))"

definition wg_index_hashtable_lookup ::
  "(pid \<Rightarrow> bool) \<Rightarrow> u32 \<Rightarrow> u32 \<Rightarrow> index_hashtable \<Rightarrow> index_hashtable_entry option" where
  "wg_index_hashtable_lookup alive type_mask i t =
     (case List.find (\<lambda>x. ie_index x = i) (t (index_bucket i)) of
        None \<Rightarrow> None
      | Some x \<Rightarrow> if ientry_type (ie_of x) AND type_mask \<noteq> 0 \<and> alive (ie_peer x) then Some x else None)"

section \<open>The index table is a map\<close>

definition index_abs :: "index_hashtable \<Rightarrow> u32 \<Rightarrow> (ientry \<times> pid) option" where
  "index_abs t i = map_option (\<lambda>x. (ie_of x, ie_peer x)) (List.find (\<lambda>x. ie_index x = i) (t (index_bucket i)))"

text \<open>Entries hang in the bucket of their index; no two share an index, none is there twice.\<close>

definition index_inv :: "index_hashtable \<Rightarrow> bool" where
  "index_inv t \<longleftrightarrow>
     (\<forall>b x. x \<in> set (t b) \<longrightarrow> index_bucket (ie_index x) = b) \<and>
     (\<forall>b. distinct (map ie_index (t b))) \<and>
     (\<forall>b c x y. x \<in> set (t b) \<longrightarrow> y \<in> set (t c) \<longrightarrow> ie_of x = ie_of y \<longrightarrow> x = y)"

lemma index_bucket_less: "index_bucket i < 8192"
proof -
  have "i AND 8191 = take_bit 13 i" by (simp add: take_bit_eq_mask mask_eq_exp_minus_1)
  then show ?thesis by (simp add: index_bucket_def take_bit_eq_mod unat_mod_distrib)
qed

lemma find_distinct:
  "distinct (map f xs) \<Longrightarrow> x \<in> set xs \<Longrightarrow> List.find (\<lambda>y. f y = f x) xs = Some x"
  by (induction xs) auto

lemma index_absI:
  assumes "index_inv t" "x \<in> set (t b)"
  shows "index_abs t (ie_index x) = Some (ie_of x, ie_peer x)"
  using assms find_distinct [of ie_index "t b" x] by (auto simp: index_inv_def index_abs_def)

lemma index_absD:
  "index_abs t i = Some (e, p) \<Longrightarrow> \<exists>x\<in>set (t (index_bucket i)). ie_index x = i \<and> ie_of x = e \<and> ie_peer x = p"
  by (auto simp: index_abs_def find_Some_iff)

lemma index_abs_None: "index_abs t i = None \<longleftrightarrow> \<not> index_used t i"
  by (auto simp: index_abs_def index_used_def find_None_iff list_ex_iff)

lemma index_inj:
  assumes "index_inv t" "index_abs t i = Some (e, p)" "index_abs t j = Some (e, q)"
  shows "i = j"
  using index_absD [OF assms(2)] index_absD [OF assms(3)] assms(1) unfolding index_inv_def by blast

lemma index_alloc: "wg_index_hashtable_alloc True = Some t \<Longrightarrow> index_inv t \<and> index_abs t = Map.empty"
  by (auto simp: wg_index_hashtable_alloc_def index_inv_def index_abs_def)

lemma find_SomeD: "List.find P xs = Some x \<Longrightarrow> x \<in> set xs \<and> P x"
  by (auto simp: find_Some_iff)

lemma find_filter_distinct:
  "distinct (map f xs) \<Longrightarrow> List.find (\<lambda>y. f y = i) (filter P xs) =
    (case List.find (\<lambda>y. f y = i) xs of None \<Rightarrow> None | Some x \<Rightarrow> if P x then Some x else None)"
  by (induction xs) (auto simp: find_None_iff split: option.split dest!: find_SomeD)

lemma index_remove:
  assumes "index_inv t"
  shows "index_inv (wg_index_hashtable_remove e t)"
    "index_abs (wg_index_hashtable_remove e t) i =
      (case index_abs t i of Some (e', p) \<Rightarrow> if e' = e then None else Some (e', p) | None \<Rightarrow> None)"
proof -
  show "index_inv (wg_index_hashtable_remove e t)"
    using assms by (simp add: index_inv_def wg_index_hashtable_remove_def distinct_map_filter) blast
  have "distinct (map ie_index (t (index_bucket i)))" using assms by (simp add: index_inv_def)
  then show "index_abs (wg_index_hashtable_remove e t) i =
      (case index_abs t i of Some (e', p) \<Rightarrow> if e' = e then None else Some (e', p) | None \<Rightarrow> None)"
    by (simp add: index_abs_def wg_index_hashtable_remove_def find_filter_distinct split: option.split)
qed

definition absent :: "ientry \<Rightarrow> index_hashtable \<Rightarrow> bool" where
  "absent e t \<longleftrightarrow> (\<forall>b. \<forall>x\<in>set (t b). ie_of x \<noteq> e)"

lemma absent_remove: "absent e (wg_index_hashtable_remove e t)"
  by (simp add: absent_def wg_index_hashtable_remove_def)

lemma index_add:
  assumes inv: "index_inv t" and free: "\<not> index_used t i" and new: "absent (ie_of e) t"
  defines "t' \<equiv> t(index_bucket i := e\<lparr>ie_index := i\<rparr> # t (index_bucket i))"
  shows "index_inv t'" "index_abs t' = (index_abs t)(i \<mapsto> (ie_of e, ie_peer e))"
proof -
  have "i \<notin> ie_index ` set (t (index_bucket i))" using free by (auto simp: index_used_def list_ex_iff)
  then show "index_inv t'"
    using inv new unfolding index_inv_def absent_def t'_def by (auto split: if_splits) metis+
  show "index_abs t' = (index_abs t)(i \<mapsto> (ie_of e, ie_peer e))"
    by (rule ext) (auto simp: index_abs_def t'_def)
qed

text \<open>What other contexts do to the table while an entry is being inserted: anything that does not concern it.\<close>

definition others :: "ientry \<Rightarrow> (nat \<Rightarrow> index_hashtable \<Rightarrow> index_hashtable) \<Rightarrow> bool" where
  "others e env \<longleftrightarrow> (\<forall>n t. index_inv t \<and> absent e t \<longrightarrow> index_inv (env n t) \<and> absent e (env n t))"

lemma othersD:
  "others e env \<Longrightarrow> index_inv t \<Longrightarrow> absent e t \<Longrightarrow> index_inv (env n t) \<and> absent e (env n t)"
  by (simp add: others_def)

lemma index_search_ok:
  assumes "others (ie_of e) env" "index_search env rs e t = Some (i, t')" "index_inv t" "absent (ie_of e) t"
  shows "index_inv t' \<and> i \<in> set rs \<and> (\<exists>t1. index_inv t1 \<and> i \<notin> dom (index_abs t1) \<and>
    index_abs t' = (index_abs t1)(i \<mapsto> (ie_of e, ie_peer e)))"
  using assms(2-)
proof (induction rs arbitrary: t)
  case (Cons r rs)
  note o = othersD [OF assms(1) Cons.prems(2,3), of "length rs"]
  show ?case
  proof (cases "index_used t r \<or> index_used (env (length rs) t) r")
    case True
    then show ?thesis using Cons o by (auto simp: Let_def split: if_splits)
  next
    case False
    let ?t1 = "env (length rs) t"
    have eq: "i = r" "t' = ?t1(index_bucket r := e\<lparr>ie_index := r\<rparr> # ?t1 (index_bucket r))"
      using Cons.prems(1) False by (auto simp: Let_def)
    have "index_inv t'" "index_abs t' = (index_abs ?t1)(r \<mapsto> (ie_of e, ie_peer e))"
      unfolding eq(2) using index_add [of ?t1 r e] o False by blast+
    moreover have "r \<notin> dom (index_abs ?t1)" using False index_abs_None [of ?t1 r] by auto
    ultimately show ?thesis unfolding eq(1) using o by auto
  qed
qed simp

lemma index_search_returns:
  assumes "r \<in> set rs" "\<And>n t. \<not> index_used t r \<Longrightarrow> \<not> index_used (env n t) r" "\<not> index_used t r"
  shows "index_search env rs e t \<noteq> None"
  using assms
  by (induction env rs e t rule: index_search.induct) (auto simp: Let_def)

lemma used_remove: "index_used (wg_index_hashtable_remove e t) i \<Longrightarrow> index_used t i"
  by (auto simp: index_used_def wg_index_hashtable_remove_def list_ex_iff)

lemma find_map_index:
  "(\<And>x. ie_index (f x) = ie_index x) \<Longrightarrow>
    List.find (\<lambda>x. ie_index x = i) (map f xs) = map_option f (List.find (\<lambda>x. ie_index x = i) xs)"
  by (induction xs) auto

lemma index_replace:
  assumes inv: "index_inv t" and new: "absent new t" and r: "wg_index_hashtable_replace old new p t = (b, t')"
  shows "index_inv t'" "b = (\<exists>i q. index_abs t i = Some (old, q))"
    "index_abs t' i = (case index_abs t i of None \<Rightarrow> None
       | Some (e, q) \<Rightarrow> Some (if e = old then (new, p) else (e, q)))"
proof -
  let ?f = "\<lambda>x. if ie_of x = old then \<lparr>ie_of = new, ie_peer = p, ie_index = ie_index x\<rparr> else x"
  have f: "map ie_index (map ?f xs) = map ie_index xs" for xs by (simp add: comp_def)
  have hashed: "(\<exists>b<8192. list_ex (\<lambda>x. ie_of x = old) (t b)) \<longleftrightarrow> (\<exists>i q. index_abs t i = Some (old, q))"
  proof
    assume "\<exists>b<8192. list_ex (\<lambda>x. ie_of x = old) (t b)"
    then show "\<exists>i q. index_abs t i = Some (old, q)" using index_absI [OF inv] by (fastforce simp: list_ex_iff)
  next
    assume "\<exists>i q. index_abs t i = Some (old, q)"
    then obtain i q where "index_abs t i = Some (old, q)" by blast
    then obtain x where "x \<in> set (t (index_bucket i))" "ie_of x = old" using index_absD by blast
    then show "\<exists>b<8192. list_ex (\<lambda>x. ie_of x = old) (t b)"
      using index_bucket_less [of i] by (auto simp: list_ex_iff)
  qed
  then show b: "b = (\<exists>i q. index_abs t i = Some (old, q))"
    using r unfolding wg_index_hashtable_replace_def hashed by (auto split: if_splits)
  have t': "t' = (if b then \<lambda>b. map ?f (t b) else t)" using r by (auto simp: wg_index_hashtable_replace_def split: if_splits)
  have "index_inv (\<lambda>b. map ?f (t b))"
    using inv new unfolding index_inv_def absent_def f by (auto split: if_splits) metis+
  then show "index_inv t'" using inv t' by simp
  show "index_abs t' i = (case index_abs t i of None \<Rightarrow> None
       | Some (e, q) \<Rightarrow> Some (if e = old then (new, p) else (e, q)))"
  proof (cases b)
    case True
    then show ?thesis by (auto simp: t' index_abs_def find_map_index [where f = ?f] split: option.split)
  next
    case False
    then show ?thesis using b by (auto simp: t' split: option.split)
  qed
qed

lemma index_lookup:
  "map_option (\<lambda>x. (ie_of x, ie_peer x)) (wg_index_hashtable_lookup alive type_mask i t) =
    (case index_abs t i of None \<Rightarrow> None
     | Some (e, p) \<Rightarrow> if ientry_type e AND type_mask \<noteq> 0 \<and> alive p then Some (e, p) else None)"
  by (simp add: wg_index_hashtable_lookup_def index_abs_def split: option.split)

lemma others_id [simp]: "others e (\<lambda>_ t. t)"
  by (simp add: others_def)

section \<open>The table of public keys is a map\<close>

definition pubkey_abs :: "pubkey_hashtable \<Rightarrow> bytes \<Rightarrow> pid option" where
  "pubkey_abs t k = map_option snd (List.find (\<lambda>e. fst e = k) (pk_buckets t (pubkey_bucket t k)))"

definition pubkey_inv :: "pubkey_hashtable \<Rightarrow> bool" where
  "pubkey_inv t \<longleftrightarrow>
     (\<forall>b x. x \<in> set (pk_buckets t b) \<longrightarrow> pubkey_bucket t (fst x) = b) \<and> (\<forall>b. distinct (map fst (pk_buckets t b)))"

lemma pubkey_add:
  assumes "pubkey_inv t" "pubkey_abs t k = None"
  shows "pubkey_inv (wg_pubkey_hashtable_add k p t)"
    "pubkey_abs (wg_pubkey_hashtable_add k p t) = (pubkey_abs t)(k \<mapsto> p)"
proof -
  have b: "pubkey_bucket (wg_pubkey_hashtable_add k p t) = pubkey_bucket t"
    by (rule ext) (simp add: pubkey_bucket_def wg_pubkey_hashtable_add_def Let_def)
  have "k \<notin> fst ` set (pk_buckets t (pubkey_bucket t k))"
    using assms(2) by (force simp: pubkey_abs_def find_None_iff)
  then show "pubkey_inv (wg_pubkey_hashtable_add k p t)"
    using assms(1) unfolding pubkey_inv_def b by (auto simp: wg_pubkey_hashtable_add_def Let_def)
  show "pubkey_abs (wg_pubkey_hashtable_add k p t) = (pubkey_abs t)(k \<mapsto> p)"
    unfolding pubkey_abs_def b by (rule ext) (auto simp: wg_pubkey_hashtable_add_def Let_def)
qed

lemma pubkey_remove:
  assumes "pubkey_inv t"
  shows "pubkey_inv (wg_pubkey_hashtable_remove p t)"
    "pubkey_abs (wg_pubkey_hashtable_remove p t) k = (if pubkey_abs t k = Some p then None else pubkey_abs t k)"
proof -
  have b: "pubkey_bucket (wg_pubkey_hashtable_remove p t) = pubkey_bucket t"
    by (rule ext) (simp add: pubkey_bucket_def wg_pubkey_hashtable_remove_def)
  show "pubkey_inv (wg_pubkey_hashtable_remove p t)"
    using assms unfolding pubkey_inv_def b by (auto simp: wg_pubkey_hashtable_remove_def distinct_map_filter)
  show "pubkey_abs (wg_pubkey_hashtable_remove p t) k = (if pubkey_abs t k = Some p then None else pubkey_abs t k)"
    using assms unfolding pubkey_abs_def b pubkey_inv_def
    by (simp add: wg_pubkey_hashtable_remove_def find_filter_distinct split: option.split)
qed

lemma pubkey_lookup:
  "wg_pubkey_hashtable_lookup alive k t =
    (case pubkey_abs t k of None \<Rightarrow> None | Some p \<Rightarrow> if alive p then Some p else None)"
  by (auto simp: wg_pubkey_hashtable_lookup_def pubkey_abs_def split: option.split)

section \<open>Properties\<close>

text \<open>C30. An index names one session: whatever other contexts do to the table meanwhile,
  an insertion returns an index that no other entry has at that moment, the entry is then
  found under it, no other entry is affected, and the entry's former index is gone.\<close>

theorem index_insert_unique:
  assumes "index_inv t" "others (ie_of e) env" "wg_index_hashtable_insert env rs e t = Some (i, t')"
  shows "index_inv t' \<and> (\<exists>t1. index_inv t1 \<and> i \<notin> dom (index_abs t1) \<and>
    index_abs t' = (index_abs t1)(i \<mapsto> (ie_of e, ie_peer e))) \<and>
    (\<forall>j p. index_abs t' j = Some (ie_of e, p) \<longrightarrow> j = i)"
proof -
  have inv: "index_inv t'"
    and t1: "\<exists>t1. index_inv t1 \<and> i \<notin> dom (index_abs t1) \<and> index_abs t' = (index_abs t1)(i \<mapsto> (ie_of e, ie_peer e))"
    using index_search_ok [OF assms(2) assms(3) [unfolded wg_index_hashtable_insert_def]
        index_remove(1) [OF assms(1)] absent_remove] by auto
  have "index_abs t' i = Some (ie_of e, ie_peer e)" using t1 by auto
  then have "\<forall>j p. index_abs t' j = Some (ie_of e, p) \<longrightarrow> j = i" using index_inj [OF inv] by blast
  then show ?thesis using inv t1 by blast
qed

text \<open>C31. An insertion ends: it returns as soon as the random source yields a number that is
  free and that nobody takes.\<close>

theorem index_insert_terminates:
  assumes "r \<in> set rs" "\<not> index_used t r" "\<And>n t. \<not> index_used t r \<Longrightarrow> \<not> index_used (env n t) r"
  shows "\<exists>i t'. wg_index_hashtable_insert env rs e t = Some (i, t')"
proof -
  have "\<not> index_used (wg_index_hashtable_remove (ie_of e) t) r" using used_remove assms(2) by blast
  then have "wg_index_hashtable_insert env rs e t \<noteq> None"
    unfolding wg_index_hashtable_insert_def using assms(3) by (intro index_search_returns [OF assms(1)])
  then show ?thesis by (cases "wg_index_hashtable_insert env rs e t") auto
qed

text \<open>Two handshakes; the first random number is taken, the second is taken while it is being checked.\<close>

definition demo_index :: index_hashtable where
  "demo_index = (\<lambda>_. [])(5 := [\<lparr>ie_of = Handshake_entry 1, ie_peer = 1, ie_index = 5\<rparr>])"

definition demo_thief :: "nat \<Rightarrow> index_hashtable \<Rightarrow> index_hashtable" where
  "demo_thief n t = (if n = 1 \<and> t = demo_index then t(6 := [\<lparr>ie_of = Keypair_entry 4, ie_peer = 1, ie_index = 6\<rparr>]) else t)"

definition demo_ientry :: index_hashtable_entry where
  "demo_ientry = \<lparr>ie_of = Handshake_entry 2, ie_peer = 2, ie_index = 0\<rparr>"

lemma demo_index_inv: "index_inv demo_index"
  by (auto simp: index_inv_def demo_index_def index_bucket_def)

lemma demo_thief_others: "others (Handshake_entry 2) demo_thief"
proof -
  have "index_inv (demo_index(6 := [\<lparr>ie_of = Keypair_entry 4, ie_peer = 1, ie_index = 6\<rparr>]))"
    by (auto simp: index_inv_def demo_index_def index_bucket_def split: if_splits)
  moreover have "absent (Handshake_entry 2) (demo_index(6 := [\<lparr>ie_of = Keypair_entry 4, ie_peer = 1, ie_index = 6\<rparr>]))"
    by (simp add: absent_def demo_index_def)
  ultimately show ?thesis by (simp add: others_def demo_thief_def)
qed

lemma demo_insert:
  "\<exists>t'. wg_index_hashtable_insert demo_thief [5, 6, 7] demo_ientry demo_index = Some (7, t')"
proof -
  have "wg_index_hashtable_remove (Handshake_entry 2) demo_index = demo_index"
    by (rule ext) (simp add: wg_index_hashtable_remove_def demo_index_def)
  then show ?thesis
    by (simp add: wg_index_hashtable_insert_def demo_ientry_def demo_thief_def index_used_def index_bucket_def)
      (simp add: demo_index_def)
qed

theorem index_insert_unique_witness:
  "\<exists>t'. wg_index_hashtable_insert demo_thief [5, 6, 7] demo_ientry demo_index = Some (7, t') \<and> index_inv t' \<and>
     (\<forall>j p. index_abs t' j = Some (Handshake_entry 2, p) \<longrightarrow> j = 7)"
proof -
  obtain t' where t': "wg_index_hashtable_insert demo_thief [5, 6, 7] demo_ientry demo_index = Some (7, t')"
    using demo_insert by blast
  have "others (ie_of demo_ientry) demo_thief" using demo_thief_others by (simp add: demo_ientry_def)
  from index_insert_unique [OF demo_index_inv this t'] t' show ?thesis by (auto simp: demo_ientry_def)
qed

theorem index_insert_terminates_witness:
  "\<exists>i t'. wg_index_hashtable_insert demo_thief [5, 6, 7] demo_ientry demo_index = Some (i, t')"
  by (rule index_insert_terminates [where r = 7])
    (simp_all add: index_used_def index_bucket_def demo_index_def demo_thief_def)

end
