(* ===== verification/Noise.thy ===== *)
theory Noise
  imports Peer_Lookup Tcp_State
begin

text \<open>
  The handshake of kernel/noise.c, Noise IKpsk2. The primitives of the kernel's
  cryptographic library are a parameter (\<open>crypto\<close>); \<open>crypto_ok\<close> states what the protocol
  needs of them: both sides of a Diffie-Hellman exchange get the same point, clamping
  a secret does not change its public key, a hash has the length asked for, decryption
  inverts encryption, and a ciphertext is longer than its plaintext by the tag. Random
  numbers, the clock and the success of allocations are arguments. A handshake's lock
  makes each function atomic except where it gives the lock up; what runs there is an
  argument too.
\<close>

section \<open>Primitives\<close>

record crypto =
  curve25519 :: "bytes \<Rightarrow> bytes \<Rightarrow> bytes option"
  curve25519_generate_public :: "bytes \<Rightarrow> bytes option"
  curve25519_clamp_secret :: "bytes \<Rightarrow> bytes"
  blake2s :: "nat \<Rightarrow> bytes \<Rightarrow> bytes \<Rightarrow> bytes"
  chacha20poly1305_encrypt :: "bytes \<Rightarrow> bytes \<Rightarrow> u64 \<Rightarrow> bytes \<Rightarrow> bytes"
  chacha20poly1305_decrypt :: "bytes \<Rightarrow> bytes \<Rightarrow> u64 \<Rightarrow> bytes \<Rightarrow> bytes option"
  xchacha20poly1305_encrypt :: "bytes \<Rightarrow> bytes \<Rightarrow> bytes \<Rightarrow> bytes \<Rightarrow> bytes"
  xchacha20poly1305_decrypt :: "bytes \<Rightarrow> bytes \<Rightarrow> bytes \<Rightarrow> bytes \<Rightarrow> bytes option"

text \<open>\<open>curve25519 private public\<close> is \<open>None\<close> for the zero point; \<open>blake2s outlen key input\<close>; the ciphers
  take text, associated data, nonce and key.\<close>

definition dh_ok :: "crypto \<Rightarrow> bool" where
  "dh_ok cr \<longleftrightarrow>
     (\<forall>x y X Y. curve25519_generate_public cr x = Some X \<longrightarrow> curve25519_generate_public cr y = Some Y \<longrightarrow>
        curve25519 cr x Y = curve25519 cr y X)"

definition clamp_ok :: "crypto \<Rightarrow> bool" where
  "clamp_ok cr \<longleftrightarrow>
     (\<forall>x X. curve25519_generate_public cr x = Some X \<longrightarrow>
        curve25519_generate_public cr (curve25519_clamp_secret cr x) = Some X)"

definition hash_ok :: "crypto \<Rightarrow> bool" where
  "hash_ok cr \<longleftrightarrow> (\<forall>n k i. length (blake2s cr n k i) = n)"

definition aead_ok :: "crypto \<Rightarrow> bool" where
  "aead_ok cr \<longleftrightarrow>
     (\<forall>p ad n k. chacha20poly1305_decrypt cr (chacha20poly1305_encrypt cr p ad n k) ad n k = Some p) \<and>
     (\<forall>c ad n k p. chacha20poly1305_decrypt cr c ad n k = Some p \<longrightarrow> length c = length p + NOISE_AUTHTAG_LEN)"

definition xaead_ok :: "crypto \<Rightarrow> bool" where
  "xaead_ok cr \<longleftrightarrow>
     (\<forall>p ad n k. xchacha20poly1305_decrypt cr (xchacha20poly1305_encrypt cr p ad n k) ad n k = Some p)"

definition crypto_ok :: "crypto \<Rightarrow> bool" where
  "crypto_ok cr \<longleftrightarrow> dh_ok cr \<and> clamp_ok cr \<and> hash_ok cr \<and> aead_ok cr \<and> xaead_ok cr"

definition BLAKE2S_BLOCK_SIZE :: nat where "BLAKE2S_BLOCK_SIZE = 64"
definition BLAKE2S_HASH_SIZE :: nat where "BLAKE2S_HASH_SIZE = 32"

definition pad_key :: "bytes \<Rightarrow> bytes" where
  "pad_key key = key @ replicate (BLAKE2S_BLOCK_SIZE - length key) 0"

definition hmac :: "crypto \<Rightarrow> bytes \<Rightarrow> bytes \<Rightarrow> bytes" where
  "hmac cr inp key =
     (let x_key = pad_key (if length key > BLAKE2S_BLOCK_SIZE then blake2s cr BLAKE2S_HASH_SIZE [] key else key);
          x_key1 = map (\<lambda>b. b XOR 0x36) x_key;
          i_hash = blake2s cr BLAKE2S_HASH_SIZE [] (x_key1 @ inp);
          x_key2 = map (\<lambda>b. b XOR (0x5c XOR 0x36)) x_key1
      in blake2s cr BLAKE2S_HASH_SIZE [] (x_key2 @ i_hash))"

text \<open>The outputs that are not wanted have length 0.\<close>

definition kdf :: "crypto \<Rightarrow> bytes \<Rightarrow> nat \<Rightarrow> nat \<Rightarrow> nat \<Rightarrow> bytes \<Rightarrow> bytes \<times> bytes \<times> bytes" where
  "kdf cr data first_len second_len third_len chaining_key =
     (let secret = hmac cr data chaining_key in
      if first_len = 0 then ([], [], [])
      else
        let output1 = hmac cr [1] secret in
        if second_len = 0 then (take first_len output1, [], [])
        else
          let output2 = hmac cr (output1 @ [2]) secret in
          if third_len = 0 then (take first_len output1, take second_len output2, [])
          else (take first_len output1, take second_len output2,
                take third_len (hmac cr (output2 @ [3]) secret)))"

definition handshake_name :: string where "handshake_name = ''Noise_IKpsk2_25519_ChaChaPoly_BLAKE2s''"
definition identifier_name :: string where "identifier_name = ''WireGuard v1 zx2c4 Jason@zx2c4.com''"

definition ascii :: "string \<Rightarrow> bytes" where
  "ascii s = map of_char s"

text \<open>\<open>wg_noise_init\<close>: the initial chaining key and hash.\<close>

definition wg_noise_init :: "crypto \<Rightarrow> bytes \<times> bytes" where
  "wg_noise_init cr =
     (let ck = blake2s cr NOISE_HASH_LEN [] (ascii handshake_name)
      in (ck, blake2s cr NOISE_HASH_LEN [] (ck @ ascii identifier_name)))"

definition mix_dh :: "crypto \<Rightarrow> bytes \<Rightarrow> bytes \<Rightarrow> bytes \<Rightarrow> (bytes \<times> bytes) option" where
  "mix_dh cr chaining_key private public =
     (case curve25519 cr private public of
        None \<Rightarrow> None
      | Some dh \<Rightarrow> (case kdf cr dh NOISE_HASH_LEN NOISE_SYMMETRIC_KEY_LEN 0 chaining_key of (ck, key, _) \<Rightarrow> Some (ck, key)))"

definition mix_precomputed_dh :: "crypto \<Rightarrow> bytes \<Rightarrow> bytes \<Rightarrow> (bytes \<times> bytes) option" where
  "mix_precomputed_dh cr chaining_key precomputed =
     (if precomputed = replicate NOISE_PUBLIC_KEY_LEN 0 then None
      else (case kdf cr precomputed NOISE_HASH_LEN NOISE_SYMMETRIC_KEY_LEN 0 chaining_key of (ck, key, _) \<Rightarrow> Some (ck, key)))"

definition mix_hash :: "crypto \<Rightarrow> bytes \<Rightarrow> bytes \<Rightarrow> bytes" where
  "mix_hash cr hash src = blake2s cr NOISE_HASH_LEN [] (hash @ src)"

definition mix_psk :: "crypto \<Rightarrow> bytes \<Rightarrow> bytes \<Rightarrow> bytes \<Rightarrow> bytes \<times> bytes \<times> bytes" where
  "mix_psk cr chaining_key hash psk =
     (case kdf cr psk NOISE_HASH_LEN NOISE_HASH_LEN NOISE_SYMMETRIC_KEY_LEN chaining_key of
        (ck, temp_hash, key) \<Rightarrow> (ck, mix_hash cr hash temp_hash, key))"

definition handshake_init :: "crypto \<Rightarrow> bytes \<Rightarrow> bytes \<times> bytes" where
  "handshake_init cr remote_static =
     (case wg_noise_init cr of (ck, hash) \<Rightarrow> (ck, mix_hash cr hash remote_static))"

definition message_encrypt :: "crypto \<Rightarrow> bytes \<Rightarrow> bytes \<Rightarrow> bytes \<Rightarrow> bytes \<times> bytes" where
  "message_encrypt cr src_plaintext key hash =
     (let c = chacha20poly1305_encrypt cr src_plaintext hash 0 key in (c, mix_hash cr hash c))"

definition message_decrypt :: "crypto \<Rightarrow> bytes \<Rightarrow> bytes \<Rightarrow> bytes \<Rightarrow> (bytes \<times> bytes) option" where
  "message_decrypt cr src_ciphertext key hash =
     (case chacha20poly1305_decrypt cr src_ciphertext hash 0 key of
        None \<Rightarrow> None
      | Some p \<Rightarrow> Some (p, mix_hash cr hash src_ciphertext))"

definition message_ephemeral :: "crypto \<Rightarrow> bytes \<Rightarrow> bytes \<Rightarrow> bytes \<Rightarrow> bytes \<times> bytes" where
  "message_ephemeral cr ephemeral chaining_key hash =
     (fst (kdf cr ephemeral NOISE_HASH_LEN 0 0 chaining_key), mix_hash cr hash ephemeral)"

text \<open>\<open>tai64n_now\<close>: the nanoseconds are rounded down to a multiple of \<open>2 ^ 24\<close>.\<close>

definition put_be64 :: "u64 \<Rightarrow> bytes" where
  "put_be64 w = put_be32 (ucast (drop_bit 32 w)) @ put_be32 (ucast w)"

definition tai64n_now :: "u64 \<times> u32 \<Rightarrow> bytes" where
  "tai64n_now now = put_be64 (0x400000000000000a + fst now) @ put_be32 (snd now AND NOT 0xffffff)"

section \<open>State\<close>

record noise_static_identity =
  static_public :: bytes
  static_private :: bytes
  has_identity :: bool

datatype noise_handshake_state =
    HANDSHAKE_ZEROED | HANDSHAKE_CREATED_INITIATION | HANDSHAKE_CONSUMED_INITIATION
  | HANDSHAKE_CREATED_RESPONSE | HANDSHAKE_CONSUMED_RESPONSE

record noise_handshake =
  hs_state :: noise_handshake_state
  last_initiation_consumption :: u64
  ephemeral_private :: bytes
  remote_static :: bytes
  remote_ephemeral :: bytes
  precomputed_static_static :: bytes
  preshared_key :: bytes
  hs_hash :: bytes
  chaining_key :: bytes
  latest_timestamp :: bytes
  hs_remote_index :: u32

definition wg_noise_set_static_identity_private_key :: "crypto \<Rightarrow> bytes \<Rightarrow> noise_static_identity \<Rightarrow> noise_static_identity" where
  "wg_noise_set_static_identity_private_key cr private_key sid =
     (let sid1 = sid\<lparr>static_private := curve25519_clamp_secret cr private_key\<rparr> in
      case curve25519_generate_public cr private_key of
        Some pub \<Rightarrow> sid1\<lparr>static_public := pub, has_identity := True\<rparr>
      | None \<Rightarrow> sid1\<lparr>has_identity := False\<rparr>)"

definition wg_noise_precompute_static_static :: "crypto \<Rightarrow> noise_static_identity \<Rightarrow> noise_handshake \<Rightarrow> noise_handshake" where
  "wg_noise_precompute_static_static cr sid hs =
     hs\<lparr>precomputed_static_static :=
          (if has_identity sid then
             (case curve25519 cr (static_private sid) (remote_static hs) of
                Some dh \<Rightarrow> dh | None \<Rightarrow> replicate NOISE_PUBLIC_KEY_LEN 0)
           else replicate NOISE_PUBLIC_KEY_LEN 0)\<rparr>"

definition wg_noise_handshake_init ::
  "crypto \<Rightarrow> noise_static_identity \<Rightarrow> bytes \<Rightarrow> bytes option \<Rightarrow> noise_handshake" where
  "wg_noise_handshake_init cr sid peer_public_key peer_preshared_key =
     wg_noise_precompute_static_static cr sid
       \<lparr>hs_state = HANDSHAKE_ZEROED, last_initiation_consumption = 0,
        ephemeral_private = replicate NOISE_PUBLIC_KEY_LEN 0, remote_static = peer_public_key,
        remote_ephemeral = replicate NOISE_PUBLIC_KEY_LEN 0,
        precomputed_static_static = replicate NOISE_PUBLIC_KEY_LEN 0,
        preshared_key = (case peer_preshared_key of Some k \<Rightarrow> k | None \<Rightarrow> replicate NOISE_SYMMETRIC_KEY_LEN 0),
        hs_hash = replicate NOISE_HASH_LEN 0, chaining_key = replicate NOISE_HASH_LEN 0,
        latest_timestamp = replicate NOISE_TIMESTAMP_LEN 0, hs_remote_index = 0\<rparr>"

definition handshake_zero :: "noise_handshake \<Rightarrow> noise_handshake" where
  "handshake_zero hs =
     hs\<lparr>ephemeral_private := replicate NOISE_PUBLIC_KEY_LEN 0, remote_ephemeral := replicate NOISE_PUBLIC_KEY_LEN 0,
        hs_hash := replicate NOISE_HASH_LEN 0, chaining_key := replicate NOISE_HASH_LEN 0,
        hs_remote_index := 0, hs_state := HANDSHAKE_ZEROED\<rparr>"

text \<open>\<open>memcmp\<close> on arrays of equal length: negative, zero or positive.\<close>

fun memcmp :: "bytes \<Rightarrow> bytes \<Rightarrow> int" where
  "memcmp (a # as) (b # bs) = (if a < b then -1 else if b < a then 1 else memcmp as bs)"
| "memcmp _ _ = 0"

section \<open>The handshake\<close>

text \<open>What a side contributes to a message it creates: its secret, the time, and how its index is found.\<close>

record draw =
  dr_secret :: bytes
  dr_now :: "u64 \<times> u32"
  dr_random :: "u32 list"
  dr_env :: "nat \<Rightarrow> index_hashtable \<Rightarrow> index_hashtable"

definition zero_macs :: message_macs where
  "zero_macs = \<lparr>mac1 = replicate COOKIE_LEN 0, mac2 = replicate COOKIE_LEN 0\<rparr>"

text \<open>\<open>None\<close>: the search for an index does not end. The macs are added by kernel/cookie.c.\<close>

definition wg_noise_handshake_create_initiation ::
  "crypto \<Rightarrow> draw \<Rightarrow> noise_static_identity \<Rightarrow> pid \<Rightarrow> noise_handshake \<times> index_hashtable \<Rightarrow>
   (message_handshake_initiation option \<times> noise_handshake \<times> index_hashtable) option" where
  "wg_noise_handshake_create_initiation cr d sid peer st =
     (case st of (hs, t) \<Rightarrow>
        if \<not> has_identity sid then Some (None, hs, t)
        else
          let (ck, h) = handshake_init cr (remote_static hs);
              hs1 = hs\<lparr>chaining_key := ck, hs_hash := h, ephemeral_private := dr_secret d\<rparr>
          in (case curve25519_generate_public cr (dr_secret d) of
                None \<Rightarrow> Some (None, hs1, t)
              | Some e \<Rightarrow>
                  let (ck2, h2) = message_ephemeral cr e ck h in
                  (case mix_dh cr ck2 (dr_secret d) (remote_static hs) of
                     None \<Rightarrow> Some (None, hs1\<lparr>chaining_key := ck2, hs_hash := h2\<rparr>, t)
                   | Some (ck3, key) \<Rightarrow>
                       let (enc_static, h3) = message_encrypt cr (static_public sid) key h2 in
                       (case mix_precomputed_dh cr ck3 (precomputed_static_static hs) of
                          None \<Rightarrow> Some (None, hs1\<lparr>chaining_key := ck3, hs_hash := h3\<rparr>, t)
                        | Some (ck4, key4) \<Rightarrow>
                            let (enc_time, h4) = message_encrypt cr (tai64n_now (dr_now d)) key4 h3 in
                            (case wg_index_hashtable_insert (dr_env d) (dr_random d)
                                    \<lparr>ie_of = Handshake_entry peer, ie_peer = peer, ie_index = 0\<rparr> t of
                               None \<Rightarrow> None
                             | Some (i, t') \<Rightarrow>
                                 Some (Some \<lparr>mi_sender_index = i, mi_unencrypted_ephemeral = e,
                                             mi_encrypted_static = enc_static, mi_encrypted_timestamp = enc_time,
                                             mi_macs = zero_macs\<rparr>,
                                       hs1\<lparr>chaining_key := ck4, hs_hash := h4,
                                           hs_state := HANDSHAKE_CREATED_INITIATION\<rparr>, t'))))))"

text \<open>What the responder computes from a message before it knows the peer: the key, the sender's static
  key, and after the lookup the timestamp, with the chaining key and the hash.\<close>

definition open_initiation ::
  "crypto \<Rightarrow> noise_static_identity \<Rightarrow> (bytes \<Rightarrow> pid option) \<Rightarrow> (pid \<Rightarrow> noise_handshake) \<Rightarrow>
   message_handshake_initiation \<Rightarrow> (pid \<times> bytes \<times> bytes \<times> bytes) option" where
  "open_initiation cr sid find_peer hss src =
     (if \<not> has_identity sid then None
      else
        let (ck, h) = handshake_init cr (static_public sid);
            e = mi_unencrypted_ephemeral src;
            (ck2, h2) = message_ephemeral cr e ck h
        in (case mix_dh cr ck2 (static_private sid) e of
              None \<Rightarrow> None
            | Some (ck3, key) \<Rightarrow>
                (case message_decrypt cr (mi_encrypted_static src) key h2 of
                   None \<Rightarrow> None
                 | Some (s, h3) \<Rightarrow>
                     (case find_peer s of
                        None \<Rightarrow> None
                      | Some peer \<Rightarrow>
                          (case mix_precomputed_dh cr ck3 (precomputed_static_static (hss peer)) of
                             None \<Rightarrow> None
                           | Some (ck4, key4) \<Rightarrow>
                               (case message_decrypt cr (mi_encrypted_timestamp src) key4 h3 of
                                  None \<Rightarrow> None
                                | Some (t, h4) \<Rightarrow> Some (peer, t, ck4, h4)))))))"

definition initiation_attack :: "bytes \<Rightarrow> u64 \<Rightarrow> noise_handshake \<Rightarrow> bool" where
  "initiation_attack t now hs \<longleftrightarrow>
     memcmp t (latest_timestamp hs) \<le> 0 \<or>
     sint (last_initiation_consumption hs + NSEC_PER_SEC div INITIATIONS_PER_SECOND) > sint now"

text \<open>The section under the write lock; \<open>None\<close> when the tie of two crossing initiations is lost.\<close>

definition commit_initiation ::
  "u8 \<Rightarrow> bytes \<Rightarrow> message_handshake_initiation \<Rightarrow> bytes \<Rightarrow> bytes \<Rightarrow> bytes \<Rightarrow> u64 \<Rightarrow> noise_handshake \<Rightarrow>
   noise_handshake option" where
  "commit_initiation tr my_static src t ck h now hs =
     (if tr = WG_TRANSPORT_TCP \<and> hs_state hs = HANDSHAKE_CREATED_INITIATION \<and>
         memcmp my_static (remote_static hs) < 0
      then None
      else
        Some (hs\<lparr>remote_ephemeral := mi_unencrypted_ephemeral src,
                 latest_timestamp := (if memcmp t (latest_timestamp hs) > 0 then t else latest_timestamp hs),
                 hs_hash := h, chaining_key := ck, hs_remote_index := mi_sender_index src,
                 last_initiation_consumption :=
                   (if sint (last_initiation_consumption hs - now) < 0 then now
                    else last_initiation_consumption hs),
                 hs_state := HANDSHAKE_CONSUMED_INITIATION\<rparr>))"

text \<open>\<open>env\<close>: what happens to the handshake between the two sections; \<open>now\<close> and \<open>now'\<close>: the two clock reads.\<close>

definition wg_noise_handshake_consume_initiation ::
  "crypto \<Rightarrow> u8 \<Rightarrow> noise_static_identity \<Rightarrow> (bytes \<Rightarrow> pid option) \<Rightarrow> (noise_handshake \<Rightarrow> noise_handshake) \<Rightarrow>
   u64 \<Rightarrow> u64 \<Rightarrow> message_handshake_initiation \<Rightarrow> (pid \<Rightarrow> noise_handshake) \<Rightarrow>
   pid option \<times> (pid \<Rightarrow> noise_handshake)" where
  "wg_noise_handshake_consume_initiation cr tr sid find_peer env now now' src hss =
     (case open_initiation cr sid find_peer hss src of
        None \<Rightarrow> (None, hss)
      | Some (peer, t, ck, h) \<Rightarrow>
          if initiation_attack t now (hss peer) then (None, hss)
          else
            let hs = env (hss peer) in
            (case commit_initiation tr (static_public sid) src t ck h now' hs of
               None \<Rightarrow> (None, hss(peer := hs))
             | Some hs' \<Rightarrow> (Some peer, hss(peer := hs'))))"

definition wg_noise_handshake_create_response ::
  "crypto \<Rightarrow> draw \<Rightarrow> pid \<Rightarrow> noise_handshake \<times> index_hashtable \<Rightarrow>
   (message_handshake_response option \<times> noise_handshake \<times> index_hashtable) option" where
  "wg_noise_handshake_create_response cr d peer st =
     (case st of (hs, t) \<Rightarrow>
        if hs_state hs \<noteq> HANDSHAKE_CONSUMED_INITIATION then Some (None, hs, t)
        else
          let hs1 = hs\<lparr>ephemeral_private := dr_secret d\<rparr> in
          (case curve25519_generate_public cr (dr_secret d) of
             None \<Rightarrow> Some (None, hs1, t)
           | Some e \<Rightarrow>
               let (ck, h) = message_ephemeral cr e (chaining_key hs) (hs_hash hs) in
               (case mix_dh cr ck (dr_secret d) (remote_ephemeral hs) of
                  None \<Rightarrow> Some (None, hs1\<lparr>chaining_key := ck, hs_hash := h\<rparr>, t)
                | Some (ck2, _) \<Rightarrow>
                    (case mix_dh cr ck2 (dr_secret d) (remote_static hs) of
                       None \<Rightarrow> Some (None, hs1\<lparr>chaining_key := ck2, hs_hash := h\<rparr>, t)
                     | Some (ck3, _) \<Rightarrow>
                         let (ck4, h4, key) = mix_psk cr ck3 h (preshared_key hs);
                             (enc_nothing, h5) = message_encrypt cr [] key h4
                         in (case wg_index_hashtable_insert (dr_env d) (dr_random d)
                                    \<lparr>ie_of = Handshake_entry peer, ie_peer = peer, ie_index = 0\<rparr> t of
                               None \<Rightarrow> None
                             | Some (i, t') \<Rightarrow>
                                 Some (Some \<lparr>mr_sender_index = i, mr_receiver_index = hs_remote_index hs,
                                             mr_unencrypted_ephemeral = e, mr_encrypted_nothing = enc_nothing,
                                             mr_macs = zero_macs\<rparr>,
                                       hs1\<lparr>chaining_key := ck4, hs_hash := h5,
                                           hs_state := HANDSHAKE_CREATED_RESPONSE\<rparr>, t'))))))"

text \<open>What the initiator computes from a response and the snapshot of its handshake.\<close>

definition open_response ::
  "crypto \<Rightarrow> noise_static_identity \<Rightarrow> noise_handshake \<Rightarrow> message_handshake_response \<Rightarrow> (bytes \<times> bytes) option" where
  "open_response cr sid hs src =
     (let e = mr_unencrypted_ephemeral src;
          (ck, h) = message_ephemeral cr e (chaining_key hs) (hs_hash hs)
      in (case mix_dh cr ck (ephemeral_private hs) e of
            None \<Rightarrow> None
          | Some (ck2, _) \<Rightarrow>
              (case mix_dh cr ck2 (static_private sid) e of
                 None \<Rightarrow> None
               | Some (ck3, _) \<Rightarrow>
                   let (ck4, h4, key) = mix_psk cr ck3 h (preshared_key hs) in
                   (case message_decrypt cr (mr_encrypted_nothing src) key h4 of
                      None \<Rightarrow> None
                    | Some (_, h5) \<Rightarrow> Some (ck4, h5)))))"

text \<open>The section under the write lock.\<close>

definition commit_response ::
  "message_handshake_response \<Rightarrow> bytes \<Rightarrow> bytes \<Rightarrow> noise_handshake \<Rightarrow> noise_handshake option" where
  "commit_response src ck h hs =
     (if hs_state hs \<noteq> HANDSHAKE_CREATED_INITIATION then None
      else
        Some (hs\<lparr>remote_ephemeral := mr_unencrypted_ephemeral src, hs_hash := h, chaining_key := ck,
                 hs_remote_index := mr_sender_index src, hs_state := HANDSHAKE_CONSUMED_RESPONSE\<rparr>))"

definition wg_noise_handshake_consume_response ::
  "crypto \<Rightarrow> noise_static_identity \<Rightarrow> (pid \<Rightarrow> bool) \<Rightarrow> index_hashtable \<Rightarrow> (noise_handshake \<Rightarrow> noise_handshake) \<Rightarrow>
   message_handshake_response \<Rightarrow> (pid \<Rightarrow> noise_handshake) \<Rightarrow> pid option \<times> (pid \<Rightarrow> noise_handshake)" where
  "wg_noise_handshake_consume_response cr sid alive t env src hss =
     (if \<not> has_identity sid then (None, hss)
      else
        (case wg_index_hashtable_lookup alive INDEX_HASHTABLE_HANDSHAKE (mr_receiver_index src) t of
           None \<Rightarrow> (None, hss)
         | Some x \<Rightarrow>
             let peer = ie_peer x; hs = hss peer in
             if hs_state hs \<noteq> HANDSHAKE_CREATED_INITIATION then (None, hss)
             else
               (case open_response cr sid hs src of
                  None \<Rightarrow> (None, hss)
                | Some (ck, h) \<Rightarrow>
                    let hs1 = env hs in
                    (case commit_response src ck h hs1 of
                       None \<Rightarrow> (None, hss(peer := hs1))
                     | Some hs2 \<Rightarrow> (Some peer, hss(peer := hs2))))))"

definition wg_noise_handshake_clear ::
  "pid \<Rightarrow> noise_handshake \<times> index_hashtable \<Rightarrow> noise_handshake \<times> index_hashtable" where
  "wg_noise_handshake_clear peer st =
     (case st of (hs, t) \<Rightarrow> (handshake_zero hs, wg_index_hashtable_remove (Handshake_entry peer) t))"

section \<open>The laws of the primitives\<close>

lemma dh_law:
  assumes "crypto_ok cr" "curve25519_generate_public cr x = Some X" "curve25519_generate_public cr y = Some Y"
  shows "curve25519 cr x Y = curve25519 cr y X"
proof -
  have "dh_ok cr" using assms(1) by (simp add: crypto_ok_def)
  then show ?thesis using assms(2,3) unfolding dh_ok_def by blast
qed

lemma clamp_law:
  assumes "crypto_ok cr" "curve25519_generate_public cr x = Some X"
  shows "curve25519_generate_public cr (curve25519_clamp_secret cr x) = Some X"
proof -
  have "clamp_ok cr" using assms(1) by (simp add: crypto_ok_def)
  then show ?thesis using assms(2) unfolding clamp_ok_def by blast
qed

lemma blake2s_length: "crypto_ok cr \<Longrightarrow> length (blake2s cr n k i) = n"
  by (simp add: crypto_ok_def hash_ok_def)

lemma chacha_inverse:
  "crypto_ok cr \<Longrightarrow> chacha20poly1305_decrypt cr (chacha20poly1305_encrypt cr p ad n k) ad n k = Some p"
  by (simp add: crypto_ok_def aead_ok_def)

lemma chacha_length:
  "crypto_ok cr \<Longrightarrow> chacha20poly1305_decrypt cr c ad n k = Some p \<Longrightarrow> length c = length p + NOISE_AUTHTAG_LEN"
  by (simp add: crypto_ok_def aead_ok_def)

lemma xchacha_inverse:
  "crypto_ok cr \<Longrightarrow> xchacha20poly1305_decrypt cr (xchacha20poly1305_encrypt cr p ad n' k) ad n' k = Some p"
  by (simp add: crypto_ok_def xaead_ok_def)

section \<open>Both sides compute the same\<close>

definition identity_ok :: "crypto \<Rightarrow> noise_static_identity \<Rightarrow> bool" where
  "identity_ok cr sid \<longleftrightarrow> has_identity sid \<and> curve25519_generate_public cr (static_private sid) = Some (static_public sid)"

definition configured :: "crypto \<Rightarrow> noise_static_identity \<Rightarrow> bytes \<Rightarrow> bytes \<Rightarrow> noise_handshake \<Rightarrow> bool" where
  "configured cr sid pub psk hs \<longleftrightarrow>
     remote_static hs = pub \<and> preshared_key hs = psk \<and> wg_noise_precompute_static_static cr sid hs = hs"

lemma identity_set:
  assumes "crypto_ok cr" "sid' = wg_noise_set_static_identity_private_key cr key sid" "has_identity sid'"
  shows "identity_ok cr sid'"
proof -
  obtain pub where pub: "curve25519_generate_public cr key = Some pub"
    using assms(2,3) by (auto simp: wg_noise_set_static_identity_private_key_def Let_def split: option.splits)
  then have "curve25519_generate_public cr (curve25519_clamp_secret cr key) = Some pub"
    by (rule clamp_law [OF assms(1)])
  then show ?thesis using pub assms(2) by (simp add: wg_noise_set_static_identity_private_key_def identity_ok_def)
qed

lemma configured_init:
  "configured cr sid pub psk (wg_noise_handshake_init cr sid pub (Some psk))"
  by (simp add: configured_def wg_noise_handshake_init_def wg_noise_precompute_static_static_def)

lemma dh_agrees:
  "crypto_ok cr \<Longrightarrow> curve25519_generate_public cr x = Some X \<Longrightarrow> curve25519_generate_public cr y = Some Y \<Longrightarrow>
    mix_dh cr ck x Y = mix_dh cr ck y X"
  by (simp add: mix_dh_def dh_law [of cr x X y Y])

lemma precomputed_agrees:
  assumes "crypto_ok cr" "identity_ok cr a" "identity_ok cr b"
    "configured cr a (static_public b) psk ha" "configured cr b (static_public a) psk' hb"
  shows "precomputed_static_static ha = precomputed_static_static hb"
proof -
  have dh: "curve25519 cr (static_private a) (static_public b) = curve25519 cr (static_private b) (static_public a)"
    using dh_law [OF assms(1)] assms(2,3) by (simp add: identity_ok_def)
  have "precomputed_static_static (wg_noise_precompute_static_static cr a ha) =
    precomputed_static_static (wg_noise_precompute_static_static cr b hb)"
    using dh assms(2-) by (simp add: identity_ok_def configured_def wg_noise_precompute_static_static_def)
  then show ?thesis using assms(4,5) by (simp add: configured_def)
qed

lemma decrypt_encrypt:
  "crypto_ok cr \<Longrightarrow> message_encrypt cr p k h = (c, h') \<Longrightarrow> message_decrypt cr c k h = Some (p, h')"
  by (auto simp: chacha_inverse message_encrypt_def message_decrypt_def Let_def)

lemma create_initiationE:
  assumes "wg_noise_handshake_create_initiation cr d sid p (hs, t) = Some (Some m, hs', t')"
  obtains ck h e ck2 h2 ck3 key c1 h3 ck4 key4 c2 h4 i where
    "handshake_init cr (remote_static hs) = (ck, h)" "curve25519_generate_public cr (dr_secret d) = Some e"
    "message_ephemeral cr e ck h = (ck2, h2)" "mix_dh cr ck2 (dr_secret d) (remote_static hs) = Some (ck3, key)"
    "message_encrypt cr (static_public sid) key h2 = (c1, h3)"
    "mix_precomputed_dh cr ck3 (precomputed_static_static hs) = Some (ck4, key4)"
    "message_encrypt cr (tai64n_now (dr_now d)) key4 h3 = (c2, h4)"
    "wg_index_hashtable_insert (dr_env d) (dr_random d) \<lparr>ie_of = Handshake_entry p, ie_peer = p, ie_index = 0\<rparr> t =
       Some (i, t')"
    "m = \<lparr>mi_sender_index = i, mi_unencrypted_ephemeral = e, mi_encrypted_static = c1, mi_encrypted_timestamp = c2,
          mi_macs = zero_macs\<rparr>"
    "hs' = hs\<lparr>chaining_key := ck4, hs_hash := h4, ephemeral_private := dr_secret d,
             hs_state := HANDSHAKE_CREATED_INITIATION\<rparr>"
  using assms
  by (auto simp: wg_noise_handshake_create_initiation_def Let_def split: if_splits option.splits prod.splits)

lemma initiation_opens:
  assumes ok: "crypto_ok cr" "identity_ok cr a" "identity_ok cr b"
    and conf: "configured cr a (static_public b) psk ha" "configured cr b (static_public a) psk (hbs pa)"
    and find: "find_peer (static_public a) = Some pa"
    and create: "wg_noise_handshake_create_initiation cr d a pb (ha, t) = Some (Some m, ha', t')"
  shows "open_initiation cr b find_peer hbs m = Some (pa, tai64n_now (dr_now d), chaining_key ha', hs_hash ha') \<and>
    ephemeral_private ha' = dr_secret d \<and> curve25519_generate_public cr (dr_secret d) = Some (mi_unencrypted_ephemeral m) \<and>
    hs_state ha' = HANDSHAKE_CREATED_INITIATION \<and> preshared_key ha' = psk \<and>
    wg_index_hashtable_insert (dr_env d) (dr_random d) \<lparr>ie_of = Handshake_entry pb, ie_peer = pb, ie_index = 0\<rparr> t =
      Some (mi_sender_index m, t')"
proof -
  have pre: "precomputed_static_static (hbs pa) = precomputed_static_static ha"
    using precomputed_agrees [OF ok conf] by simp
  have rs: "remote_static ha = static_public b" "has_identity b"
    using conf(1) ok(3) by (simp_all add: configured_def identity_ok_def)
  have pub: "curve25519_generate_public cr (static_private b) = Some (static_public b)"
    using ok(3) by (simp add: identity_ok_def)
  show ?thesis
    using create
  proof (rule create_initiationE)
    fix ck h e ck2 h2 ck3 key c1 h3 ck4 key4 c2 h4 i
    assume steps: "handshake_init cr (remote_static ha) = (ck, h)"
      "curve25519_generate_public cr (dr_secret d) = Some e" "message_ephemeral cr e ck h = (ck2, h2)"
      "mix_dh cr ck2 (dr_secret d) (remote_static ha) = Some (ck3, key)"
      "message_encrypt cr (static_public a) key h2 = (c1, h3)"
      "mix_precomputed_dh cr ck3 (precomputed_static_static ha) = Some (ck4, key4)"
      "message_encrypt cr (tai64n_now (dr_now d)) key4 h3 = (c2, h4)"
      and insert: "wg_index_hashtable_insert (dr_env d) (dr_random d)
         \<lparr>ie_of = Handshake_entry pb, ie_peer = pb, ie_index = 0\<rparr> t = Some (i, t')"
      and m: "m = \<lparr>mi_sender_index = i, mi_unencrypted_ephemeral = e, mi_encrypted_static = c1,
        mi_encrypted_timestamp = c2, mi_macs = zero_macs\<rparr>"
      and ha': "ha' = ha\<lparr>chaining_key := ck4, hs_hash := h4, ephemeral_private := dr_secret d,
        hs_state := HANDSHAKE_CREATED_INITIATION\<rparr>"
    have dh: "mix_dh cr ck2 (static_private b) e = Some (ck3, key)"
      using dh_agrees [OF ok(1) steps(2) pub] steps(4) by (simp add: rs)
    show ?thesis
      using steps insert conf(1) decrypt_encrypt [OF ok(1) steps(5)] decrypt_encrypt [OF ok(1) steps(7)]
      by (simp add: open_initiation_def rs pre find dh m ha' configured_def)
  qed
qed

lemma create_responseE:
  assumes "wg_noise_handshake_create_response cr d p (hs, t) = Some (Some m, hs', t')"
  obtains e ck h ck2 k2 ck3 k3 ck4 h4 key c h5 i where
    "hs_state hs = HANDSHAKE_CONSUMED_INITIATION" "curve25519_generate_public cr (dr_secret d) = Some e"
    "message_ephemeral cr e (chaining_key hs) (hs_hash hs) = (ck, h)"
    "mix_dh cr ck (dr_secret d) (remote_ephemeral hs) = Some (ck2, k2)"
    "mix_dh cr ck2 (dr_secret d) (remote_static hs) = Some (ck3, k3)"
    "mix_psk cr ck3 h (preshared_key hs) = (ck4, h4, key)" "message_encrypt cr [] key h4 = (c, h5)"
    "m = \<lparr>mr_sender_index = i, mr_receiver_index = hs_remote_index hs, mr_unencrypted_ephemeral = e,
          mr_encrypted_nothing = c, mr_macs = zero_macs\<rparr>"
    "hs' = hs\<lparr>chaining_key := ck4, hs_hash := h5, ephemeral_private := dr_secret d,
             hs_state := HANDSHAKE_CREATED_RESPONSE\<rparr>"
  using assms
  by (auto simp: wg_noise_handshake_create_response_def Let_def split: if_splits option.splits prod.splits)

lemma response_opens:
  assumes ok: "crypto_ok cr" "identity_ok cr a"
    and ha: "chaining_key ha = chaining_key hb" "hs_hash ha = hs_hash hb" "preshared_key ha = preshared_key hb"
    and static: "remote_static hb = static_public a"
    and eph: "curve25519_generate_public cr (ephemeral_private ha) = Some (remote_ephemeral hb)"
    and create: "wg_noise_handshake_create_response cr d p (hb, t) = Some (Some m, hb', t')"
  shows "open_response cr a ha m = Some (chaining_key hb', hs_hash hb') \<and> hs_state hb' = HANDSHAKE_CREATED_RESPONSE \<and>
    mr_receiver_index m = hs_remote_index hb \<and> hs_remote_index hb' = hs_remote_index hb"
  using create
proof (rule create_responseE)
  fix e ck h ck2 k2 ck3 k3 ck4 h4 key c h5 i
  assume steps: "hs_state hb = HANDSHAKE_CONSUMED_INITIATION"
    "curve25519_generate_public cr (dr_secret d) = Some e"
    "message_ephemeral cr e (chaining_key hb) (hs_hash hb) = (ck, h)"
    "mix_dh cr ck (dr_secret d) (remote_ephemeral hb) = Some (ck2, k2)"
    "mix_dh cr ck2 (dr_secret d) (remote_static hb) = Some (ck3, k3)"
    "mix_psk cr ck3 h (preshared_key hb) = (ck4, h4, key)" "message_encrypt cr [] key h4 = (c, h5)"
    and m: "m = \<lparr>mr_sender_index = i, mr_receiver_index = hs_remote_index hb, mr_unencrypted_ephemeral = e,
      mr_encrypted_nothing = c, mr_macs = zero_macs\<rparr>"
    and hb': "hb' = hb\<lparr>chaining_key := ck4, hs_hash := h5, ephemeral_private := dr_secret d,
      hs_state := HANDSHAKE_CREATED_RESPONSE\<rparr>"
  have ee: "mix_dh cr ck (ephemeral_private ha) e = Some (ck2, k2)"
    using dh_agrees [OF ok(1) steps(2) eph] steps(4) by simp
  have pub: "curve25519_generate_public cr (static_private a) = Some (static_public a)"
    using ok(2) by (simp add: identity_ok_def)
  have se: "mix_dh cr ck2 (static_private a) e = Some (ck3, k3)"
    using dh_agrees [OF ok(1) steps(2) pub] steps(5) static by simp
  show ?thesis
    using steps decrypt_encrypt [OF ok(1) steps(7)] by (simp add: open_response_def ha ee se m hb')
qed

lemma insert_lookup:
  assumes "index_inv t" "others (Handshake_entry p) env" "alive p"
    "wg_index_hashtable_insert env rs \<lparr>ie_of = Handshake_entry p, ie_peer = p, ie_index = 0\<rparr> t = Some (i, t')"
  shows "\<exists>x. wg_index_hashtable_lookup alive INDEX_HASHTABLE_HANDSHAKE i t' = Some x \<and> ie_peer x = p"
proof -
  have "index_abs t' i = Some (Handshake_entry p, p)"
    using index_search_ok [OF _ assms(4) [unfolded wg_index_hashtable_insert_def]
        index_remove(1) [OF assms(1)] absent_remove] assms(2) by auto
  then have "map_option (\<lambda>x. (ie_of x, ie_peer x))
      (wg_index_hashtable_lookup alive INDEX_HASHTABLE_HANDSHAKE i t') = Some (Handshake_entry p, p)"
    using assms(3) by (simp add: index_lookup INDEX_HASHTABLE_HANDSHAKE_def)
  then show ?thesis by auto
qed

section \<open>The order of timestamps\<close>

lemma memcmp_refl [simp]: "memcmp a a = 0"
  by (induction a) auto

lemma memcmp_values: "memcmp a b \<in> {-1, 0, 1}"
  by (induction a b rule: memcmp.induct) auto

lemma memcmp_swap: "memcmp b a = - memcmp a b"
  by (induction a b rule: memcmp.induct) (auto dest: less_asym)

lemma memcmp_zero: "length a = length b \<Longrightarrow> memcmp a b = 0 \<Longrightarrow> a = b"
  by (induction a b rule: memcmp.induct) (auto split: if_splits)

lemma memcmp_trans:
  "length a = length b \<Longrightarrow> length b = length c \<Longrightarrow> memcmp a b \<le> 0 \<Longrightarrow> memcmp b c \<le> 0 \<Longrightarrow> memcmp a c \<le> 0"
proof (induction a b arbitrary: c rule: memcmp.induct)
  case (1 x a y b)
  obtain z d where c: "c = z # d" using 1(3) by (cases c) auto
  show ?case using 1 unfolding c by (auto split: if_splits)
qed auto

section \<open>What happens to a handshake\<close>

text \<open>The critical sections of a handshake's lock, in any order and with any arguments.\<close>

inductive hs_step :: "crypto \<Rightarrow> noise_handshake \<Rightarrow> noise_handshake \<Rightarrow> bool" for cr where
  created_initiation:
    "wg_noise_handshake_create_initiation cr d sid p (hs, t) = Some (r, hs', t') \<Longrightarrow> hs_step cr hs hs'"
| consumed_initiation:
    "commit_initiation tr pk src ts ck h now hs = Some hs' \<Longrightarrow> length ts = NOISE_TIMESTAMP_LEN \<Longrightarrow> hs_step cr hs hs'"
| created_response:
    "wg_noise_handshake_create_response cr d p (hs, t) = Some (r, hs', t') \<Longrightarrow> hs_step cr hs hs'"
| consumed_response:
    "commit_response src ck h hs = Some hs' \<Longrightarrow> hs_step cr hs hs'"
| cleared:
    "hs_step cr hs (fst (wg_noise_handshake_clear p (hs, t)))"
| psk_set:
    "hs_step cr hs (hs\<lparr>preshared_key := k\<rparr>)"

definition newer :: "noise_handshake \<Rightarrow> noise_handshake \<Rightarrow> bool" where
  "newer hs hs' \<longleftrightarrow>
     precomputed_static_static hs' = precomputed_static_static hs \<and>
     length (latest_timestamp hs') = length (latest_timestamp hs) \<and>
     memcmp (latest_timestamp hs) (latest_timestamp hs') \<le> 0"

lemma newer_refl [simp]: "newer hs hs"
  by (simp add: newer_def)

lemma newer_trans: "newer a b \<Longrightarrow> newer b c \<Longrightarrow> newer a c"
  unfolding newer_def using memcmp_trans [of "latest_timestamp a" "latest_timestamp b" "latest_timestamp c"] by auto

lemma create_initiation_newer:
  "wg_noise_handshake_create_initiation cr d sid p (hs, t) = Some (r, hs', t') \<Longrightarrow> newer hs hs'"
  by (auto simp: wg_noise_handshake_create_initiation_def Let_def newer_def split: if_splits option.splits prod.splits)

lemma create_response_newer:
  "wg_noise_handshake_create_response cr d p (hs, t) = Some (r, hs', t') \<Longrightarrow> newer hs hs'"
  by (auto simp: wg_noise_handshake_create_response_def Let_def newer_def split: if_splits option.splits prod.splits)

lemma commit_initiation_newer:
  "commit_initiation tr pk src ts ck h now hs = Some hs' \<Longrightarrow> length ts = length (latest_timestamp hs) \<Longrightarrow>
     newer hs hs' \<and> memcmp ts (latest_timestamp hs') \<le> 0"
  using memcmp_swap [of ts "latest_timestamp hs"] by (auto simp: commit_initiation_def newer_def split: if_splits)

lemma hs_step_newer:
  assumes "hs_step cr hs hs'" "length (latest_timestamp hs) = NOISE_TIMESTAMP_LEN"
  shows "newer hs hs'"
  using assms
  by (cases rule: hs_step.cases)
    (auto dest: create_initiation_newer create_response_newer commit_initiation_newer
       simp: newer_def commit_response_def wg_noise_handshake_clear_def handshake_zero_def split: if_splits)

lemma hs_steps_newer:
  assumes "(hs_step cr)\<^sup>*\<^sup>* hs hs'" "length (latest_timestamp hs) = NOISE_TIMESTAMP_LEN"
  shows "newer hs hs'"
  using assms(1)
proof induction
  case (step b c)
  then have "length (latest_timestamp b) = NOISE_TIMESTAMP_LEN" using assms(2) by (simp add: newer_def)
  then show ?case using step hs_step_newer newer_trans by blast
qed simp

lemma decrypt_length: "crypto_ok cr \<Longrightarrow> message_decrypt cr c k h = Some (p, h') \<Longrightarrow> length c = length p + NOISE_AUTHTAG_LEN"
  by (auto simp: message_decrypt_def dest: chacha_length split: option.splits)

lemma open_initiation_length:
  assumes "crypto_ok cr" "open_initiation cr sid fp hss src = Some (p, ts, ck, h)"
  shows "length (mi_encrypted_timestamp src) = length ts + NOISE_AUTHTAG_LEN"
  using assms(2)
  by (auto simp: open_initiation_def Let_def dest: decrypt_length [OF assms(1)] split: if_splits option.splits prod.splits)

lemma open_initiation_cong:
  assumes "open_initiation cr sid fp hss src = Some (p, ts, ck, h)"
    "precomputed_static_static (hss' p) = precomputed_static_static (hss p)"
  shows "open_initiation cr sid fp hss' src = Some (p, ts, ck, h)"
  using assms by (auto simp: open_initiation_def Let_def split: if_splits option.splits prod.splits)


text \<open>A toy instance of the primitives.\<close>

definition toy_crypto :: crypto where
  "toy_crypto =
     \<lparr>curve25519 = (\<lambda>x Y. Some (map2 (XOR) x Y)), curve25519_generate_public = Some, curve25519_clamp_secret = id,
      blake2s = (\<lambda>n key inp. replicate n 0),
      chacha20poly1305_encrypt = (\<lambda>p ad n k. p @ replicate NOISE_AUTHTAG_LEN 0),
      chacha20poly1305_decrypt = (\<lambda>c ad n k.
        if NOISE_AUTHTAG_LEN \<le> length c then Some (take (length c - NOISE_AUTHTAG_LEN) c) else None),
      xchacha20poly1305_encrypt = (\<lambda>p ad n k. p), xchacha20poly1305_decrypt = (\<lambda>c ad n k. Some c)\<rparr>"

lemma toy_crypto_ok: "crypto_ok toy_crypto"
proof -
  have "map2 (XOR) x y = map2 (XOR) y x" for x y :: bytes
    by (induction x y rule: list_induct2') (auto simp: ac_simps)
  then have "dh_ok toy_crypto" by (simp add: dh_ok_def toy_crypto_def)
  then show ?thesis
    by (simp add: crypto_ok_def clamp_ok_def hash_ok_def aead_ok_def xaead_ok_def toy_crypto_def)
qed

text \<open>Two devices, each other's peer: 1 is the peer of the first at the second, 2 the converse.\<close>

definition demo_id :: "u8 \<Rightarrow> noise_static_identity" where
  "demo_id k = wg_noise_set_static_identity_private_key toy_crypto [k]
     \<lparr>static_public = [], static_private = [], has_identity = False\<rparr>"

definition demo_hs :: "u8 \<Rightarrow> u8 \<Rightarrow> noise_handshake" where
  "demo_hs me you = wg_noise_handshake_init toy_crypto (demo_id me) [you] None"

definition demo_draw :: "u8 \<Rightarrow> u64 \<Rightarrow> u32 \<Rightarrow> draw" where
  "demo_draw k s r = \<lparr>dr_secret = [k], dr_now = (s, 0), dr_random = [r], dr_env = (\<lambda>_ t. t)\<rparr>"

definition demo_find :: "bytes \<Rightarrow> pid option" where
  "demo_find k = (if k = [7] then Some 1 else if k = [9] then Some 2 else None)"

definition demo_initiation :: message_handshake_initiation where
  "demo_initiation =
     \<lparr>mi_sender_index = 70, mi_unencrypted_ephemeral = [3],
      mi_encrypted_static = [7] @ replicate NOISE_AUTHTAG_LEN 0,
      mi_encrypted_timestamp = tai64n_now (5, 0) @ replicate NOISE_AUTHTAG_LEN 0, mi_macs = zero_macs\<rparr>"

lemma not_null_key: "([a] = replicate NOISE_PUBLIC_KEY_LEN 0) = False"
  by (auto simp: NOISE_PUBLIC_KEY_LEN_def dest: arg_cong [where f = length])

lemmas toy_simps = not_null_key
  toy_crypto_def demo_id_def demo_hs_def demo_draw_def demo_find_def wg_noise_set_static_identity_private_key_def
  wg_noise_handshake_init_def wg_noise_precompute_static_static_def handshake_init_def wg_noise_init_def
  mix_hash_def mix_dh_def mix_precomputed_dh_def mix_psk_def message_ephemeral_def message_encrypt_def
  message_decrypt_def kdf_def hmac_def BLAKE2S_HASH_SIZE_def Let_def

lemma demo_created:
  "\<exists>hs t. wg_noise_handshake_create_initiation toy_crypto (demo_draw 3 5 70) (demo_id 7) 2 (demo_hs 7 9, \<lambda>_. []) =
     Some (Some demo_initiation, hs, t)"
  by (simp add: wg_noise_handshake_create_initiation_def toy_simps demo_initiation_def wg_index_hashtable_insert_def
      index_used_def wg_index_hashtable_remove_def)

lemma replicate_numeral: "replicate (numeral k) x = x # replicate (pred_numeral k) x"
  by (simp add: numeral_eq_Suc)

lemma demo_timely: "\<not> initiation_attack (tai64n_now (5, 0)) 30000000 (demo_hs 9 7)"
proof -
  have "memcmp (tai64n_now (5, 0)) (replicate NOISE_TIMESTAMP_LEN 0) = 1"
    by (simp add: tai64n_now_def put_be64_def put_be32_def NOISE_TIMESTAMP_LEN_def replicate_numeral)
  then show ?thesis
    by (simp add: initiation_attack_def toy_simps NSEC_PER_SEC_def INITIATIONS_PER_SECOND_def)
qed

lemma demo_consumed:
  "\<exists>hss. wg_noise_handshake_consume_initiation toy_crypto WG_TRANSPORT_TCP (demo_id 9) demo_find id 30000000 30000001
     demo_initiation (\<lambda>_. demo_hs 9 7) = (Some 1, hss)"
proof -
  have "open_initiation toy_crypto (demo_id 9) demo_find (\<lambda>_. demo_hs 9 7) demo_initiation =
    Some (1, tai64n_now (5, 0), replicate NOISE_HASH_LEN 0, replicate NOISE_HASH_LEN 0)"
    by (simp add: open_initiation_def toy_simps demo_initiation_def NOISE_HASH_LEN_def NOISE_SYMMETRIC_KEY_LEN_def)
  moreover have "hs_state (demo_hs 9 7) \<noteq> HANDSHAKE_CREATED_INITIATION"
    by (simp add: toy_simps)
  ultimately show ?thesis
    using demo_timely by (auto simp: wg_noise_handshake_consume_initiation_def commit_initiation_def Let_def)
qed


end
