(* ===== verification/Replay_Counter.thy ===== *)
theory Replay_Counter
  imports Wg_Prelude
begin

text \<open>
  Replay protection of kernel/receive.c: the sliding bitmap of RFC 6479
  (\<open>counter_validate\<close>) over \<open>struct noise_replay_counter\<close>. The bitmap is a ring of
  words that is cleared word by word as the window moves, so it needs no shifts. The
  lemmas relate it to the obvious specification, a set of the counters accepted so
  far.
\<close>

definition COUNTER_BITS_TOTAL :: nat where "COUNTER_BITS_TOTAL = 8192"
definition BITS_PER_LONG :: nat where "BITS_PER_LONG = 64"
definition COUNTER_WINDOW_SIZE :: u64 where "COUNTER_WINDOW_SIZE = 8128"
definition REJECT_AFTER_MESSAGES :: u64 where "REJECT_AFTER_MESSAGES = - 1 - COUNTER_WINDOW_SIZE - 1"

record noise_replay_counter =
  rc_counter :: u64
  backtrack :: "u64 list"

definition zero_counter :: noise_replay_counter where
  "zero_counter = \<lparr>rc_counter = 0, backtrack = replicate (COUNTER_BITS_TOTAL div BITS_PER_LONG) 0\<rparr>"

text \<open>The slot of a word of the bitmap, and the loop that clears the words the window moves onto.\<close>

definition slot :: "u64 \<Rightarrow> nat" where
  "slot index = unat (index AND 127)"

definition clear_words :: "u64 \<Rightarrow> u64 \<Rightarrow> u64 list \<Rightarrow> u64 list" where
  "clear_words index_current words bt =
     fold (\<lambda>i bt. bt[slot (of_nat i + index_current) := 0]) [1..<Suc (unat words)] bt"

definition counter_validate :: "u64 \<Rightarrow> noise_replay_counter \<Rightarrow> bool \<times> noise_replay_counter" where
  "counter_validate their_counter c =
     (if rc_counter c \<ge> REJECT_AFTER_MESSAGES + 1 \<or> their_counter \<ge> REJECT_AFTER_MESSAGES then (False, c)
      else
        let n = their_counter + 1 in
        if COUNTER_WINDOW_SIZE + n < rc_counter c then (False, c)
        else
          let index = drop_bit 6 n;
              c1 = (if n > rc_counter c then
                      let index_current = drop_bit 6 (rc_counter c);
                          words = min (index - index_current) 128
                      in c\<lparr>backtrack := clear_words index_current words (backtrack c), rc_counter := n\<rparr>
                    else c);
              w = backtrack c1 ! slot index;
              j = unat (n AND 63)
          in (\<not> bit w j, c1\<lparr>backtrack := (backtrack c1)[slot index := w OR push_bit j 1]\<rparr>))"

text \<open>Validating the counters of a sequence of packets.\<close>

primrec validate_all :: "u64 list \<Rightarrow> noise_replay_counter \<Rightarrow> bool list" where
  "validate_all [] c = []"
| "validate_all (n # ns) c = (case counter_validate n c of (b, c') \<Rightarrow> b # validate_all ns c')"

section \<open>Specification\<close>

text \<open>A counter is fresh if it is below the limit, was not accepted before, and is not behind the window.\<close>

definition fresh_counter :: "nat set \<Rightarrow> nat \<Rightarrow> bool" where
  "fresh_counter S n \<longleftrightarrow> n < unat REJECT_AFTER_MESSAGES \<and> n \<notin> S \<and> (\<forall>m\<in>S. m \<le> n + 8128)"

primrec accept_all :: "u64 list \<Rightarrow> nat set \<Rightarrow> bool list" where
  "accept_all [] S = []"
| "accept_all (n # ns) S =
     (if fresh_counter S (unat n) then True # accept_all ns (insert (unat n) S)
      else False # accept_all ns S)"

section \<open>The bitmap\<close>

definition rc_inv :: "nat set \<Rightarrow> noise_replay_counter \<Rightarrow> bool" where
  "rc_inv S c \<longleftrightarrow> (let C = unat (rc_counter c) in
     length (backtrack c) = 128 \<and> C \<le> unat REJECT_AFTER_MESSAGES \<and>
     (\<forall>m\<in>S. Suc m \<le> C) \<and> (C = 0 \<or> C - 1 \<in> S) \<and>
     (\<forall>b. b \<le> C div 64 \<and> C div 64 < b + 128 \<longrightarrow>
        (\<forall>j<64. bit (backtrack c ! (b mod 128)) j = (\<exists>m\<in>S. Suc m = 64 * b + j))))"

lemma rc_invD:
  assumes "rc_inv S c"
  shows "length (backtrack c) = 128" "unat (rc_counter c) \<le> unat REJECT_AFTER_MESSAGES"
    "m \<in> S \<Longrightarrow> Suc m \<le> unat (rc_counter c)"
    "rc_counter c = 0 \<or> unat (rc_counter c) - 1 \<in> S"
    "b \<le> unat (rc_counter c) div 64 \<Longrightarrow> unat (rc_counter c) div 64 < b + 128 \<Longrightarrow> j < 64 \<Longrightarrow>
      bit (backtrack c ! (b mod 128)) j = (\<exists>m\<in>S. Suc m = 64 * b + j)"
  using assms unfolding rc_inv_def Let_def by (simp_all add: unat_eq_0)

lemma limits: "unat REJECT_AFTER_MESSAGES = 2 ^ 64 - 8130" "unat COUNTER_WINDOW_SIZE = 8128"
  "unat (REJECT_AFTER_MESSAGES + 1) = 2 ^ 64 - 8129"
  by (simp_all add: REJECT_AFTER_MESSAGES_def COUNTER_WINDOW_SIZE_def)

lemma slot_mod: "slot w = unat w mod 128"
proof -
  have "w AND 127 = take_bit 7 w" by (simp add: take_bit_eq_mask mask_eq_exp_minus_1)
  then show ?thesis by (simp add: slot_def take_bit_eq_mod unat_mod_distrib)
qed

lemma low_bits: "unat ((w :: u64) AND 63) = unat w mod 64"
proof -
  have "w AND 63 = take_bit 6 w" by (simp add: take_bit_eq_mask mask_eq_exp_minus_1)
  then show ?thesis by (simp add: take_bit_eq_mod unat_mod_distrib)
qed

lemma word_index: "unat (drop_bit 6 (w :: u64)) = unat w div 64"
  by (simp add: drop_bit_eq_div unat_div_distrib)

lemma clear_words_nth:
  assumes len: "length bt = 128" and t: "t \<le> 128" and ic: "unat ic + 128 < 2 ^ 64" and s: "s < 128"
  shows "length (clear_words ic (of_nat t) bt) = 128 \<and>
    clear_words ic (of_nat t) bt ! s = (if \<exists>k. 1 \<le> k \<and> k \<le> t \<and> (unat ic + k) mod 128 = s then 0 else bt ! s)"
proof -
  have unat_t: "unat (of_nat t :: u64) = t" using t by (simp add: unat_of_nat take_bit_nat_eq_self)
  have slot: "slot (of_nat k + ic) = (unat ic + k) mod 128" if "k \<le> 128" for k
  proof -
    have "unat (of_nat k :: u64) = k" using that by (simp add: unat_of_nat take_bit_nat_eq_self)
    then have "unat (of_nat k + ic) = unat ic + k" using that ic by (subst unat_add_lem [THEN iffD1]) simp_all
    then show ?thesis by (simp add: slot_mod)
  qed
  define f where "f n = fold (\<lambda>i bt. bt[slot (of_nat i + ic) := 0]) [1..<Suc n] bt" for n
  have f0: "f 0 = bt" and fS: "f (Suc n) = (f n)[slot (of_nat (Suc n) + ic) := 0]" for n
    by (simp_all add: f_def)
  define hit where "hit n \<longleftrightarrow> (\<exists>k. 1 \<le> k \<and> k \<le> n \<and> (unat ic + k) mod 128 = s)" for n
  have hit: "\<not> hit 0" "hit (Suc n) \<longleftrightarrow> (unat ic + Suc n) mod 128 = s \<or> hit n" for n
    unfolding hit_def using le_Suc_eq by auto
  have "length (f n) = 128 \<and> f n ! s = (if hit n then 0 else bt ! s)" if "n \<le> t" for n
    using that
  proof (induction n)
    case 0
    then show ?case using len f0 hit(1) by simp
  next
    case (Suc n)
    have sl: "slot (of_nat (Suc n) + ic) = (unat ic + Suc n) mod 128" using slot [of "Suc n"] Suc.prems t by simp
    have "length (f n) = 128" "f n ! s = (if hit n then 0 else bt ! s)" using Suc by simp_all
    then show ?case unfolding fS sl hit(2) using s by (auto simp: nth_list_update)
  qed
  from this [of t] show ?thesis unfolding clear_words_def unat_t f_def hit_def by blast
qed

lemma set_bit_iff: "j < 64 \<Longrightarrow> j' < 64 \<Longrightarrow> bit ((w :: u64) OR 2 ^ j) j' \<longleftrightarrow> bit w j' \<or> j' = j"
  by (auto simp: bit_simps)

lemma window_less:
  assumes "a mod 128 = b mod 128" "c < a + 128" "b \<le> c"
  shows "\<not> a < (b :: nat)"
proof
  assume ab: "a < b"
  have d: "128 dvd b - a" using mod_eq_dvd_iff_nat [OF less_imp_le [OF ab], of 128] assms(1) by argo
  have "b - a < 128" "0 < b - a" using assms(2,3) ab by linarith+
  then show False using nat_dvd_not_less [of "b - a" 128] d by metis
qed

lemma window_unique:
  assumes "a mod 128 = b mod 128" "a \<le> c" "c < a + 128" "b \<le> c" "c < b + 128"
  shows "a = (b :: nat)"
  using window_less [OF assms(1,3,4)] window_less [OF assms(1) [symmetric] assms(5,2)] by linarith

text \<open>The slots the window moves onto are exactly those of the new words.\<close>

lemma words_hit:
  assumes "I \<le> J" "b \<le> J" "J < b + 128"
  shows "(\<exists>k. 1 \<le> k \<and> k \<le> min (J - I) 128 \<and> (I + k) mod 128 = b mod 128) \<longleftrightarrow> I < (b :: nat)"
proof (intro iffI, elim exE conjE)
  fix k assume k: "1 \<le> k" "k \<le> min (J - I) 128" "(I + k) mod 128 = b mod 128"
  have "I + k \<le> J" using k(2) assms(1) by simp linarith
  then have "\<not> b < I + k" by (rule window_less [OF k(3) [symmetric] assms(3)])
  then show "I < b" using k(1) by simp
next
  assume "I < b"
  define r where "r = (b - I - 1) mod 128"
  have "r < 128" "r \<le> b - I - 1" by (simp_all add: r_def)
  then have "r + 1 \<le> min (J - I) 128" using \<open>I < b\<close> assms(2) by simp
  moreover have "(I + 1 + (b - I - 1) mod 128) mod 128 = (I + 1 + (b - I - 1)) mod 128" by (rule mod_add_right_eq)
  then have "(I + (r + 1)) mod 128 = b mod 128" using \<open>I < b\<close> by (simp add: r_def)
  ultimately show "\<exists>k. 1 \<le> k \<and> k \<le> min (J - I) 128 \<and> (I + k) mod 128 = b mod 128"
    by (intro exI [of _ "r + 1"]) simp
qed

text \<open>Moving the window: the words it moves onto are empty, those it still covers are kept.\<close>

lemma advance_inv:
  assumes inv: "rc_inv S c" and n: "unat (rc_counter c) < unat n" "unat n \<le> unat REJECT_AFTER_MESSAGES"
    and b: "b \<le> unat n div 64" "unat n div 64 < b + 128" and j: "j < 64"
  defines "ic \<equiv> drop_bit 6 (rc_counter c)"
  defines "bt \<equiv> clear_words ic (min (drop_bit 6 n - ic) 128) (backtrack c)"
  shows "length bt = 128" "bit (bt ! (b mod 128)) j = (\<exists>m\<in>S. Suc m = 64 * b + j)"
proof -
  let ?C = "unat (rc_counter c)"
  define I where "I = ?C div 64"
  define J where "J = unat n div 64"
  define t where "t = min (J - I) 128"
  have le: "I \<le> J" unfolding I_def J_def using n(1) by (intro div_le_mono) simp
  have uI: "unat ic = I" and uJ: "unat (drop_bit 6 n) = J" by (simp_all only: ic_def I_def J_def word_index)
  have "ic \<le> drop_bit 6 n" using le by (simp only: word_le_nat_alt uI uJ)
  then have d: "unat (drop_bit 6 n - ic) = J - I" by (simp only: unat_sub uI uJ)
  have "unat (min (drop_bit 6 n - ic) 128) = t"
    using d by (simp add: min_def word_le_nat_alt t_def)
  then have t: "min (drop_bit 6 n - ic) 128 = of_nat t" by (metis of_nat_unat ucast_id)
  have len: "length (backtrack c) = 128" by (rule rc_invD(1) [OF inv])
  have "I \<le> ?C" by (simp add: I_def)
  then have ic: "unat ic + 128 < 2 ^ 64" using rc_invD(2) [OF inv] unfolding uI limits(1) by simp
  note cl = clear_words_nth [OF len _ ic, of t, unfolded uI]
  have t128: "t \<le> 128" by (simp add: t_def)
  show "length bt = 128" unfolding bt_def t using cl [OF t128, of 0] by simp
  note b' = b [folded J_def]
  have nth: "bt ! (b mod 128) = (if I < b then 0 else backtrack c ! (b mod 128))"
    unfolding bt_def t words_hit [OF le b', symmetric] t_def [symmetric] by (rule conjunct2 [OF cl [OF t128]]) simp
  show "bit (bt ! (b mod 128)) j = (\<exists>m\<in>S. Suc m = 64 * b + j)"
  proof (cases "I < b")
    case False
    then show ?thesis using nth rc_invD(5) [OF inv _ _ j, folded I_def] b' le by simp
  next
    case True
    have "Suc m \<noteq> 64 * b + j" if "m \<in> S" for m
    proof
      assume "Suc m = 64 * b + j"
      then have "b \<le> Suc m div 64" by simp
      moreover have "Suc m div 64 \<le> I" unfolding I_def by (rule div_le_mono [OF rc_invD(3) [OF inv that]])
      ultimately show False using True by simp
    qed
    then show ?thesis using nth True by auto
  qed
qed

text \<open>Marking a counter inside the window.\<close>

lemma mark_inv:
  fixes bt :: "u64 list"
  assumes len: "length bt = 128" and n: "unat n = Suc u" "C div 64 \<le> unat n div 64 + 127" "unat n div 64 \<le> C div 64"
    and bits: "\<And>b j. b \<le> C div 64 \<Longrightarrow> C div 64 < b + 128 \<Longrightarrow> j < 64 \<Longrightarrow>
      bit (bt ! (b mod 128)) j = (\<exists>m\<in>S. Suc m = 64 * b + j)"
    and b: "b \<le> C div 64" "C div 64 < b + 128" "j < 64"
  defines "w \<equiv> bt ! slot (drop_bit 6 n)" and "i \<equiv> unat (n AND 63)"
  shows "bit w i = (u \<in> S)"
    "bit (bt[slot (drop_bit 6 n) := w OR push_bit i 1] ! (b mod 128)) j = (\<exists>m\<in>insert u S. Suc m = 64 * b + j)"
proof -
  have i: "i = unat n mod 64" "i < 64" by (simp_all add: i_def low_bits)
  have sl: "slot (drop_bit 6 n) = unat n div 64 mod 128" by (simp add: slot_mod word_index)
  have n': "Suc u = 64 * (unat n div 64) + i" using n(1) i by simp
  show "bit w i = (u \<in> S)"
    using bits [OF n(3) _ i(2), unfolded n' [symmetric]] n(2) by (simp add: w_def sl)
  show "bit (bt[slot (drop_bit 6 n) := w OR push_bit i 1] ! (b mod 128)) j = (\<exists>m\<in>insert u S. Suc m = 64 * b + j)"
  proof (cases "b mod 128 = unat n div 64 mod 128")
    case True
    then have "b = unat n div 64" using window_unique [OF True b(1,2) n(3)] n(2) by simp
    moreover from this n' i(2) b(3) have "Suc u = 64 * b + j \<longleftrightarrow> j = i" by auto
    ultimately show ?thesis
      using bits [OF b] i(2) b(3) len True by (simp add: sl w_def set_bit_iff) blast
  next
    case False
    have "Suc u \<noteq> 64 * b + j"
    proof
      assume "Suc u = 64 * b + j"
      then have "unat n div 64 = b" using n(1) b(3) by simp
      then show False using False by simp
    qed
    then show ?thesis using bits [OF b] False by (simp add: sl)
  qed
qed

section \<open>One validation\<close>

lemma zero_inv: "rc_inv {} zero_counter"
  by (simp add: rc_inv_def zero_counter_def COUNTER_BITS_TOTAL_def BITS_PER_LONG_def)

lemma validate_low:
  assumes inv: "rc_inv S c" and n: "unat n < unat REJECT_AFTER_MESSAGES"
  shows "unat (n + 1) = Suc (unat n)" "\<not> rc_counter c \<ge> REJECT_AFTER_MESSAGES + 1"
    "unat (COUNTER_WINDOW_SIZE + (n + 1)) = unat n + 8129"
proof -
  have lim: "unat n < 2 ^ 64 - 8130" using n limits(1) by simp
  show n1: "unat (n + 1) = Suc (unat n)" using lim unat_add_lem [of n 1, THEN iffD1] by simp
  show "\<not> rc_counter c \<ge> REJECT_AFTER_MESSAGES + 1"
    using rc_invD(2) [OF inv] limits by (simp add: word_le_nat_alt)
  show "unat (COUNTER_WINDOW_SIZE + (n + 1)) = unat n + 8129"
    using n1 limits(2) lim unat_add_lem [of COUNTER_WINDOW_SIZE "n + 1", THEN iffD1] by simp
qed

definition moved :: "u64 \<Rightarrow> noise_replay_counter \<Rightarrow> noise_replay_counter" where
  "moved n c = (if n > rc_counter c then
     c\<lparr>backtrack := clear_words (drop_bit 6 (rc_counter c)) (min (drop_bit 6 n - drop_bit 6 (rc_counter c)) 128)
          (backtrack c), rc_counter := n\<rparr> else c)"

lemma moved_bits:
  assumes inv: "rc_inv S c" and n: "unat n \<le> unat REJECT_AFTER_MESSAGES"
  shows "length (backtrack (moved n c)) = 128" "unat (rc_counter (moved n c)) = max (unat (rc_counter c)) (unat n)"
    "b \<le> unat (rc_counter (moved n c)) div 64 \<Longrightarrow> unat (rc_counter (moved n c)) div 64 < b + 128 \<Longrightarrow> j < 64 \<Longrightarrow>
      bit (backtrack (moved n c) ! (b mod 128)) j = (\<exists>m\<in>S. Suc m = 64 * b + j)"
proof -
  have less: "rc_counter c < n \<longleftrightarrow> unat (rc_counter c) < unat n" by (rule word_less_nat_alt)
  show "unat (rc_counter (moved n c)) = max (unat (rc_counter c)) (unat n)"
    using less by (simp add: moved_def max_def)
  have "rc_counter c < n \<Longrightarrow> length (backtrack (moved n c)) = 128"
    using advance_inv(1) [OF inv _ n, of "unat n div 64" 0] less by (simp add: moved_def)
  then show "length (backtrack (moved n c)) = 128" using rc_invD(1) [OF inv] by (auto simp: moved_def)
  assume b: "b \<le> unat (rc_counter (moved n c)) div 64" "unat (rc_counter (moved n c)) div 64 < b + 128" "j < 64"
  show "bit (backtrack (moved n c) ! (b mod 128)) j = (\<exists>m\<in>S. Suc m = 64 * b + j)"
  proof (cases "rc_counter c < n")
    case True
    then show ?thesis using advance_inv(2) [OF inv _ n _ _ b(3)] less b by (simp add: moved_def)
  next
    case False
    then show ?thesis using rc_invD(5) [OF inv] b by (simp add: moved_def)
  qed
qed

lemma validate_moved:
  assumes "rc_inv S c" "unat n < unat REJECT_AFTER_MESSAGES" "unat (rc_counter c) \<le> unat n + 8129"
  shows "counter_validate n c = (let c1 = moved (n + 1) c; s = slot (drop_bit 6 (n + 1)); w = backtrack c1 ! s;
      j = unat ((n + 1) AND 63) in (\<not> bit w j, c1\<lparr>backtrack := (backtrack c1)[s := w OR push_bit j 1]\<rparr>))"
proof -
  note low = validate_low [OF assms(1,2)]
  have "\<not> n \<ge> REJECT_AFTER_MESSAGES" "\<not> COUNTER_WINDOW_SIZE + (n + 1) < rc_counter c"
    using assms(2,3) low(3) by (simp_all only: word_le_nat_alt word_less_nat_alt not_le not_less)
  then show ?thesis using low(2) unfolding counter_validate_def moved_def Let_def by (simp only: if_False de_Morgan_disj simp_thms)
qed

lemma validate_refused:
  assumes "rc_inv S c" "\<not> (unat n < unat REJECT_AFTER_MESSAGES \<and> unat (rc_counter c) \<le> unat n + 8129)"
  shows "counter_validate n c = (False, c)" "\<not> fresh_counter S (unat n)"
proof -
  have "n \<ge> REJECT_AFTER_MESSAGES \<or> COUNTER_WINDOW_SIZE + (n + 1) < rc_counter c"
  proof (cases "unat n < unat REJECT_AFTER_MESSAGES")
    case True
    then show ?thesis using assms validate_low(3) [OF assms(1) True] by (simp only: word_less_nat_alt not_le simp_thms)
  qed (simp add: word_le_nat_alt)
  then show "counter_validate n c = (False, c)" by (auto simp: counter_validate_def Let_def)
  show "\<not> fresh_counter S (unat n)"
  proof
    assume f: "fresh_counter S (unat n)"
    then have C: "unat n + 8129 < unat (rc_counter c)" using assms(2) by (simp add: fresh_counter_def)
    then have "unat (rc_counter c) - 1 \<in> S" using rc_invD(4) [OF assms(1)] by auto
    then show False using f C by (auto simp: fresh_counter_def)
  qed
qed

lemma validate_step:
  assumes inv: "rc_inv S c" and v: "counter_validate n c = (b, c')"
  shows "b = fresh_counter S (unat n) \<and> rc_inv (if b then insert (unat n) S else S) c'"
proof (cases "unat n < unat REJECT_AFTER_MESSAGES \<and> unat (rc_counter c) \<le> unat n + 8129")
  case False
  then show ?thesis using validate_refused [OF inv False] v inv by simp
next
  case True
  let ?N = "unat (n + 1)" and ?c1 = "moved (n + 1) c"
  have N: "?N = Suc (unat n)" by (rule validate_low(1) [OF inv]) (use True in simp)
  have NR: "?N \<le> unat REJECT_AFTER_MESSAGES" using N True by simp
  note mv = moved_bits [OF inv NR]
  have C1: "unat (rc_counter ?c1) \<le> ?N + 127 * 64" using mv(2) N True by simp
  have w: "unat (rc_counter ?c1) div 64 \<le> ?N div 64 + 127" "?N div 64 \<le> unat (rc_counter ?c1) div 64"
    using div_le_mono [OF C1, of 64] mv(2) by (simp_all add: div_le_mono)
  note mk = mark_inv [OF mv(1) N w mv(3)]
  have v': "b = (unat n \<notin> S)" "rc_counter c' = rc_counter ?c1" "length (backtrack c') = 128"
    using v mk(1) [of "unat (rc_counter ?c1) div 64" 0] mv(1) True by (auto simp: validate_moved [OF inv] Let_def)
  have fresh: "fresh_counter S (unat n) = (unat n \<notin> S)"
    using True rc_invD(3) [OF inv] by (fastforce simp: fresh_counter_def)
  have "rc_inv (insert (unat n) S) c'"
    unfolding rc_inv_def Let_def v'(2)
  proof (intro conjI allI impI)
    show "unat (rc_counter ?c1) = 0 \<or> unat (rc_counter ?c1) - 1 \<in> insert (unat n) S"
      using rc_invD(4) [OF inv] N mv(2) by (auto simp: max_def)
    show "\<forall>m\<in>insert (unat n) S. Suc m \<le> unat (rc_counter ?c1)"
      using rc_invD(3) [OF inv] N mv(2) by (auto simp: le_max_iff_disj)
    show "unat (rc_counter ?c1) \<le> unat REJECT_AFTER_MESSAGES" using mv(2) rc_invD(2) [OF inv] NR by simp
    fix x j :: nat
    assume "x \<le> unat (rc_counter ?c1) div 64 \<and> unat (rc_counter ?c1) div 64 < x + 128" "j < 64"
    then show "bit (backtrack c' ! (x mod 128)) j = (\<exists>m\<in>insert (unat n) S. Suc m = 64 * x + j)"
      using mk(2) v True by (auto simp: validate_moved [OF inv] Let_def)
  qed (rule v'(3))
  then show ?thesis using v'(1) fresh by (cases "unat n \<in> S") (simp_all add: insert_absorb)
qed

section \<open>Properties\<close>

text \<open>C29. The replay bitmap is exact: for every sequence of packet counters, starting from a
  zeroed \<open>noise_replay_counter\<close>, \<open>counter_validate\<close> accepts precisely the counters below
  the message limit that it has not accepted before and that are at most 8128 behind the
  greatest one accepted. In particular no counter is ever accepted twice, and no counter
  inside the window is rejected for the state of the ring.\<close>

theorem replay_window_exact: "validate_all ns zero_counter = accept_all ns {}"
proof -
  have "validate_all ns c = accept_all ns S" if "rc_inv S c" for S c
    using that
  proof (induction ns arbitrary: S c)
    case (Cons n ns)
    obtain b c' where v: "counter_validate n c = (b, c')" by fastforce
    from validate_step [OF Cons.prems v] Cons.IH show ?case by (auto simp: v)
  qed simp
  then show ?thesis using zero_inv by blast
qed

end
