(* ===== verification/Keypairs.thy ===== *)
theory Keypairs
  imports Noise Replay_Counter
begin

text \<open>
  Session keys of kernel/noise.c: the keypairs a handshake produces, their reference
  counts, and the three slots of a peer (next, current, previous) through which they
  move. The state is the memory of keypairs, the device's index table and the counter
  of keypairs. The lemmas show that both sides of a handshake derive the same keys,
  and that a keypair is found through a slot or an index only while it is in memory.
\<close>

section \<open>State\<close>

record noise_symmetric_key =
  sk_key :: bytes
  birthdate :: u64
  sk_is_valid :: bool

record noise_keypair =
  kp_peer :: pid
  sending :: noise_symmetric_key
  sending_counter :: u64
  receiving :: noise_symmetric_key
  receiving_counter :: noise_replay_counter
  kp_remote_index :: u32
  i_am_the_initiator :: bool
  kp_refcount :: nat
  kp_internal_id :: u64

record noise_keypairs =
  current_keypair :: "kid option"
  previous_keypair :: "kid option"
  next_keypair :: "kid option"

record key_state =
  ks_heap :: "kid \<Rightarrow> noise_keypair option"
  ks_index :: index_hashtable
  keypair_counter :: u64

section \<open>Operations\<close>

definition zero_key :: noise_symmetric_key where
  "zero_key = \<lparr>sk_key = replicate NOISE_SYMMETRIC_KEY_LEN 0, birthdate = 0, sk_is_valid = False\<rparr>"

definition zero_keypair :: "pid \<Rightarrow> u64 \<Rightarrow> noise_keypair" where
  "zero_keypair peer n =
     \<lparr>kp_peer = peer, sending = zero_key, sending_counter = 0, receiving = zero_key,
      receiving_counter = zero_counter, kp_remote_index = 0, i_am_the_initiator = False,
      kp_refcount = 1, kp_internal_id = n\<rparr>"

text \<open>\<open>alloc\<close>: the address \<open>kzalloc\<close> returns.\<close>

definition keypair_create :: "kid option \<Rightarrow> pid \<Rightarrow> key_state \<Rightarrow> kid option \<times> key_state" where
  "keypair_create alloc peer ks =
     (case alloc of
        None \<Rightarrow> (None, ks)
      | Some k \<Rightarrow>
          (Some k, ks\<lparr>keypair_counter := keypair_counter ks + 1,
                      ks_heap := (ks_heap ks)(k \<mapsto> zero_keypair peer (keypair_counter ks + 1))\<rparr>))"

definition unindex :: "kid \<Rightarrow> key_state \<Rightarrow> key_state" where
  "unindex k ks = ks\<lparr>ks_index := wg_index_hashtable_remove (Keypair_entry k) (ks_index ks)\<rparr>"

text \<open>The memory is given back after a grace period, by \<open>keypair_free_rcu\<close>.\<close>

definition keypair_free_rcu :: "kid \<Rightarrow> key_state \<Rightarrow> key_state" where
  "keypair_free_rcu k ks = ks\<lparr>ks_heap := (ks_heap ks)(k := None)\<rparr>"

definition keypair_free_kref :: "kid \<Rightarrow> key_state \<Rightarrow> key_state" where
  "keypair_free_kref k ks = unindex k ks"

definition kref_put :: "kid \<Rightarrow> key_state \<Rightarrow> key_state" where
  "kref_put k ks =
     (case ks_heap ks k of
        None \<Rightarrow> ks
      | Some kp \<Rightarrow>
          let ks1 = ks\<lparr>ks_heap := (ks_heap ks)(k \<mapsto> kp\<lparr>kp_refcount := kp_refcount kp - 1\<rparr>)\<rparr> in
          if kp_refcount kp = 1 then keypair_free_kref k ks1 else ks1)"

definition wg_noise_keypair_put :: "kid option \<Rightarrow> bool \<Rightarrow> key_state \<Rightarrow> key_state" where
  "wg_noise_keypair_put keypair unreference_now ks =
     (case keypair of
        None \<Rightarrow> ks
      | Some k \<Rightarrow> kref_put k (if unreference_now then unindex k ks else ks))"

definition wg_noise_keypair_get :: "kid option \<Rightarrow> key_state \<Rightarrow> kid option \<times> key_state" where
  "wg_noise_keypair_get keypair ks =
     (case keypair of
        None \<Rightarrow> (None, ks)
      | Some k \<Rightarrow>
          (case ks_heap ks k of
             None \<Rightarrow> (None, ks)
           | Some kp \<Rightarrow>
               if kp_refcount kp = 0 then (None, ks)
               else (Some k, ks\<lparr>ks_heap := (ks_heap ks)(k \<mapsto> kp\<lparr>kp_refcount := kp_refcount kp + 1\<rparr>)\<rparr>)))"

definition wg_noise_keypairs_clear :: "noise_keypairs \<times> key_state \<Rightarrow> noise_keypairs \<times> key_state" where
  "wg_noise_keypairs_clear st =
     (case st of (sl, ks) \<Rightarrow>
        let ks1 = wg_noise_keypair_put (next_keypair sl) True ks;
            ks2 = wg_noise_keypair_put (previous_keypair sl) True ks1;
            ks3 = wg_noise_keypair_put (current_keypair sl) True ks2
        in (sl\<lparr>next_keypair := None, previous_keypair := None, current_keypair := None\<rparr>, ks3))"

definition invalidate_sending :: "kid option \<Rightarrow> key_state \<Rightarrow> key_state" where
  "invalidate_sending keypair ks =
     (case keypair of
        None \<Rightarrow> ks
      | Some k \<Rightarrow> ks\<lparr>ks_heap := (ks_heap ks)(k := map_option (\<lambda>kp. kp\<lparr>sending := (sending kp)\<lparr>sk_is_valid := False\<rparr>\<rparr>) (ks_heap ks k))\<rparr>)"

text \<open>\<open>now\<close>: the clock; the result also has the new time of the last sent handshake.\<close>

definition wg_noise_reset_last_sent_handshake :: "u64 \<Rightarrow> u64" where
  "wg_noise_reset_last_sent_handshake now = now - (REKEY_TIMEOUT + 1) * NSEC_PER_SEC"

definition wg_noise_expire_current_peer_keypairs ::
  "u64 \<Rightarrow> pid \<Rightarrow> noise_keypairs \<Rightarrow> noise_handshake \<times> key_state \<Rightarrow> noise_handshake \<times> u64 \<times> key_state" where
  "wg_noise_expire_current_peer_keypairs now peer sl st =
     (case st of (hs, ks) \<Rightarrow>
        case wg_noise_handshake_clear peer (hs, ks_index ks) of (hs1, t) \<Rightarrow>
          (hs1, wg_noise_reset_last_sent_handshake now,
           invalidate_sending (current_keypair sl) (invalidate_sending (next_keypair sl) (ks\<lparr>ks_index := t\<rparr>))))"

definition add_new_keypair :: "bool \<Rightarrow> kid \<Rightarrow> noise_keypairs \<times> key_state \<Rightarrow> noise_keypairs \<times> key_state" where
  "add_new_keypair initiator new_keypair st =
     (case st of (sl, ks) \<Rightarrow>
        if initiator then
          case (case next_keypair sl of
                  Some n \<Rightarrow> (sl\<lparr>next_keypair := None, previous_keypair := Some n\<rparr>,
                             wg_noise_keypair_put (current_keypair sl) True ks)
                | None \<Rightarrow> (sl\<lparr>previous_keypair := current_keypair sl\<rparr>, ks)) of (sl1, ks1) \<Rightarrow>
            (sl1\<lparr>current_keypair := Some new_keypair\<rparr>, wg_noise_keypair_put (previous_keypair sl) True ks1)
        else
          (sl\<lparr>next_keypair := Some new_keypair, previous_keypair := None\<rparr>,
           wg_noise_keypair_put (previous_keypair sl) True (wg_noise_keypair_put (next_keypair sl) True ks)))"

text \<open>The slots are read once without the lock: \<open>before\<close> is the next slot at that moment.\<close>

definition wg_noise_received_with_keypair ::
  "kid option \<Rightarrow> kid \<Rightarrow> noise_keypairs \<times> key_state \<Rightarrow> bool \<times> noise_keypairs \<times> key_state" where
  "wg_noise_received_with_keypair before received_keypair st =
     (case st of (sl, ks) \<Rightarrow>
        if before \<noteq> Some received_keypair then (False, sl, ks)
        else if next_keypair sl \<noteq> Some received_keypair then (False, sl, ks)
        else (True, sl\<lparr>previous_keypair := current_keypair sl, current_keypair := Some received_keypair, next_keypair := None\<rparr>,
              wg_noise_keypair_put (previous_keypair sl) True ks))"

definition derive_keys :: "crypto \<Rightarrow> u64 \<Rightarrow> bytes \<Rightarrow> noise_symmetric_key \<times> noise_symmetric_key" where
  "derive_keys cr now ck =
     (case kdf cr [] NOISE_SYMMETRIC_KEY_LEN NOISE_SYMMETRIC_KEY_LEN 0 ck of (first, second, _) \<Rightarrow>
        (\<lparr>sk_key = first, birthdate = now, sk_is_valid = True\<rparr>, \<lparr>sk_key = second, birthdate = now, sk_is_valid = True\<rparr>))"

text \<open>What \<open>wg_noise_handshake_begin_session\<close> stores in the keypair it has allocated.\<close>

definition session_keypair :: "crypto \<Rightarrow> u64 \<Rightarrow> noise_handshake \<Rightarrow> noise_keypair \<Rightarrow> noise_keypair" where
  "session_keypair cr now hs kp =
     (let initiator = (hs_state hs = HANDSHAKE_CONSUMED_RESPONSE);
          (first, second) = derive_keys cr now (chaining_key hs)
      in kp\<lparr>i_am_the_initiator := initiator, kp_remote_index := hs_remote_index hs,
            sending := (if initiator then first else second),
            receiving := (if initiator then second else first)\<rparr>)"

definition wg_noise_handshake_begin_session ::
  "crypto \<Rightarrow> kid option \<Rightarrow> u64 \<Rightarrow> bool \<Rightarrow> pid \<Rightarrow> noise_handshake \<times> noise_keypairs \<times> key_state \<Rightarrow>
   bool \<times> noise_handshake \<times> noise_keypairs \<times> key_state" where
  "wg_noise_handshake_begin_session cr alloc now dead peer st =
     (case st of (hs, sl, ks) \<Rightarrow>
        if hs_state hs \<noteq> HANDSHAKE_CREATED_RESPONSE \<and> hs_state hs \<noteq> HANDSHAKE_CONSUMED_RESPONSE
        then (False, hs, sl, ks)
        else
          (case keypair_create alloc peer ks of
             (None, ks1) \<Rightarrow> (False, hs, sl, ks1)
           | (Some k, ks1) \<Rightarrow>
               let ks2 = ks1\<lparr>ks_heap := (ks_heap ks1)(k := map_option (session_keypair cr now hs) (ks_heap ks1 k))\<rparr>;
                   hs1 = handshake_zero hs
               in if \<not> dead then
                    case add_new_keypair (hs_state hs = HANDSHAKE_CONSUMED_RESPONSE) k (sl, ks2) of (sl1, ks3) \<Rightarrow>
                      case wg_index_hashtable_replace (Handshake_entry peer) (Keypair_entry k) peer (ks_index ks3) of
                        (ret, t) \<Rightarrow> (ret, hs1, sl1, ks3\<lparr>ks_index := t\<rparr>)
                  else (False, hs1, sl, ks2\<lparr>ks_heap := (ks_heap ks2)(k := None)\<rparr>)))"

section \<open>References\<close>

text \<open>
  For the keypairs of one peer: \<open>S\<close> is the set of those in a slot, \<open>ext k\<close> the number of
  references that other code holds to \<open>k\<close>.
\<close>

definition kp_refs :: "pid \<Rightarrow> (kid \<Rightarrow> nat) \<Rightarrow> kid set \<Rightarrow> key_state \<Rightarrow> bool" where
  "kp_refs p ext S ks \<longleftrightarrow>
     (\<forall>k. k \<in> S \<or> ext k > 0 \<longrightarrow> (\<exists>kp. ks_heap ks k = Some kp \<and> kp_peer kp = p)) \<and>
     (\<forall>k kp. ks_heap ks k = Some kp \<longrightarrow> kp_peer kp = p \<longrightarrow> kp_refcount kp = ext k + of_bool (k \<in> S))"

definition kp_indexed :: "pid \<Rightarrow> kid set \<Rightarrow> key_state \<Rightarrow> bool" where
  "kp_indexed p S ks \<longleftrightarrow>
     index_inv (ks_index ks) \<and>
     (\<forall>i k q. index_abs (ks_index ks) i = Some (Keypair_entry k, q) \<longrightarrow>
        (\<exists>kp. ks_heap ks k = Some kp \<and> kp_peer kp = q) \<and> (q = p \<longrightarrow> k \<in> S))"

definition kp_inv :: "pid \<Rightarrow> (kid \<Rightarrow> nat) \<Rightarrow> kid set \<Rightarrow> key_state \<Rightarrow> bool" where
  "kp_inv p ext S ks \<longleftrightarrow> kp_refs p ext S ks \<and> kp_indexed p S ks"

text \<open>Changes of a keypair that keep its owner do not matter to the index.\<close>

lemma indexed_update:
  assumes "kp_indexed p S ks" "\<And>k. map_option kp_peer (ks_heap ks' k) = map_option kp_peer (ks_heap ks k)"
    "ks_index ks' = ks_index ks"
  shows "kp_indexed p S ks'"
  unfolding kp_indexed_def
proof (intro conjI allI impI)
  show "index_inv (ks_index ks')" using assms(1,3) by (simp add: kp_indexed_def)
  fix i k q
  assume "index_abs (ks_index ks') i = Some (Keypair_entry k, q)"
  then have k: "\<exists>kp. ks_heap ks k = Some kp \<and> kp_peer kp = q" "q = p \<longrightarrow> k \<in> S"
    using assms(1,3) by (auto simp: kp_indexed_def)
  then show "\<exists>kp. ks_heap ks' k = Some kp \<and> kp_peer kp = q" using assms(2) [of k] by auto
  show "k \<in> S" if "q = p" using k(2) that by simp
qed

lemma indexed_unindex:
  assumes "kp_indexed p S ks"
  shows "kp_indexed p (S - {k}) (unindex k ks)"
  unfolding kp_indexed_def
proof (intro conjI allI impI)
  have inv: "index_inv (ks_index ks)" using assms by (simp add: kp_indexed_def)
  show "index_inv (ks_index (unindex k ks))" using index_remove(1) [OF inv] by (simp add: unindex_def)
  fix i k' q
  assume "index_abs (ks_index (unindex k ks)) i = Some (Keypair_entry k', q)"
  then have "index_abs (ks_index ks) i = Some (Keypair_entry k', q)" "k' \<noteq> k"
    by (auto simp: unindex_def index_remove(2) [OF inv] split: option.splits if_splits)
  then show "\<exists>kp. ks_heap (unindex k ks) k' = Some kp \<and> kp_peer kp = q" "q = p \<Longrightarrow> k' \<in> S - {k}"
    using assms by (auto simp: kp_indexed_def unindex_def)
qed

lemma indexed_mono: "kp_indexed p S ks \<Longrightarrow> S \<subseteq> S' \<Longrightarrow> kp_indexed p S' ks"
  unfolding kp_indexed_def by blast

lemma unindex_heap [simp]: "ks_heap (unindex k ks) = ks_heap ks"
  by (simp add: unindex_def)

lemma refs_index: "ks_heap ks' = ks_heap ks \<Longrightarrow> kp_refs p ext S ks' = kp_refs p ext S ks"
  by (simp add: kp_refs_def)

lemma kref_put_heap:
  "ks_heap ks k = Some kp \<Longrightarrow>
    ks_heap (kref_put k ks) = (ks_heap ks)(k \<mapsto> kp\<lparr>kp_refcount := kp_refcount kp - 1\<rparr>)"
  by (simp add: kref_put_def keypair_free_kref_def Let_def)

lemma kref_put_indexed:
  assumes "kp_indexed p S ks" "k \<notin> S"
  shows "kp_indexed p S (kref_put k ks)"
proof (cases "ks_heap ks k")
  case (Some kp)
  let ?ks = "ks\<lparr>ks_heap := (ks_heap ks)(k \<mapsto> kp\<lparr>kp_refcount := kp_refcount kp - 1\<rparr>)\<rparr>"
  have 1: "kp_indexed p S ?ks" by (rule indexed_update [OF assms(1)]) (simp_all add: Some)
  have "kp_indexed p (S - {k}) (unindex k ?ks)" by (rule indexed_unindex [OF 1])
  then have "kp_indexed p S (unindex k ?ks)" using assms(2) by simp
  moreover have "kref_put k ks = (if kp_refcount kp = 1 then unindex k ?ks else ?ks)"
    by (simp add: Some kref_put_def keypair_free_kref_def Let_def del: One_nat_def)
  ultimately show ?thesis using 1 by presburger
qed (simp add: kref_put_def assms)

lemma refsE:
  assumes "kp_inv p ext S ks" "k \<in> S \<or> ext k > 0"
  obtains kp where "ks_heap ks k = Some kp" "kp_peer kp = p" "kp_refcount kp = ext k + of_bool (k \<in> S)"
  using assms unfolding kp_inv_def kp_refs_def by blast

lemma put_slot:
  assumes "kp_inv p ext S ks" "k \<in> S"
  shows "kp_inv p ext (S - {k}) (wg_noise_keypair_put (Some k) True ks)"
proof -
  obtain kp where kp: "ks_heap ks k = Some kp" "kp_peer kp = p" "kp_refcount kp = Suc (ext k)"
    using refsE [of p ext S ks k] assms by auto
  have "kp_indexed p (S - {k}) (kref_put k (unindex k ks))"
    using assms(1) by (intro kref_put_indexed indexed_unindex) (simp_all add: kp_inv_def)
  moreover have "kp_refs p ext (S - {k}) (kref_put k (unindex k ks))"
    using assms kp unfolding kp_inv_def kp_refs_def by (auto simp: kref_put_heap)
  ultimately show ?thesis by (simp add: kp_inv_def wg_noise_keypair_put_def)
qed

lemma put_external:
  assumes "kp_inv p ext S ks" "ext k > 0"
  shows "kp_inv p (ext(k := ext k - 1)) S (wg_noise_keypair_put (Some k) False ks)"
proof -
  obtain kp where kp: "ks_heap ks k = Some kp" "kp_peer kp = p" "kp_refcount kp = ext k + of_bool (k \<in> S)"
    using refsE [of p ext S ks k] assms by blast
  have "kp_indexed p S (kref_put k ks)"
  proof (cases "k \<in> S")
    case True
    then have "kp_refcount kp \<noteq> 1" using kp(3) assms(2) by simp
    then have "kref_put k ks = ks\<lparr>ks_heap := (ks_heap ks)(k \<mapsto> kp\<lparr>kp_refcount := kp_refcount kp - 1\<rparr>)\<rparr>"
      by (simp add: kref_put_def kp)
    then show ?thesis using assms(1) indexed_update [of p S ks "kref_put k ks"] kp(1) by (simp add: kp_inv_def)
  next
    case False
    then show ?thesis using assms(1) by (simp add: kp_inv_def kref_put_indexed)
  qed
  moreover have "kp_refs p (ext(k := ext k - 1)) S (kref_put k ks)"
    using assms kp unfolding kp_inv_def kp_refs_def by (auto simp: kref_put_heap)
  ultimately show ?thesis by (simp add: kp_inv_def wg_noise_keypair_put_def)
qed

lemma get_external:
  assumes "kp_inv p ext S ks" "wg_noise_keypair_get (Some k) ks = (Some k, ks')"
    "map_option kp_peer (ks_heap ks k) = Some p"
  shows "kp_inv p (ext(k := ext k + 1)) S ks'"
proof -
  obtain kp where kp: "ks_heap ks k = Some kp" "kp_peer kp = p" using assms(3) by auto
  have ks': "ks' = ks\<lparr>ks_heap := (ks_heap ks)(k \<mapsto> kp\<lparr>kp_refcount := kp_refcount kp + 1\<rparr>)\<rparr>"
    using assms(2) by (simp add: wg_noise_keypair_get_def kp split: if_splits)
  have "kp_indexed p S ks'"
    by (rule indexed_update [of p S ks, rotated]) (simp_all add: kp ks' assms(1) [unfolded kp_inv_def])
  moreover have "kp_refs p (ext(k := ext k + 1)) S ks'"
    using assms(1) kp by (simp add: kp_inv_def kp_refs_def ks')
  ultimately show ?thesis by (simp add: kp_inv_def)
qed

lemma create_slot:
  assumes "kp_inv p ext S ks" "ks_heap ks k = None" "ks_index ks' = ks_index ks"
    "ks_heap ks' = (ks_heap ks)(k \<mapsto> kp)" "kp_peer kp = p" "kp_refcount kp = 1"
  shows "kp_inv p ext (insert k S) ks'"
proof -
  have k: "k \<notin> S" "ext k = 0" using assms(1,2) unfolding kp_inv_def kp_refs_def by fastforce+
  have "kp_indexed p (insert k S) ks'"
    using assms(1,2,3,4) unfolding kp_inv_def kp_indexed_def by fastforce
  moreover have "kp_refs p ext (insert k S) ks'"
    using assms k unfolding kp_inv_def kp_refs_def by auto
  ultimately show ?thesis by (simp add: kp_inv_def)
qed

lemma freed:
  assumes "kp_inv p ext S ks" "ks_heap ks k = Some kp" "kp_peer kp = p" "kp_refcount kp = 0"
  shows "kp_inv p ext S (keypair_free_rcu k ks)"
proof -
  have k: "k \<notin> S" "ext k = 0" using assms unfolding kp_inv_def kp_refs_def by fastforce+
  then have "kp_indexed p S (keypair_free_rcu k ks)"
    using assms unfolding kp_inv_def kp_indexed_def keypair_free_rcu_def by fastforce
  moreover have "kp_refs p ext S (keypair_free_rcu k ks)"
    using assms(1) k unfolding kp_inv_def kp_refs_def keypair_free_rcu_def by auto
  ultimately show ?thesis by (simp add: kp_inv_def)
qed

lemma put_slots:
  assumes "kp_inv p ext (set_option old \<union> S) ks" "set_option old \<inter> S = {}"
  shows "kp_inv p ext S (wg_noise_keypair_put old True ks)"
proof (cases old)
  case (Some k)
  then have "S = set_option old \<union> S - {k}" using assms(2) by auto
  then show ?thesis using put_slot [OF assms(1), of k] Some by simp
qed (use assms in \<open>simp add: wg_noise_keypair_put_def\<close>)

lemma put_from:
  "kp_inv p ext T ks \<Longrightarrow> T = set_option old \<union> S \<Longrightarrow> set_option old \<inter> S = {} \<Longrightarrow>
    kp_inv p ext S (wg_noise_keypair_put old True ks)"
  using put_slots by simp

lemma replaced:
  assumes inv: "kp_inv p ext S ks" and k: "k \<in> S" "absent (Keypair_entry k) (ks_index ks)"
    and r: "wg_index_hashtable_replace (Handshake_entry p) (Keypair_entry k) p (ks_index ks) = (b, t)"
  shows "kp_inv p ext S (ks\<lparr>ks_index := t\<rparr>)"
proof -
  have ix: "index_inv (ks_index ks)" using inv by (simp add: kp_inv_def kp_indexed_def)
  note rep = index_replace [OF ix k(2) r]
  obtain kp where kp: "ks_heap ks k = Some kp" "kp_peer kp = p" using refsE [OF inv] k(1) by blast
  have "kp_indexed p S (ks\<lparr>ks_index := t\<rparr>)"
    unfolding kp_indexed_def
  proof (intro conjI allI impI)
    fix i k' q
    assume "index_abs (ks_index (ks\<lparr>ks_index := t\<rparr>)) i = Some (Keypair_entry k', q)"
    then have "index_abs t i = Some (Keypair_entry k', q)" by simp
    then have "k' = k \<and> q = p \<or> index_abs (ks_index ks) i = Some (Keypair_entry k', q)"
      using rep(3) [of i] by (auto split: option.splits if_splits)
    then show "\<exists>kp. ks_heap (ks\<lparr>ks_index := t\<rparr>) k' = Some kp \<and> kp_peer kp = q" "q = p \<Longrightarrow> k' \<in> S"
      using inv kp k(1) by (auto simp: kp_inv_def kp_indexed_def)
  qed (simp add: rep(1))
  then show ?thesis using inv by (simp add: kp_inv_def refs_index [of "ks\<lparr>ks_index := t\<rparr>" ks])
qed

lemma invalidated:
  assumes "kp_inv p ext S ks"
  shows "kp_inv p ext S (invalidate_sending old ks)"
proof (cases old)
  case (Some k)
  let ?ks = "invalidate_sending old ks"
  have ix: "ks_index ?ks = ks_index ks" by (simp add: invalidate_sending_def Some)
  have heap: "map_option kp_peer (ks_heap ?ks j) = map_option kp_peer (ks_heap ks j)"
    "map_option kp_refcount (ks_heap ?ks j) = map_option kp_refcount (ks_heap ks j)" for j
    by (simp_all add: invalidate_sending_def Some option.map_comp comp_def)
  have "kp_indexed p S ?ks"
    using indexed_update [OF _ heap(1) ix] assms by (simp add: kp_inv_def)
  moreover have "kp_refs p ext S ?ks"
    unfolding kp_refs_def
  proof (intro conjI allI impI)
    fix j assume "j \<in> S \<or> 0 < ext j"
    then obtain kp where "ks_heap ks j = Some kp" "kp_peer kp = p" using refsE [OF assms] by blast
    then show "\<exists>kp. ks_heap ?ks j = Some kp \<and> kp_peer kp = p" using heap(1) [of j] by auto
  next
    fix j kp assume j: "ks_heap ?ks j = Some kp" "kp_peer kp = p"
    then obtain kp' where "ks_heap ks j = Some kp'" "kp_peer kp' = p" "kp_refcount kp' = kp_refcount kp"
      using heap [of j] by (cases "ks_heap ks j") auto
    then show "kp_refcount kp = ext j + of_bool (j \<in> S)" using assms by (simp add: kp_inv_def kp_refs_def)
  qed
  ultimately show ?thesis by (simp add: kp_inv_def)
qed (simp add: assms invalidate_sending_def)

section \<open>The slots\<close>

text \<open>No keypair is in two slots.\<close>

definition slots_inv :: "pid \<Rightarrow> (kid \<Rightarrow> nat) \<Rightarrow> noise_keypairs \<times> key_state \<Rightarrow> bool" where
  "slots_inv p ext st \<longleftrightarrow>
     (case st of (sl, ks) \<Rightarrow>
        let N = set_option (next_keypair sl); C = set_option (current_keypair sl); Q = set_option (previous_keypair sl) in
        N \<inter> C = {} \<and> N \<inter> Q = {} \<and> C \<inter> Q = {} \<and> kp_inv p ext (N \<union> (C \<union> Q)) ks)"

lemma slots_invE:
  assumes "slots_inv p ext (sl, ks)"
  obtains "set_option (next_keypair sl) \<inter> set_option (current_keypair sl) = {}"
    "set_option (next_keypair sl) \<inter> set_option (previous_keypair sl) = {}"
    "set_option (current_keypair sl) \<inter> set_option (previous_keypair sl) = {}"
    "kp_inv p ext (set_option (next_keypair sl) \<union> (set_option (current_keypair sl) \<union> set_option (previous_keypair sl))) ks"
  using assms by (simp add: slots_inv_def Let_def)

lemma keypairs_clear:
  assumes "slots_inv p ext (sl, ks)"
  shows "slots_inv p ext (wg_noise_keypairs_clear (sl, ks))"
proof -
  let ?N = "set_option (next_keypair sl)" and ?C = "set_option (current_keypair sl)"
    and ?Q = "set_option (previous_keypair sl)"
  note d = slots_invE [OF assms]
  have 1: "kp_inv p ext (?C \<union> ?Q) (wg_noise_keypair_put (next_keypair sl) True ks)"
    by (rule d, rule put_slots) auto
  have 2: "kp_inv p ext ?C (wg_noise_keypair_put (previous_keypair sl) True (wg_noise_keypair_put (next_keypair sl) True ks))"
    by (rule d, rule put_slots) (use 1 in \<open>auto simp: Un_commute\<close>)
  have "kp_inv p ext {} (wg_noise_keypair_put (current_keypair sl) True
      (wg_noise_keypair_put (previous_keypair sl) True (wg_noise_keypair_put (next_keypair sl) True ks)))"
    using put_slots [of p ext "current_keypair sl" "{}"] 2 by simp
  then show ?thesis by (simp add: wg_noise_keypairs_clear_def slots_inv_def)
qed

lemma received_with_keypair:
  assumes "slots_inv p ext (sl, ks)" "wg_noise_received_with_keypair before k (sl, ks) = (b, st)"
  shows "slots_inv p ext st"
proof (cases "before = Some k \<and> next_keypair sl = Some k")
  case True
  let ?C = "set_option (current_keypair sl)" and ?Q = "set_option (previous_keypair sl)"
  have d: "k \<notin> ?C" "k \<notin> ?Q" "?C \<inter> ?Q = {}" "kp_inv p ext ({k} \<union> (?C \<union> ?Q)) ks"
    using assms(1) True by (auto elim: slots_invE)
  have "?Q \<union> ({k} \<union> ?C) = {k} \<union> (?C \<union> ?Q)" by blast
  then have "kp_inv p ext ({k} \<union> ?C) (wg_noise_keypair_put (previous_keypair sl) True ks)"
    using d by (intro put_slots) auto
  then show ?thesis using assms(2) True d(1) by (auto simp: wg_noise_received_with_keypair_def slots_inv_def)
next
  case False
  then show ?thesis using assms by (auto simp: wg_noise_received_with_keypair_def split: if_splits)
qed

lemma add_keypair:
  assumes "set_option (next_keypair sl) \<inter> set_option (current_keypair sl) = {}"
    "set_option (next_keypair sl) \<inter> set_option (previous_keypair sl) = {}"
    "set_option (current_keypair sl) \<inter> set_option (previous_keypair sl) = {}"
    "kp_inv p ext (insert k (set_option (next_keypair sl) \<union> (set_option (current_keypair sl) \<union> set_option (previous_keypair sl)))) ks"
    "k \<notin> set_option (next_keypair sl) \<union> (set_option (current_keypair sl) \<union> set_option (previous_keypair sl))"
  shows "slots_inv p ext (add_new_keypair initiator k (sl, ks))"
proof -
  let ?N = "set_option (next_keypair sl)" and ?C = "set_option (current_keypair sl)"
    and ?Q = "set_option (previous_keypair sl)"
  consider (resp) "\<not> initiator" | (first) "initiator" "next_keypair sl = None"
    | (again) n where "initiator" "next_keypair sl = Some n" by (cases "next_keypair sl") auto
  then show ?thesis
  proof cases
    case resp
    have "kp_inv p ext (insert k (?C \<union> ?Q)) (wg_noise_keypair_put (next_keypair sl) True ks)"
      by (rule put_from [OF assms(4)]) (use assms(1,2,5) in auto)
    then have "kp_inv p ext (insert k ?C)
        (wg_noise_keypair_put (previous_keypair sl) True (wg_noise_keypair_put (next_keypair sl) True ks))"
      by (rule put_from) (use assms(3,5) in auto)
    then show ?thesis using resp assms(5) by (auto simp: add_new_keypair_def slots_inv_def)
  next
    case first
    have "kp_inv p ext (insert k ?C) (wg_noise_keypair_put (previous_keypair sl) True ks)"
      by (rule put_from [OF assms(4)]) (use first assms(3,5) in auto)
    then show ?thesis using first assms(5) by (auto simp: add_new_keypair_def slots_inv_def)
  next
    case again
    have "kp_inv p ext (insert k (insert n ?Q)) (wg_noise_keypair_put (current_keypair sl) True ks)"
      by (rule put_from [OF assms(4)]) (use again assms(1,3,5) in auto)
    then have "kp_inv p ext {n, k}
        (wg_noise_keypair_put (previous_keypair sl) True (wg_noise_keypair_put (current_keypair sl) True ks))"
      by (rule put_from) (use again assms(2,5) in auto)
    then show ?thesis using again assms(5) by (auto simp: add_new_keypair_def slots_inv_def)
  qed
qed

lemma absentI:
  assumes "index_inv t" "\<And>i q. index_abs t i \<noteq> Some (e, q)"
  shows "absent e t"
  using index_absI [OF assms(1)] assms(2) by (auto simp: absent_def)

lemma absent_less: "absent e t \<Longrightarrow> absent e (wg_index_hashtable_remove e' t)"
  by (auto simp: absent_def wg_index_hashtable_remove_def)

lemma absent_put: "absent e (ks_index ks) \<Longrightarrow> absent e (ks_index (wg_noise_keypair_put old b ks))"
  by (simp add: wg_noise_keypair_put_def kref_put_def keypair_free_kref_def unindex_def absent_less Let_def
      split: option.split)

lemma absent_add:
  "absent e (ks_index ks) \<Longrightarrow> add_new_keypair initiator k (sl, ks) = (sl', ks') \<Longrightarrow> absent e (ks_index ks')"
  by (auto simp: add_new_keypair_def absent_put split: if_splits option.splits)

lemma begin_sessionE:
  assumes "wg_noise_handshake_begin_session cr alloc now dead p (hs, sl, ks) = (b, hs', sl', ks')"
  obtains (nothing) "sl' = sl" "ks' = ks" "hs' = hs" "\<not> b"
  | (stillborn) k where "alloc = Some k" "sl' = sl" "\<not> b" "hs' = handshake_zero hs"
      "ks' = ks\<lparr>keypair_counter := keypair_counter ks + 1, ks_heap := (ks_heap ks)(k := None)\<rparr>"
  | (session) k kp ks2 t where "alloc = Some k" "hs' = handshake_zero hs"
      "kp = session_keypair cr now hs (zero_keypair p (keypair_counter ks + 1))"
      "add_new_keypair (hs_state hs = HANDSHAKE_CONSUMED_RESPONSE) k
         (sl, ks\<lparr>keypair_counter := keypair_counter ks + 1, ks_heap := (ks_heap ks)(k \<mapsto> kp)\<rparr>) = (sl', ks2)"
      "wg_index_hashtable_replace (Handshake_entry p) (Keypair_entry k) p (ks_index ks2) = (b, t)"
      "ks' = ks2\<lparr>ks_index := t\<rparr>"
  using assms
  by (auto simp: wg_noise_handshake_begin_session_def keypair_create_def Let_def split: if_splits option.splits prod.splits)

lemma session_keypair_fields [simp]:
  "kp_peer (session_keypair cr now hs kp) = kp_peer kp" "kp_refcount (session_keypair cr now hs kp) = kp_refcount kp"
  by (simp_all add: session_keypair_def Let_def split: prod.split)

lemma zero_keypair_fields [simp]: "kp_peer (zero_keypair p n) = p" "kp_refcount (zero_keypair p n) = 1"
  by (simp_all add: zero_keypair_def)

lemma begins_session:
  assumes inv: "slots_inv p ext (sl, ks)" and new: "\<And>k. alloc = Some k \<Longrightarrow> ks_heap ks k = None"
    and r: "wg_noise_handshake_begin_session cr alloc now dead p (hs, sl, ks) = (b, hs', sl', ks')"
  shows "slots_inv p ext (sl', ks')"
  using r
proof (cases rule: begin_sessionE)
  case nothing
  then show ?thesis using inv by simp
next
  case (stillborn k)
  then have "ks_heap ks' = ks_heap ks" "ks_index ks' = ks_index ks" using new [of k] by auto
  then have "kp_inv p ext S ks' = kp_inv p ext S ks" for S by (simp add: kp_inv_def kp_refs_def kp_indexed_def)
  then show ?thesis using inv stillborn(2) by (simp add: slots_inv_def)
next
  case (session k kp ks2 t)
  let ?S = "set_option (next_keypair sl) \<union> (set_option (current_keypair sl) \<union> set_option (previous_keypair sl))"
  let ?ks1 = "ks\<lparr>keypair_counter := keypair_counter ks + 1, ks_heap := (ks_heap ks)(k \<mapsto> kp)\<rparr>"
  have k: "ks_heap ks k = None" using new session(1) by simp
  have S: "kp_inv p ext ?S ks" using inv by (rule slots_invE)
  have "k \<notin> ?S" using refsE [OF S] k by fastforce
  moreover have "kp_inv p ext (insert k ?S) ?ks1" by (rule create_slot [OF S k, where kp = kp]) (simp_all add: session(3))
  ultimately have 2: "slots_inv p ext (sl', ks2)"
    unfolding session(4) [symmetric] by (intro add_keypair) (rule slots_invE [OF inv], assumption)+
  have "absent (Keypair_entry k) (ks_index ks)"
  proof (rule absentI)
    show "index_inv (ks_index ks)" using S by (simp add: kp_inv_def kp_indexed_def)
    show "index_abs (ks_index ks) i \<noteq> Some (Keypair_entry k, q)" for i q
    proof
      assume "index_abs (ks_index ks) i = Some (Keypair_entry k, q)"
      then have "\<exists>kp. ks_heap ks k = Some kp" using S unfolding kp_inv_def kp_indexed_def by blast
      then show False using k by simp
    qed
  qed
  then have a: "absent (Keypair_entry k) (ks_index ks2)" by (intro absent_add [OF _ session(4)]) simp
  have in_slot: "k \<in> set_option (next_keypair sl') \<union> (set_option (current_keypair sl') \<union> set_option (previous_keypair sl'))"
    using session(4) by (auto simp: add_new_keypair_def split: if_splits option.splits)
  show ?thesis
    using 2 replaced [OF _ in_slot a session(5)] by (simp add: slots_inv_def Let_def session(6))
qed

section \<open>Life of a peer's keys\<close>

text \<open>
  The operations on one peer's keys, in any order. \<open>ext\<close> counts the references that the data
  path holds. \<open>foreign\<close>: other peers' keys and all handshakes change, and the table with them.
\<close>

definition foreign :: "pid \<Rightarrow> key_state \<Rightarrow> key_state \<Rightarrow> bool" where
  "foreign p ks ks' \<longleftrightarrow>
     (\<forall>k kp. kp_peer kp = p \<longrightarrow> (ks_heap ks k = Some kp \<longleftrightarrow> ks_heap ks' k = Some kp)) \<and>
     index_inv (ks_index ks') \<and>
     (\<forall>i k q. index_abs (ks_index ks') i = Some (Keypair_entry k, q) \<longrightarrow>
        (if q = p then index_abs (ks_index ks) i = Some (Keypair_entry k, p)
         else \<exists>kp. ks_heap ks' k = Some kp \<and> kp_peer kp = q))"

inductive kp_step ::
  "pid \<Rightarrow> (kid \<Rightarrow> nat) \<times> noise_keypairs \<times> key_state \<Rightarrow> (kid \<Rightarrow> nat) \<times> noise_keypairs \<times> key_state \<Rightarrow> bool" for p where
  step_session:
    "wg_noise_handshake_begin_session cr alloc now dead p (hs, sl, ks) = (b, hs', sl', ks') \<Longrightarrow>
     (\<And>k. alloc = Some k \<Longrightarrow> ks_heap ks k = None) \<Longrightarrow> kp_step p (ext, sl, ks) (ext, sl', ks')"
| step_received:
    "wg_noise_received_with_keypair before k (sl, ks) = (b, st) \<Longrightarrow> kp_step p (ext, sl, ks) (ext, st)"
| step_clear: "kp_step p (ext, sl, ks) (ext, wg_noise_keypairs_clear (sl, ks))"
| step_expire:
    "wg_noise_expire_current_peer_keypairs now p sl (hs, ks) = (hs', last_sent, ks') \<Longrightarrow>
     kp_step p (ext, sl, ks) (ext, sl, ks')"
| step_get:
    "wg_noise_keypair_get (Some k) ks = (Some k, ks') \<Longrightarrow> map_option kp_peer (ks_heap ks k) = Some p \<Longrightarrow>
     kp_step p (ext, sl, ks) (ext(k := ext k + 1), sl, ks')"
| step_put:
    "ext k > 0 \<Longrightarrow> kp_step p (ext, sl, ks) (ext(k := ext k - 1), sl, wg_noise_keypair_put (Some k) False ks)"
| step_free:
    "ks_heap ks k = Some kp \<Longrightarrow> kp_peer kp = p \<Longrightarrow> kp_refcount kp = 0 \<Longrightarrow>
     kp_step p (ext, sl, ks) (ext, sl, keypair_free_rcu k ks)"
| step_foreign: "foreign p ks ks' \<Longrightarrow> kp_step p (ext, sl, ks) (ext, sl, ks')"

lemma foreign_inv:
  assumes "kp_inv p ext S ks" "foreign p ks ks'"
  shows "kp_inv p ext S ks'"
proof -
  have heap: "ks_heap ks' k = Some kp \<longleftrightarrow> ks_heap ks k = Some kp" if "kp_peer kp = p" for k kp
    using assms(2) that by (simp add: foreign_def)
  have "kp_refs p ext S ks'"
    using assms(1) heap unfolding kp_inv_def kp_refs_def by metis
  moreover have "kp_indexed p S ks'"
    unfolding kp_indexed_def
  proof (intro conjI allI impI)
    show "index_inv (ks_index ks')" using assms(2) by (simp add: foreign_def)
    fix i k q assume i: "index_abs (ks_index ks') i = Some (Keypair_entry k, q)"
    then have old: "index_abs (ks_index ks) i = Some (Keypair_entry k, p)" if "q = p"
      using assms(2) that by (auto simp: foreign_def)
    show "k \<in> S" if "q = p" using old [OF that] assms(1) by (auto simp: kp_inv_def kp_indexed_def)
    show "\<exists>kp. ks_heap ks' k = Some kp \<and> kp_peer kp = q"
    proof (cases "q = p")
      case True
      then obtain kp where "ks_heap ks k = Some kp" "kp_peer kp = p"
        using old assms(1) unfolding kp_inv_def kp_indexed_def by blast
      then show ?thesis using heap True by blast
    next
      case False
      then show ?thesis using assms(2) i by (auto simp: foreign_def)
    qed
  qed
  ultimately show ?thesis by (simp add: kp_inv_def)
qed

lemma expire_inv:
  assumes "kp_inv p ext S ks" "wg_noise_expire_current_peer_keypairs now p sl (hs, ks) = (hs', last_sent, ks')"
  shows "kp_inv p ext S ks'"
proof -
  let ?t = "wg_index_hashtable_remove (Handshake_entry p) (ks_index ks)"
  have ks': "ks' = invalidate_sending (current_keypair sl) (invalidate_sending (next_keypair sl) (ks\<lparr>ks_index := ?t\<rparr>))"
    using assms(2) by (simp add: wg_noise_expire_current_peer_keypairs_def wg_noise_handshake_clear_def)
  have inv: "index_inv (ks_index ks)" using assms(1) by (simp add: kp_inv_def kp_indexed_def)
  have "foreign p ks (ks\<lparr>ks_index := ?t\<rparr>)"
    using assms(1) unfolding foreign_def kp_inv_def kp_indexed_def
    by (auto simp: index_remove [OF inv] split: option.splits if_splits)
  then show ?thesis unfolding ks' by (intro invalidated foreign_inv [OF assms(1)])
qed

lemma slots_inv_keys:
  assumes "slots_inv p ext (sl, ks)" "\<And>S. kp_inv p ext S ks \<Longrightarrow> kp_inv p ext' S ks'"
  shows "slots_inv p ext' (sl, ks')"
  using assms by (simp add: slots_inv_def Let_def)

lemma kp_step_inv:
  "kp_step p st st' \<Longrightarrow> slots_inv p (fst st) (snd st) \<Longrightarrow> slots_inv p (fst st') (snd st')"
proof (induction rule: kp_step.induct)
  case (step_session cr alloc now dead hs sl ks b hs' sl' ks' ext)
  then show ?case using begins_session [OF _ step_session(2,1), of ext] by simp
next
  case (step_received before k sl ks b st ext)
  then show ?case using received_with_keypair [OF _ step_received(1), of p ext] by simp
next
  case (step_clear ext sl ks)
  then show ?case using keypairs_clear [of p ext sl ks] by simp
next
  case (step_expire now sl hs ks hs' last_sent ks' ext)
  then show ?case using slots_inv_keys [OF _ expire_inv [OF _ step_expire(1)]] by simp
next
  case (step_get k ks ks' ext sl)
  then show ?case using slots_inv_keys [OF _ get_external [OF _ step_get(1,2)]] by simp
next
  case (step_put ext k sl ks)
  show ?case
    unfolding fst_conv snd_conv
  proof (rule slots_inv_keys)
    show "slots_inv p ext (sl, ks)" using step_put(2) by simp
  qed (rule put_external [where ext = ext and k = k, OF _ step_put(1)])
next
  case (step_free ks k kp ext sl)
  then show ?case using slots_inv_keys [OF _ freed [OF _ step_free(1-3)]] by simp
next
  case (step_foreign ks ks' ext sl)
  then show ?case using slots_inv_keys [OF _ foreign_inv [OF _ step_foreign(1)]] by simp
qed

lemma kp_steps_inv:
  "(kp_step p)\<^sup>*\<^sup>* st st' \<Longrightarrow> slots_inv p (fst st) (snd st) \<Longrightarrow> slots_inv p (fst st') (snd st')"
  by (induction rule: rtranclp_induct) (auto dest: kp_step_inv)

section \<open>Properties\<close>

lemma session_keys_mirror:
  assumes "chaining_key ha = chaining_key hb" "hs_state ha = HANDSHAKE_CONSUMED_RESPONSE"
    "hs_state hb = HANDSHAKE_CREATED_RESPONSE"
  shows "sk_key (sending (session_keypair cr t1 ha z1)) = sk_key (receiving (session_keypair cr t2 hb z2))"
    "sk_key (receiving (session_keypair cr t1 ha z1)) = sk_key (sending (session_keypair cr t2 hb z2))"
    "i_am_the_initiator (session_keypair cr t1 ha z1)" "\<not> i_am_the_initiator (session_keypair cr t2 hb z2)"
    "kp_remote_index (session_keypair cr t1 ha z1) = hs_remote_index ha"
    "kp_remote_index (session_keypair cr t2 hb z2) = hs_remote_index hb"
  using assms by (simp_all add: session_keypair_def derive_keys_def Let_def split: prod.splits)

text \<open>C33. Both sides of a handshake derive the same session keys. Two devices are configured with
  each other's public key and the same preshared key. An initiation that the first creates is
  accepted by the second unless it is late or too early or loses the tie of crossing initiations;
  every response that the second then creates is accepted by the first, whatever else is in its
  index table; and the keypairs that the two derive mirror each other: what one sends with, the
  other receives with, each side names the index of the other, and exactly the first is the
  initiator.\<close>

theorem handshake_agrees:
  assumes ok: "crypto_ok cr" "a = wg_noise_set_static_identity_private_key cr ka a0" "has_identity a"
      "b = wg_noise_set_static_identity_private_key cr kb b0" "has_identity b"
    and conf: "configured cr a (static_public b) psk ha" "configured cr b (static_public a) psk (hbs pa)"
    and find: "find_peer (static_public a) = Some pa"
    and table: "index_inv ta" "others (Handshake_entry pb) (dr_env da)" "alive pb"
    and create: "wg_noise_handshake_create_initiation cr da a pb (ha, ta) = Some (Some m1, ha1, ta1)"
    and timely: "\<not> initiation_attack (tai64n_now (dr_now da)) now (hbs pa)"
    and no_tie: "hs_state (hbs pa) \<noteq> HANDSHAKE_CREATED_INITIATION"
  shows "\<exists>hbs1. wg_noise_handshake_consume_initiation cr tr b find_peer id now now' m1 hbs = (Some pa, hbs1) \<and>
    (\<forall>db tb m2 hb2 tb2. wg_noise_handshake_create_response cr db pa (hbs1 pa, tb) = Some (Some m2, hb2, tb2) \<longrightarrow>
      (\<exists>has2. wg_noise_handshake_consume_response cr a alive ta1 id m2 (has(pb := ha1)) = (Some pb, has2) \<and>
        (\<forall>t1 t2 z1 z2. let A = session_keypair cr t1 (has2 pb) z1; B = session_keypair cr t2 hb2 z2 in
           sk_key (sending A) = sk_key (receiving B) \<and> sk_key (receiving A) = sk_key (sending B) \<and>
           i_am_the_initiator A \<and> \<not> i_am_the_initiator B \<and>
           kp_remote_index A = mr_sender_index m2 \<and> kp_remote_index B = mi_sender_index m1)))"
proof -
  have ids: "identity_ok cr a" "identity_ok cr b" using identity_set ok by blast+
  note opens = initiation_opens [where hbs = hbs and pa = pa and find_peer = find_peer, OF ok(1) ids conf find create]
  define hb1 where "hb1 = (hbs pa)\<lparr>remote_ephemeral := mi_unencrypted_ephemeral m1,
    latest_timestamp := tai64n_now (dr_now da), hs_hash := hs_hash ha1, chaining_key := chaining_key ha1,
    hs_remote_index := mi_sender_index m1,
    last_initiation_consumption := (if sint (last_initiation_consumption (hbs pa) - now') < 0 then now'
       else last_initiation_consumption (hbs pa)),
    hs_state := HANDSHAKE_CONSUMED_INITIATION\<rparr>"
  have "memcmp (tai64n_now (dr_now da)) (latest_timestamp (hbs pa)) > 0"
    using timely by (simp add: initiation_attack_def)
  then have consumed: "wg_noise_handshake_consume_initiation cr tr b find_peer id now now' m1 hbs =
      (Some pa, hbs(pa := hb1))"
    using opens timely no_tie
    by (simp add: wg_noise_handshake_consume_initiation_def commit_initiation_def hb1_def Let_def)
  have hb1: "chaining_key ha1 = chaining_key hb1" "hs_hash ha1 = hs_hash hb1" "preshared_key ha1 = preshared_key hb1"
    "remote_static hb1 = static_public a"
    "curve25519_generate_public cr (ephemeral_private ha1) = Some (remote_ephemeral hb1)"
    using opens conf(2) by (simp_all add: hb1_def configured_def)
  have "\<exists>has2. wg_noise_handshake_consume_response cr a alive ta1 id m2 (has(pb := ha1)) = (Some pb, has2) \<and>
      chaining_key (has2 pb) = chaining_key hb2 \<and> hs_state (has2 pb) = HANDSHAKE_CONSUMED_RESPONSE \<and>
      hs_state hb2 = HANDSHAKE_CREATED_RESPONSE \<and> hs_remote_index (has2 pb) = mr_sender_index m2 \<and>
      hs_remote_index hb2 = mi_sender_index m1"
    if "wg_noise_handshake_create_response cr db pa (hb1, tb) = Some (Some m2, hb2, tb2)" for db tb m2 hb2 tb2
  proof -
    note resp = response_opens [OF ok(1) ids(1) hb1 that]
    obtain x where "wg_index_hashtable_lookup alive INDEX_HASHTABLE_HANDSHAKE (mi_sender_index m1) ta1 = Some x"
      "ie_peer x = pb"
      using insert_lookup [where alive = alive and p = pb, OF table] opens by blast
    then show ?thesis
      using resp opens ok(3)
      by (simp add: wg_noise_handshake_consume_response_def commit_response_def hb1_def Let_def)
  qed
  note accepted = this
  show ?thesis
  proof (rule exI [of _ "hbs(pa := hb1)"], intro conjI consumed allI impI)
    fix db tb m2 hb2 tb2
    assume "wg_noise_handshake_create_response cr db pa ((hbs(pa := hb1)) pa, tb) = Some (Some m2, hb2, tb2)"
    then have "wg_noise_handshake_create_response cr db pa (hb1, tb) = Some (Some m2, hb2, tb2)" by simp
    from accepted [OF this] obtain has2 where
      r: "wg_noise_handshake_consume_response cr a alive ta1 id m2 (has(pb := ha1)) = (Some pb, has2)"
        "hs_remote_index (has2 pb) = mr_sender_index m2" "hs_remote_index hb2 = mi_sender_index m1"
      and s: "chaining_key (has2 pb) = chaining_key hb2" "hs_state (has2 pb) = HANDSHAKE_CONSUMED_RESPONSE"
        "hs_state hb2 = HANDSHAKE_CREATED_RESPONSE"
      by blast
    show "\<exists>has2. wg_noise_handshake_consume_response cr a alive ta1 id m2 (has(pb := ha1)) = (Some pb, has2) \<and>
        (\<forall>t1 t2 z1 z2. let A = session_keypair cr t1 (has2 pb) z1; B = session_keypair cr t2 hb2 z2 in
           sk_key (sending A) = sk_key (receiving B) \<and> sk_key (receiving A) = sk_key (sending B) \<and>
           i_am_the_initiator A \<and> \<not> i_am_the_initiator B \<and>
           kp_remote_index A = mr_sender_index m2 \<and> kp_remote_index B = mi_sender_index m1)"
      unfolding Let_def using session_keys_mirror [OF s, of cr] r(2,3)
      by (intro exI [of _ has2] conjI r(1) allI) simp_all
  qed
qed

lemma demo_response:
  assumes "hs_state hs = HANDSHAKE_CONSUMED_INITIATION"
  shows "\<exists>m hs' t. wg_noise_handshake_create_response toy_crypto (demo_draw 4 5 90) 1 (hs, \<lambda>_. []) = Some (Some m, hs', t)"
  by (simp add: assms wg_noise_handshake_create_response_def mix_dh_def toy_crypto_def message_encrypt_def demo_draw_def
      wg_index_hashtable_insert_def index_used_def wg_index_hashtable_remove_def Let_def split: prod.split)

lemma consumed_state:
  "wg_noise_handshake_consume_initiation cr tr sid fp env now now' src hss = (Some p, hss') \<Longrightarrow>
    hs_state (hss' p) = HANDSHAKE_CONSUMED_INITIATION"
  by (auto simp: wg_noise_handshake_consume_initiation_def commit_initiation_def Let_def
      split: option.splits if_splits prod.splits)

lemma demo_configured:
  "configured toy_crypto (demo_id me) [you] (replicate NOISE_SYMMETRIC_KEY_LEN 0) (demo_hs me you)"
  by (simp add: configured_def demo_hs_def wg_noise_handshake_init_def wg_noise_precompute_static_static_def)

lemma demo_id_public: "static_public (demo_id k) = [k]" "has_identity (demo_id k)"
  by (simp_all add: demo_id_def toy_crypto_def wg_noise_set_static_identity_private_key_def)

theorem handshake_agrees_witness:
  "\<exists>m1 ha1 ta1 hbs1 m2 hb2 tb2 has2.
     wg_noise_handshake_create_initiation toy_crypto (demo_draw 3 5 70) (demo_id 7) 2 (demo_hs 7 9, \<lambda>_. []) =
       Some (Some m1, ha1, ta1) \<and>
     wg_noise_handshake_consume_initiation toy_crypto WG_TRANSPORT_TCP (demo_id 9) demo_find id 30000000 30000001 m1
       (\<lambda>_. demo_hs 9 7) = (Some 1, hbs1) \<and>
     wg_noise_handshake_create_response toy_crypto (demo_draw 4 5 90) 1 (hbs1 1, \<lambda>_. []) = Some (Some m2, hb2, tb2) \<and>
     wg_noise_handshake_consume_response toy_crypto (demo_id 7) (\<lambda>_. True) ta1 id m2 ((\<lambda>_. demo_hs 7 9)(2 := ha1)) =
       (Some 2, has2) \<and>
     sk_key (sending (session_keypair toy_crypto 0 (has2 2) (zero_keypair 2 1))) =
       sk_key (receiving (session_keypair toy_crypto 0 hb2 (zero_keypair 1 1)))"
proof -
  obtain m1 ha1 ta1 where m1: "wg_noise_handshake_create_initiation toy_crypto (demo_draw 3 5 70) (demo_id 7) 2
      (demo_hs 7 9, \<lambda>_. []) = Some (Some m1, ha1, ta1)"
    using demo_created by blast
  have conf: "configured toy_crypto (demo_id 7) (static_public (demo_id 9)) (replicate NOISE_SYMMETRIC_KEY_LEN 0) (demo_hs 7 9)"
    "configured toy_crypto (demo_id 9) (static_public (demo_id 7)) (replicate NOISE_SYMMETRIC_KEY_LEN 0) ((\<lambda>_. demo_hs 9 7) (1::nat))"
    by (simp_all add: demo_configured demo_id_public)
  have inv: "index_inv (\<lambda>_. [])" "others (Handshake_entry 2) (dr_env (demo_draw 3 5 70))"
    by (simp_all add: index_inv_def demo_draw_def)
  have find: "demo_find (static_public (demo_id 7)) = Some 1" by (simp add: demo_find_def demo_id_public)
  have time: "\<not> initiation_attack (tai64n_now (dr_now (demo_draw 3 5 70))) 30000000 (demo_hs 9 7)"
    using demo_timely by (simp add: demo_draw_def)
  have st: "hs_state (demo_hs 9 7) \<noteq> HANDSHAKE_CREATED_INITIATION" by (simp add: toy_simps)
  note agrees = handshake_agrees [where alive = "\<lambda>_. True" and tr = WG_TRANSPORT_TCP and now' = 30000001
      and hbs = "\<lambda>_. demo_hs 9 7" and pa = 1 and find_peer = demo_find and has = "\<lambda>_. demo_hs 7 9",
      OF toy_crypto_ok demo_id_def demo_id_public(2) demo_id_def demo_id_public(2) conf find inv TrueI m1 time st]
  then obtain hbs1 where hbs1: "wg_noise_handshake_consume_initiation toy_crypto WG_TRANSPORT_TCP (demo_id 9) demo_find id
      30000000 30000001 m1 (\<lambda>_. demo_hs 9 7) = (Some 1, hbs1)" by blast
  obtain m2 hb2 tb2 where m2: "wg_noise_handshake_create_response toy_crypto (demo_draw 4 5 90) 1 (hbs1 1, \<lambda>_. []) =
      Some (Some m2, hb2, tb2)"
    using demo_response [OF consumed_state [OF hbs1]] by blast
  from agrees hbs1 m2 show ?thesis using m1 by (fastforce simp: Let_def)
qed



end
