(* ===== verification/Cookie.thy ===== *)
theory Cookie
  imports Noise Ratelimiter
begin

text \<open>
  Message authentication and cookies (kernel/cookie.c): the first mac proves that the
  sender knows the receiver's public key, the second that it receives packets at its
  address. \<open>struct cookie_checker\<close> is the receiver's side, \<open>struct cookie\<close> the sender's.
  Hashing and encryption are parameters, random bytes and clock reads arguments. The
  lemmas show that the macs a peer adds are the macs the receiver checks, before and
  after a cookie has been handed over.
\<close>

section \<open>State\<close>

record cookie_checker =
  ck_secret :: bytes
  cookie_encryption_key :: bytes
  ck_message_mac1_key :: bytes
  secret_birthdate :: u64

record cookie =
  ck_birthdate :: u64
  ck_is_valid :: bool
  ck_cookie :: bytes
  have_sent_mac1 :: bool
  last_mac1_sent :: bytes
  cookie_decryption_key :: bytes
  message_mac1_key :: bytes

datatype cookie_mac_state =
  INVALID_MAC | VALID_MAC_BUT_NO_COOKIE | VALID_MAC_WITH_COOKIE_BUT_RATELIMITED | VALID_MAC_WITH_COOKIE

datatype cookie_validation_action = WG_COOKIE_DROP | WG_COOKIE_ACCEPT | WG_COOKIE_CHALLENGE

section \<open>Operations\<close>

definition wg_cookie_validation_action :: "bool \<Rightarrow> cookie_mac_state \<Rightarrow> cookie_validation_action" where
  "wg_cookie_validation_action under_load mac_state =
     (if under_load \<and> mac_state = VALID_MAC_WITH_COOKIE then WG_COOKIE_ACCEPT
      else if \<not> under_load \<and> mac_state = VALID_MAC_BUT_NO_COOKIE then WG_COOKIE_ACCEPT
      else if under_load \<and> mac_state = VALID_MAC_BUT_NO_COOKIE then WG_COOKIE_CHALLENGE
      else WG_COOKIE_DROP)"

text \<open>\<open>random\<close>: the bytes the random source returns; \<open>now\<close>: the clock.\<close>

definition wg_cookie_checker_init :: "bytes \<Rightarrow> u64 \<Rightarrow> cookie_checker \<Rightarrow> cookie_checker" where
  "wg_cookie_checker_init random now c = c\<lparr>secret_birthdate := now, ck_secret := random\<rparr>"

definition mac1_key_label :: bytes where "mac1_key_label = ascii ''mac1----''"
definition cookie_key_label :: bytes where "cookie_key_label = ascii ''cookie--''"

definition precompute_key :: "crypto \<Rightarrow> bytes \<Rightarrow> bytes \<Rightarrow> bytes" where
  "precompute_key cr pubkey label = blake2s cr NOISE_SYMMETRIC_KEY_LEN [] (label @ pubkey)"

definition wg_cookie_checker_precompute_device_keys ::
  "crypto \<Rightarrow> noise_static_identity \<Rightarrow> cookie_checker \<Rightarrow> cookie_checker" where
  "wg_cookie_checker_precompute_device_keys cr sid c =
     (if has_identity sid then
        c\<lparr>cookie_encryption_key := precompute_key cr (static_public sid) cookie_key_label,
          ck_message_mac1_key := precompute_key cr (static_public sid) mac1_key_label\<rparr>
      else c\<lparr>cookie_encryption_key := replicate NOISE_SYMMETRIC_KEY_LEN 0,
             ck_message_mac1_key := replicate NOISE_SYMMETRIC_KEY_LEN 0\<rparr>)"

definition wg_cookie_checker_precompute_peer_keys :: "crypto \<Rightarrow> noise_handshake \<Rightarrow> cookie \<Rightarrow> cookie" where
  "wg_cookie_checker_precompute_peer_keys cr hs c =
     c\<lparr>cookie_decryption_key := precompute_key cr (remote_static hs) cookie_key_label,
       message_mac1_key := precompute_key cr (remote_static hs) mac1_key_label\<rparr>"

definition wg_cookie_init :: cookie where
  "wg_cookie_init =
     \<lparr>ck_birthdate = 0, ck_is_valid = False, ck_cookie = replicate COOKIE_LEN 0, have_sent_mac1 = False,
      last_mac1_sent = replicate COOKIE_LEN 0, cookie_decryption_key = replicate NOISE_SYMMETRIC_KEY_LEN 0,
      message_mac1_key = replicate NOISE_SYMMETRIC_KEY_LEN 0\<rparr>"

text \<open>A message ends with \<open>struct message_macs\<close>; the macs cover what comes before them.\<close>

definition compute_mac1 :: "crypto \<Rightarrow> bytes \<Rightarrow> bytes \<Rightarrow> bytes" where
  "compute_mac1 cr message key = blake2s cr COOKIE_LEN key (take (length message - sizeof_message_macs) message)"

definition compute_mac2 :: "crypto \<Rightarrow> bytes \<Rightarrow> bytes \<Rightarrow> bytes" where
  "compute_mac2 cr message cookie =
     blake2s cr COOKIE_LEN cookie (take (length message - sizeof_message_macs + COOKIE_LEN) message)"

definition mac1_of :: "bytes \<Rightarrow> bytes" where
  "mac1_of message = take COOKIE_LEN (drop (length message - sizeof_message_macs) message)"

definition mac2_of :: "bytes \<Rightarrow> bytes" where
  "mac2_of message = take COOKIE_LEN (drop (length message - sizeof_message_macs + COOKIE_LEN) message)"

text \<open>What the cookie is bound to: the address if the protocol is known, and the port.\<close>

definition cookie_source :: "sk_buff \<Rightarrow> bytes" where
  "cookie_source skb =
     (if skb_protocol skb = ETH_P_IP then (case skb_net skb of V4_hdr ip \<Rightarrow> put_be32 (ip_saddr ip) | _ \<Rightarrow> [])
      else if skb_protocol skb = ETH_P_IPV6 then (case skb_net skb of V6_hdr ip6 \<Rightarrow> in6_bytes (ip6_saddr ip6) | _ \<Rightarrow> [])
      else []) @
     (case skb_udp skb of Some u \<Rightarrow> put_be16 (udp_source u) | None \<Rightarrow> [])"

definition make_cookie ::
  "crypto \<Rightarrow> bytes \<Rightarrow> u64 \<Rightarrow> sk_buff \<Rightarrow> cookie_checker \<Rightarrow> bytes \<times> cookie_checker" where
  "make_cookie cr random now skb c =
     (let c1 = (if wg_birthdate_has_expired now (secret_birthdate c) COOKIE_SECRET_MAX_AGE
                then c\<lparr>secret_birthdate := now, ck_secret := random\<rparr> else c)
      in (blake2s cr COOKIE_LEN (ck_secret c1) (cookie_source skb), c1))"

text \<open>\<open>allow\<close>: the call of \<open>wg_ratelimiter_allow\<close>.\<close>

definition wg_cookie_validate_packet ::
  "crypto \<Rightarrow> bytes \<Rightarrow> u64 \<Rightarrow> (ratelimiter \<Rightarrow> bool \<times> ratelimiter) \<Rightarrow> sk_buff \<Rightarrow> bool \<Rightarrow>
   cookie_checker \<times> ratelimiter \<Rightarrow> cookie_mac_state \<times> cookie_checker \<times> ratelimiter" where
  "wg_cookie_validate_packet cr random now allow skb check_cookie st =
     (case st of (c, rl) \<Rightarrow>
        if compute_mac1 cr (skb_data skb) (ck_message_mac1_key c) \<noteq> mac1_of (skb_data skb) then (INVALID_MAC, c, rl)
        else if \<not> check_cookie then (VALID_MAC_BUT_NO_COOKIE, c, rl)
        else
          case make_cookie cr random now skb c of (cookie, c1) \<Rightarrow>
            if compute_mac2 cr (skb_data skb) cookie \<noteq> mac2_of (skb_data skb) then (VALID_MAC_BUT_NO_COOKIE, c1, rl)
            else
              case allow rl of (ok, rl1) \<Rightarrow>
                (if ok then VALID_MAC_WITH_COOKIE else VALID_MAC_WITH_COOKIE_BUT_RATELIMITED, c1, rl1))"

definition put_mac1 :: "bytes \<Rightarrow> bytes \<Rightarrow> bytes" where
  "put_mac1 m message =
     (let n = length message - sizeof_message_macs in take n message @ m @ drop (n + COOKIE_LEN) message)"

definition put_mac2 :: "bytes \<Rightarrow> bytes \<Rightarrow> bytes" where
  "put_mac2 m message = take (length message - sizeof_message_macs + COOKIE_LEN) message @ m"

text \<open>The lock is given up once, between the two macs; \<open>env\<close>: what happens to the cookie there.\<close>

definition wg_cookie_add_mac_to_packet ::
  "crypto \<Rightarrow> u64 \<Rightarrow> (cookie \<Rightarrow> cookie) \<Rightarrow> bytes \<Rightarrow> cookie \<Rightarrow> bytes \<times> cookie" where
  "wg_cookie_add_mac_to_packet cr now env message c =
     (let m = compute_mac1 cr message (message_mac1_key c);
          message1 = put_mac1 m message;
          c1 = env (c\<lparr>last_mac1_sent := m, have_sent_mac1 := True\<rparr>)
      in (put_mac2 (if ck_is_valid c1 \<and>
                       \<not> wg_birthdate_has_expired now (ck_birthdate c1) (COOKIE_SECRET_MAX_AGE - COOKIE_SECRET_LATENCY)
                    then compute_mac2 cr message1 (ck_cookie c1) else replicate COOKIE_LEN 0) message1, c1))"

definition wg_cookie_message_create ::
  "crypto \<Rightarrow> bytes \<Rightarrow> bytes \<Rightarrow> u64 \<Rightarrow> sk_buff \<Rightarrow> u32 \<Rightarrow> cookie_checker \<Rightarrow> message_handshake_cookie \<times> cookie_checker" where
  "wg_cookie_message_create cr nonce random now skb index c =
     (case make_cookie cr random now skb c of (cookie, c1) \<Rightarrow>
        (\<lparr>mc_receiver_index = index, mc_nonce = nonce,
          mc_encrypted_cookie = xchacha20poly1305_encrypt cr cookie (mac1_of (skb_data skb)) nonce (cookie_encryption_key c1)\<rparr>,
         c1))"

definition wg_cookie_message_consume ::
  "crypto \<Rightarrow> u64 \<Rightarrow> (pid \<Rightarrow> bool) \<Rightarrow> index_hashtable \<Rightarrow> (cookie \<Rightarrow> cookie) \<Rightarrow> message_handshake_cookie \<Rightarrow>
   (pid \<Rightarrow> cookie) \<Rightarrow> (pid \<Rightarrow> cookie)" where
  "wg_cookie_message_consume cr now alive t env src cs =
     (case wg_index_hashtable_lookup alive (INDEX_HASHTABLE_HANDSHAKE OR INDEX_HASHTABLE_KEYPAIR) (mc_receiver_index src) t of
        None \<Rightarrow> cs
      | Some x \<Rightarrow>
          let peer = ie_peer x; c = cs peer in
          if \<not> have_sent_mac1 c then cs
          else
            (case xchacha20poly1305_decrypt cr (mc_encrypted_cookie src) (last_mac1_sent c) (mc_nonce src)
                    (cookie_decryption_key c) of
               None \<Rightarrow> cs
             | Some k \<Rightarrow>
                 cs(peer := (env c)\<lparr>ck_cookie := k, ck_birthdate := now, ck_is_valid := True, have_sent_mac1 := False\<rparr>)))"

section \<open>Both sides compute the same macs\<close>

lemma macs_placed:
  assumes "sizeof_message_macs \<le> length msg" "length m1 = COOKIE_LEN" "length m2 = COOKIE_LEN"
  defines "msg' \<equiv> put_mac2 m2 (put_mac1 m1 msg)"
  shows "length msg' = length msg" "mac1_of msg' = m1" "mac2_of msg' = m2"
    "compute_mac1 cr msg' key = compute_mac1 cr msg key"
    "compute_mac2 cr msg' key = compute_mac2 cr (put_mac1 m1 msg) key"
proof -
  obtain n where n: "length msg = n + 2 * COOKIE_LEN" using assms(1) by (auto simp: sizeof_message_macs_def le_iff_add)
  have m1: "put_mac1 m1 msg = take n msg @ m1 @ drop (n + COOKIE_LEN) msg"
    by (simp add: put_mac1_def n sizeof_message_macs_def)
  then have l1: "length (put_mac1 m1 msg) = n + 2 * COOKIE_LEN" by (simp add: n assms(2))
  have msg': "msg' = take n msg @ m1 @ m2"
    unfolding msg'_def put_mac2_def l1 by (simp add: m1 n assms(2) sizeof_message_macs_def)
  then show l: "length msg' = length msg" by (simp add: n assms(2,3))
  show "mac1_of msg' = m1" "mac2_of msg' = m2" "compute_mac1 cr msg' key = compute_mac1 cr msg key"
    "compute_mac2 cr msg' key = compute_mac2 cr (put_mac1 m1 msg) key"
    unfolding mac1_of_def mac2_of_def compute_mac1_def compute_mac2_def l l1 n
    by (simp_all add: msg' m1 n assms(2,3) sizeof_message_macs_def)
qed

lemma added_macs:
  assumes ok: "crypto_ok cr" and add: "wg_cookie_add_mac_to_packet cr now id msg k = (msg', k')"
    and len: "sizeof_message_macs \<le> length msg"
  shows "mac1_of msg' = compute_mac1 cr msg' (message_mac1_key k)" "k' = k\<lparr>last_mac1_sent := mac1_of msg', have_sent_mac1 := True\<rparr>"
    "ck_is_valid k \<and> \<not> wg_birthdate_has_expired now (ck_birthdate k) (COOKIE_SECRET_MAX_AGE - COOKIE_SECRET_LATENCY) \<Longrightarrow>
       mac2_of msg' = compute_mac2 cr msg' (ck_cookie k)"
proof -
  let ?m1 = "compute_mac1 cr msg (message_mac1_key k)"
  let ?m2 = "if ck_is_valid k \<and> \<not> wg_birthdate_has_expired now (ck_birthdate k) (COOKIE_SECRET_MAX_AGE - COOKIE_SECRET_LATENCY)
    then compute_mac2 cr (put_mac1 ?m1 msg) (ck_cookie k) else replicate COOKIE_LEN 0"
  have msg': "msg' = put_mac2 ?m2 (put_mac1 ?m1 msg)" and k': "k' = k\<lparr>last_mac1_sent := ?m1, have_sent_mac1 := True\<rparr>"
    using add by (auto simp: wg_cookie_add_mac_to_packet_def Let_def)
  have "length ?m1 = COOKIE_LEN" "length ?m2 = COOKIE_LEN"
    using blake2s_length [OF ok] by (simp_all add: compute_mac1_def compute_mac2_def)
  note placed = macs_placed [OF len this, folded msg']
  show "mac1_of msg' = compute_mac1 cr msg' (message_mac1_key k)" by (simp add: placed)
  show "k' = k\<lparr>last_mac1_sent := mac1_of msg', have_sent_mac1 := True\<rparr>" by (simp add: placed k')
  show "mac2_of msg' = compute_mac2 cr msg' (ck_cookie k)"
    if "ck_is_valid k \<and> \<not> wg_birthdate_has_expired now (ck_birthdate k) (COOKIE_SECRET_MAX_AGE - COOKIE_SECRET_LATENCY)"
    using that by (simp add: placed)
qed

lemma keys_agree:
  assumes "has_identity b" "remote_static hs = static_public b"
  shows "ck_message_mac1_key (wg_cookie_checker_precompute_device_keys cr b c) =
      message_mac1_key (wg_cookie_checker_precompute_peer_keys cr hs k)"
    "cookie_encryption_key (wg_cookie_checker_precompute_device_keys cr b c) =
      cookie_decryption_key (wg_cookie_checker_precompute_peer_keys cr hs k)"
  using assms
  by (simp_all add: wg_cookie_checker_precompute_device_keys_def wg_cookie_checker_precompute_peer_keys_def)

text \<open>C35. A cookie round trip. A peer that knows the device's public key adds macs that the device
  accepts. When the device answers with a cookie, the peer takes it up, and the macs of the next
  message it sends from the same address, while the cookie is fresh and the device's secret has not
  been renewed, are accepted by a device under load, unless the rate limiter objects.\<close>

theorem cookie_roundtrip:
  assumes ok: "crypto_ok cr" "has_identity b" "remote_static hs = static_public b"
    and c: "c = wg_cookie_checker_precompute_device_keys cr b c0"
    and k: "k = wg_cookie_checker_precompute_peer_keys cr hs k0"
    and msg1: "sizeof_message_macs \<le> length msg" "wg_cookie_add_mac_to_packet cr n1 id msg k = (skb_data skb, k1)"
    and cookie: "wg_cookie_message_create cr nonce rnd n2 skb i c = (m, c2)"
    and peer: "wg_index_hashtable_lookup alive (INDEX_HASHTABLE_HANDSHAKE OR INDEX_HASHTABLE_KEYPAIR) i t = Some x" "cs (ie_peer x) = k1"
    and k3: "k3 = wg_cookie_message_consume cr n3 alive t id m cs (ie_peer x)"
    and msg2: "sizeof_message_macs \<le> length msg'" "wg_cookie_add_mac_to_packet cr n4 id msg' k3 = (skb_data skb2, k4)"
    and fresh: "\<not> wg_birthdate_has_expired n4 n3 (COOKIE_SECRET_MAX_AGE - COOKIE_SECRET_LATENCY)"
      "\<not> wg_birthdate_has_expired n5 (secret_birthdate c2) COOKIE_SECRET_MAX_AGE"
    and same: "cookie_source skb2 = cookie_source skb"
  shows "wg_cookie_validate_packet cr rnd' n2 allow skb False (c, rl) = (VALID_MAC_BUT_NO_COOKIE, c, rl) \<and>
    wg_cookie_validate_packet cr rnd' n5 allow skb2 True (c2, rl) =
      (if fst (allow rl) then VALID_MAC_WITH_COOKIE else VALID_MAC_WITH_COOKIE_BUT_RATELIMITED, c2, snd (allow rl))"
proof -
  let ?ck = "blake2s cr COOKIE_LEN (ck_secret c2) (cookie_source skb)"
  note keys = keys_agree [OF ok(2,3), of cr c0 k0, folded c k]
  note a1 = added_macs [OF ok(1) msg1(2,1)]
  have m: "m = \<lparr>mc_receiver_index = i, mc_nonce = nonce, mc_encrypted_cookie =
      xchacha20poly1305_encrypt cr ?ck (mac1_of (skb_data skb)) nonce (cookie_encryption_key c)\<rparr>"
    and c2: "cookie_encryption_key c2 = cookie_encryption_key c" "ck_message_mac1_key c2 = ck_message_mac1_key c"
    using cookie by (auto simp: wg_cookie_message_create_def make_cookie_def Let_def split: prod.splits)
  have "k3 = k1\<lparr>ck_cookie := ?ck, ck_birthdate := n3, ck_is_valid := True, have_sent_mac1 := False\<rparr>"
    unfolding k3 wg_cookie_message_consume_def
    using peer by (simp add: m a1(2) keys(2) xchacha_inverse [OF ok(1)] Let_def)
  then have k3': "ck_is_valid k3" "ck_birthdate k3 = n3" "ck_cookie k3 = ?ck" "message_mac1_key k3 = ck_message_mac1_key c2"
    by (simp_all add: a1(2) keys(1) c2)
  note a2 = added_macs [OF ok(1) msg2(2,1)]
  have "mac2_of (skb_data skb2) = compute_mac2 cr (skb_data skb2) ?ck"
    using a2(3) k3' fresh(1) by simp
  then have "wg_cookie_validate_packet cr rnd' n5 allow skb2 True (c2, rl) =
      (if fst (allow rl) then VALID_MAC_WITH_COOKIE else VALID_MAC_WITH_COOKIE_BUT_RATELIMITED, c2, snd (allow rl))"
    using a2(1) fresh(2) same k3'(4)
    by (simp add: wg_cookie_validate_packet_def make_cookie_def Let_def split: prod.splits)
  moreover have "wg_cookie_validate_packet cr rnd' n2 allow skb False (c, rl) = (VALID_MAC_BUT_NO_COOKIE, c, rl)"
    using a1(1) keys(1) by (simp add: wg_cookie_validate_packet_def)
  ultimately show ?thesis by blast
qed

text \<open>Messages of macs only, to a device with the toy primitives.\<close>

definition demo_skb :: "bytes \<Rightarrow> sk_buff" where
  "demo_skb bs =
     \<lparr>skb_headroom = 0, skb_data = bs, skb_tailroom = 0, skb_net = No_hdr, skb_udp = None, skb_protocol = 0,
      skb_iif = 0, cb_frag_id = 0, cb_frag_off = 0, cb_tcp_connection_id = 0\<rparr>"

definition demo_checker :: cookie_checker where
  "demo_checker = wg_cookie_checker_precompute_device_keys toy_crypto (demo_id 9)
     \<lparr>ck_secret = [], cookie_encryption_key = [], ck_message_mac1_key = [], secret_birthdate = 0\<rparr>"

definition demo_cookie :: cookie where
  "demo_cookie = wg_cookie_checker_precompute_peer_keys toy_crypto (demo_hs 7 9) wg_cookie_init"

definition demo_lookup :: index_hashtable where
  "demo_lookup = (\<lambda>_. [])(5 := [\<lparr>ie_of = Handshake_entry 1, ie_peer = 1, ie_index = 5\<rparr>])"

theorem cookie_roundtrip_witness:
  "\<exists>skb skb2 c2. wg_cookie_validate_packet toy_crypto [] 20 (\<lambda>rl. (True, rl)) skb False (demo_checker, demo_limiter) =
      (VALID_MAC_BUT_NO_COOKIE, demo_checker, demo_limiter) \<and>
    wg_cookie_validate_packet toy_crypto [] 50 (\<lambda>rl. (True, rl)) skb2 True (c2, demo_limiter) =
      (VALID_MAC_WITH_COOKIE, c2, demo_limiter)"
proof -
  let ?msg = "replicate sizeof_message_macs 0 :: bytes"
  obtain m1 k1 where m1: "wg_cookie_add_mac_to_packet toy_crypto 10 id ?msg demo_cookie = (m1, k1)"
    by (cases "wg_cookie_add_mac_to_packet toy_crypto 10 id ?msg demo_cookie") auto
  obtain m c2 where m: "wg_cookie_message_create toy_crypto [] [] 20 (demo_skb m1) 5 demo_checker = (m, c2)"
    by (cases "wg_cookie_message_create toy_crypto [] [] 20 (demo_skb m1) 5 demo_checker") auto
  let ?k3 = "wg_cookie_message_consume toy_crypto 30 (\<lambda>_. True) demo_lookup id m (\<lambda>_. k1) 1"
  obtain m2 k4 where m2: "wg_cookie_add_mac_to_packet toy_crypto 40 id ?msg ?k3 = (m2, k4)"
    by (cases "wg_cookie_add_mac_to_packet toy_crypto 40 id ?msg ?k3") auto
  let ?x = "\<lparr>ie_of = Handshake_entry 1, ie_peer = 1, ie_index = 5\<rparr>"
  have x: "wg_index_hashtable_lookup (\<lambda>_. True) (INDEX_HASHTABLE_HANDSHAKE OR INDEX_HASHTABLE_KEYPAIR) 5 demo_lookup = Some ?x"
    by (simp add: wg_index_hashtable_lookup_def demo_lookup_def index_bucket_def INDEX_HASHTABLE_HANDSHAKE_def
        INDEX_HASHTABLE_KEYPAIR_def)
  have "\<not> wg_birthdate_has_expired 20 0 COOKIE_SECRET_MAX_AGE" "\<not> wg_birthdate_has_expired 50 0 COOKIE_SECRET_MAX_AGE"
    by (simp_all add: wg_birthdate_has_expired_def COOKIE_SECRET_MAX_AGE_def NSEC_PER_SEC_def)
  moreover have "secret_birthdate demo_checker = 0"
    by (simp add: demo_checker_def wg_cookie_checker_precompute_device_keys_def)
  ultimately have c2: "\<not> wg_birthdate_has_expired 50 (secret_birthdate c2) COOKIE_SECRET_MAX_AGE"
    using m by (auto simp: wg_cookie_message_create_def make_cookie_def)
  have time: "\<not> wg_birthdate_has_expired 40 30 (COOKIE_SECRET_MAX_AGE - COOKIE_SECRET_LATENCY)"
    by (simp add: wg_birthdate_has_expired_def COOKIE_SECRET_MAX_AGE_def COOKIE_SECRET_LATENCY_def NSEC_PER_SEC_def)
  have id9: "has_identity (demo_id 9)" "remote_static (demo_hs 7 9) = static_public (demo_id 9)"
    by (simp_all add: toy_simps)
  have k3: "?k3 = wg_cookie_message_consume toy_crypto 30 (\<lambda>_. True) demo_lookup id m (\<lambda>_. k1) (ie_peer ?x)" by simp
  have data: "skb_data (demo_skb b) = b" "cookie_source (demo_skb b) = cookie_source (demo_skb [])" for b
    by (simp_all add: demo_skb_def cookie_source_def)
  have len: "sizeof_message_macs \<le> length ?msg" by simp
  have m1': "wg_cookie_add_mac_to_packet toy_crypto 10 id ?msg demo_cookie = (skb_data (demo_skb m1), k1)"
    and m2': "wg_cookie_add_mac_to_packet toy_crypto 40 id ?msg ?k3 = (skb_data (demo_skb m2), k4)"
    by (simp_all only: data(1) m1 m2)
  have src: "cookie_source (demo_skb m2) = cookie_source (demo_skb m1)"
    by (rule trans [OF data(2) data(2) [symmetric]])
  have k1: "(\<lambda>_. k1) (ie_peer ?x) = k1" by simp
  have "wg_cookie_validate_packet toy_crypto [] 20 (\<lambda>rl. (True, rl)) (demo_skb m1) False (demo_checker, demo_limiter) =
      (VALID_MAC_BUT_NO_COOKIE, demo_checker, demo_limiter) \<and>
    wg_cookie_validate_packet toy_crypto [] 50 (\<lambda>rl. (True, rl)) (demo_skb m2) True (c2, demo_limiter) =
      (if fst (True, demo_limiter) then VALID_MAC_WITH_COOKIE else VALID_MAC_WITH_COOKIE_BUT_RATELIMITED,
       c2, snd (True, demo_limiter))"
    by (rule cookie_roundtrip [where cs = "\<lambda>_. k1" and x = ?x and alive = "\<lambda>_. True" and ?k3.0 = ?k3,
          OF toy_crypto_ok id9 demo_checker_def demo_cookie_def len m1' m x k1 k3 len m2' time c2 src])
  then show ?thesis by auto
qed

end
