(* ===== verification/Spec2Isabelle.thy ===== *)
theory Spec2Isabelle
  imports Reader_Bounds Admission_Bounds Carrier_Steps Prev_Queue Allowed_Table Ratelimiter Keypairs Cookie
begin

text \<open>
  Verification of the WireGuard-over-TCP kernel module.
\<close>

end
